(* ===== verification/Prelude.thy ===== *)
theory Prelude
  imports Main "HOL-Library.Word" "HOL-Library.Multiset"
begin

text \<open>
  Shared vocabulary of the DATO development: machine integers and byte strings, the result
  type of Rust functions that may return an error or panic, the build profile that decides
  whether integer overflow panics, the loop every client operation is built from
  (\<^verbatim>\<open>while let Some(Some(x)) = responses.next().await\<close>), and the generic lemmas on lists,
  sorting and indexed updates that the component theories use.
\<close>

named_theorems dato_defs \<open>definitions of small operations, unfolded by the component proofs\<close>

section \<open>Types\<close>

type_synonym byte = "8 word"
type_synonym bytes = "byte list"
type_synonym u64 = "64 word"
type_synonym u128 = "128 word"

text \<open>
  The value of a Rust call: \<^verbatim>\<open>Ok\<close> and \<^verbatim>\<open>Err\<close> of \<^verbatim>\<open>Result\<close>, and a panic
  (\<^verbatim>\<open>unwrap\<close>, \<^verbatim>\<open>expect\<close>, an index out of bounds, a checked overflow).
\<close>

datatype ('e, 'a) res = Ok 'a | Err 'e | Panic

fun map_ok :: "('a \<Rightarrow> 'b) \<Rightarrow> ('e, 'a) res \<Rightarrow> ('e, 'b) res" where
  "map_ok f (Ok a) = Ok (f a)"
| "map_ok f (Err e) = Err e"
| "map_ok f Panic = Panic"

text \<open>Cargo's \<^verbatim>\<open>dev\<close> profile checks integer overflow, \<^verbatim>\<open>release\<close> wraps.\<close>

datatype profile = Dev | Release

section \<open>The response loop\<close>

text \<open>
  What the body of one iteration does: go on with a new state (falling through or
  \<^verbatim>\<open>continue\<close>), leave the loop (\<^verbatim>\<open>break\<close>), or panic.
\<close>

datatype 'st step = Next 'st | Stop 'st | Crash

text \<open>
  \<^verbatim>\<open>while let Some(Some(r)) = responses.next().await { body }\<close>. The list holds the values
  the futures produce, in completion order. The loop ends when the stream is exhausted
  (\<open>[]\<close>), and also at the first future that produced \<^verbatim>\<open>None\<close>, because the pattern does
  not match then. The result is \<open>None\<close> when the body panicked.
\<close>

fun run_loop :: "('r \<Rightarrow> 'st \<Rightarrow> 'st step) \<Rightarrow> 'r option list \<Rightarrow> 'st \<Rightarrow> 'st option" where
  "run_loop body [] st = Some st"
| "run_loop body (None # rs) st = Some st"
| "run_loop body (Some r # rs) st =
     (case body r st of
        Next st' \<Rightarrow> run_loop body rs st'
      | Stop st' \<Rightarrow> Some st'
      | Crash \<Rightarrow> None)"

text \<open>The values before the first \<^verbatim>\<open>None\<close>: all the loop can ever look at.\<close>

fun before_failure :: "'r option list \<Rightarrow> 'r list" where
  "before_failure [] = []"
| "before_failure (None # rs) = []"
| "before_failure (Some r # rs) = r # before_failure rs"

lemma before_failure_map_Some [simp]: "before_failure (map Some rs) = rs"
  by (induction rs) auto

lemma before_failure_append_None [simp]:
  "before_failure (map Some rs @ None # xs) = rs"
  by (induction rs) auto

lemma set_before_failure: "r \<in> set (before_failure rs) \<Longrightarrow> Some r \<in> set rs"
  by (induction rs rule: before_failure.induct) auto

lemma run_loop_before_failure:
  "run_loop body (map Some (before_failure rs)) st = run_loop body rs st"
  by (induction rs arbitrary: st rule: before_failure.induct) (auto split: step.splits)

lemma run_loop_cong_values:
  "before_failure rs = before_failure rs' \<Longrightarrow> run_loop body rs st = run_loop body rs' st"
  by (metis run_loop_before_failure)

text \<open>
  The contract between a loop body and a history predicate: \<open>ghost h st\<close> relates the
  responses handled so far to the state the body has built from them.
\<close>

locale response_loop =
  fixes body :: "'r \<Rightarrow> 'st \<Rightarrow> 'st step"
    and ghost :: "'r list \<Rightarrow> 'st \<Rightarrow> bool"
  assumes ghost_Next: "ghost h st \<Longrightarrow> body r st = Next st' \<Longrightarrow> ghost (h @ [r]) st'"
    and ghost_Stop: "ghost h st \<Longrightarrow> body r st = Stop st' \<Longrightarrow> ghost (h @ [r]) st'"
begin

lemma run_values:
  assumes "ghost h st" and "run_loop body (map Some rs) st = Some st'"
  shows "\<exists>used rest. rs = used @ rest \<and> ghost (h @ used) st' \<and>
    (rest = [] \<or> (\<exists>r s. body r s = Stop st'))"
  using assms
proof (induction rs arbitrary: h st)
  case Nil
  then show ?case by auto
next
  case (Cons r rs)
  show ?case
  proof (cases "body r st")
    case (Next s)
    from Cons.prems Next have g: "ghost (h @ [r]) s" and run: "run_loop body (map Some rs) s = Some st'"
      by (auto intro: ghost_Next)
    from Cons.IH [OF g run] obtain used rest
      where "rs = used @ rest" "ghost (h @ r # used) st'"
        "rest = [] \<or> (\<exists>r s. body r s = Stop st')" by auto
    then show ?thesis by (intro exI [of _ "r # used"] exI [of _ rest]) simp
  next
    case (Stop s)
    with Cons.prems have "ghost (h @ [r]) st'" "body r st = Stop st'" by (auto intro: ghost_Stop)
    then show ?thesis by (intro exI [of _ "[r]"] exI [of _ rs]) auto
  next
    case Crash
    with Cons.prems show ?thesis by simp
  qed
qed

lemma run_history:
  assumes "ghost [] st" and "run_loop body rs st = Some st'"
  shows "\<exists>used rest. before_failure rs = used @ rest \<and> ghost used st' \<and>
    (rest = [] \<or> (\<exists>r s. body r s = Stop st'))"
  using run_values [of "[]" st "before_failure rs" st'] assms
  by (simp add: run_loop_before_failure)

end

text \<open>
  A loop that leaves with \<^verbatim>\<open>break\<close> only in states that satisfy \<open>finished\<close>: it handles all the
  values before the first failure unless it is done earlier.
\<close>

locale breaking_loop = response_loop body ghost
  for body :: "'r \<Rightarrow> 'st \<Rightarrow> 'st step" and ghost :: "'r list \<Rightarrow> 'st \<Rightarrow> bool" +
  fixes finished :: "'st \<Rightarrow> bool"
  assumes Stop_finished: "body r st = Stop st' \<Longrightarrow> finished st'"
begin

lemma run_end:
  assumes "ghost [] st" and "run_loop body rs st = Some st'"
  shows "\<exists>used rest. before_failure rs = used @ rest \<and> ghost used st' \<and> (rest = [] \<or> finished st')"
  using run_history [OF assms] Stop_finished by blast

end

section \<open>Lists\<close>

text \<open>Writing a list of indexed values into an array, in order.\<close>

definition write_all :: "(nat \<times> 'a) list \<Rightarrow> 'a list \<Rightarrow> 'a list" where
  "write_all ivs xs = fold (\<lambda>(i, v) ys. ys[i := v]) ivs xs"

lemma write_all_Nil [simp]: "write_all [] xs = xs"
  by (simp add: write_all_def)

lemma write_all_Cons [simp]: "write_all ((i, v) # ivs) xs = write_all ivs (xs[i := v])"
  by (simp add: write_all_def)

lemma write_all_snoc [simp]: "write_all (ivs @ [(i, v)]) xs = (write_all ivs xs)[i := v]"
  by (simp add: write_all_def)

lemma length_write_all [simp]: "length (write_all ivs xs) = length xs"
  by (induction ivs arbitrary: xs) auto

lemma write_all_nth_other:
  "k \<notin> fst ` set ivs \<Longrightarrow> write_all ivs xs ! k = xs ! k"
  by (induction ivs arbitrary: xs) auto

lemma write_all_nth:
  assumes "distinct (map fst ivs)" "(i, v) \<in> set ivs" "i < length xs"
  shows "write_all ivs xs ! i = v"
  using assms
proof (induction ivs arbitrary: xs)
  case (Cons iv ivs)
  obtain j w where iv: "iv = (j, w)" by (cases iv)
  show ?case
  proof (cases "(i, v) \<in> set ivs")
    case True
    with Cons iv show ?thesis by auto
  next
    case False
    with Cons.prems iv have "j = i" "w = v" "i \<notin> fst ` set ivs" by auto
    with Cons.prems iv show ?thesis by (simp add: write_all_nth_other)
  qed
qed simp

lemma set_write_all:
  "set (write_all ivs xs) \<subseteq> set xs \<union> snd ` set ivs"
proof (induction ivs arbitrary: xs)
  case (Cons iv ivs)
  obtain i v where iv: "iv = (i, v)" by (cases iv)
  have "set (write_all (iv # ivs) xs) \<subseteq> set (xs[i := v]) \<union> snd ` set ivs"
    using Cons.IH [of "xs[i := v]"] iv by simp
  also have "\<dots> \<subseteq> set xs \<union> snd ` set (iv # ivs)"
    using set_update_subset_insert [of xs i v] iv by auto
  finally show ?case .
qed simp

section \<open>Order statistics\<close>

text \<open>
  If at most \<open>k\<close> elements of a list are below \<open>lo\<close>, the element at position \<open>k\<close> of the
  sorted list is at least \<open>lo\<close>; and dually from above.
\<close>

lemma sort_nth_ge:
  fixes xs :: "'a::linorder list"
  assumes "length (filter (\<lambda>x. x < lo) xs) \<le> k" and "k < length xs"
  shows "lo \<le> sort xs ! k"
proof (rule ccontr)
  assume "\<not> lo \<le> sort xs ! k"
  then have lt: "sort xs ! k < lo" by simp
  have below: "sort xs ! i < lo" if "i \<le> k" for i
    using sorted_nth_mono [OF sorted_sort, of i k xs] that assms(2) lt by simp
  have "take (Suc k) (sort xs) = filter (\<lambda>x. x < lo) (take (Suc k) (sort xs))"
    using below assms(2) by (intro filter_True [symmetric]) (auto simp: in_set_conv_nth)
  then have "Suc k = length (filter (\<lambda>x. x < lo) (take (Suc k) (sort xs)))"
    using assms(2) by (metis Suc_leI length_sort length_take min.absorb2)
  also have "\<dots> \<le> length (filter (\<lambda>x. x < lo) (take (Suc k) (sort xs) @ drop (Suc k) (sort xs)))"
    by (simp only: filter_append length_append)
  also have "\<dots> = length (filter (\<lambda>x. x < lo) (sort xs))"
    by (simp only: append_take_drop_id)
  also have "\<dots> = length (filter (\<lambda>x. x < lo) xs)"
    by (metis mset_filter mset_sort size_mset)
  finally show False using assms(1) by simp
qed

lemma sort_nth_le:
  fixes xs :: "'a::linorder list"
  assumes "length (filter (\<lambda>x. hi < x) xs) + k < length xs"
  shows "sort xs ! k \<le> hi"
proof (rule ccontr)
  assume "\<not> sort xs ! k \<le> hi"
  then have gt: "hi < sort xs ! k" by simp
  from assms have k: "k < length xs" by simp
  have above: "hi < sort xs ! i" if "k \<le> i" "i < length xs" for i
    using sorted_nth_mono [OF sorted_sort, of k i xs] that gt by simp
  have "drop k (sort xs) = filter (\<lambda>x. hi < x) (drop k (sort xs))"
    using above by (intro filter_True [symmetric]) (auto simp: in_set_conv_nth)
  then have "length xs - k = length (filter (\<lambda>x. hi < x) (drop k (sort xs)))"
    by (metis length_drop length_sort)
  also have "\<dots> \<le> length (filter (\<lambda>x. hi < x) (take k (sort xs) @ drop k (sort xs)))"
    by (simp only: filter_append length_append)
  also have "\<dots> = length (filter (\<lambda>x. hi < x) (sort xs))"
    by (simp only: append_take_drop_id)
  also have "\<dots> = length (filter (\<lambda>x. hi < x) xs)"
    by (metis mset_filter mset_sort size_mset)
  finally show False using assms by simp
qed

text \<open>Counting through multisets.\<close>

lemma length_filter_mset: "length (filter P xs) = size (filter_mset P (mset xs))"
  by (induction xs) auto

lemma size_filter_mset_map:
  "size (filter_mset P (mset (map f xs))) = length (filter (\<lambda>x. P (f x)) xs)"
  by (induction xs) auto

lemma size_filter_replicate_mset:
  "size (filter_mset P (replicate_mset n x)) = (if P x then n else 0)"
  by (induction n) auto

lemma sort_nth_mem: "k < length xs \<Longrightarrow> sort xs ! k \<in> set xs"
  by (metis length_sort nth_mem set_sort)

end
