(* ===== verification/Timestamps.thy ===== *)
theory Timestamps
  imports Prelude
begin

text \<open>
  \<^verbatim>\<open>Timestamp\<close> of \<^verbatim>\<open>src/common.rs\<close>: a UNIX millisecond count in a \<^verbatim>\<open>u128\<close>, its clock,
  its arithmetic under the two build profiles, its little-endian bytes (which every signed
  digest contains), and the median that \<^verbatim>\<open>certified_timestamp\<close> computes for both kinds of
  certificate.
\<close>

unbundle bit_operations_syntax

section \<open>The type\<close>

datatype Timestamp = Timestamp (ts_value: u128)

text \<open>\<^verbatim>\<open>derive(PartialOrd, Ord)\<close> on the one-field struct: the order of the field.\<close>

instantiation Timestamp :: linorder
begin

definition less_eq_Timestamp :: "Timestamp \<Rightarrow> Timestamp \<Rightarrow> bool" where
  "less_eq_Timestamp a b \<longleftrightarrow> ts_value a \<le> ts_value b"

definition less_Timestamp :: "Timestamp \<Rightarrow> Timestamp \<Rightarrow> bool" where
  "less_Timestamp a b \<longleftrightarrow> ts_value a < ts_value b"

instance
  by standard (auto simp: less_eq_Timestamp_def less_Timestamp_def Timestamp.expand)

end

lemma Timestamp_le [simp]: "Timestamp a \<le> Timestamp b \<longleftrightarrow> a \<le> b"
  by (simp add: less_eq_Timestamp_def)

lemma Timestamp_less [simp]: "Timestamp a < Timestamp b \<longleftrightarrow> a < b"
  by (simp add: less_Timestamp_def)

text \<open>\<^verbatim>\<open>derive(Default)\<close>: zero, the least timestamp.\<close>

definition ts_default :: Timestamp where
  "ts_default = Timestamp 0"

lemma ts_default_le [simp]: "ts_default \<le> t"
  by (cases t) (simp add: ts_default_def)

text \<open>The number of milliseconds as a natural number.\<close>

definition ts_nat :: "Timestamp \<Rightarrow> nat" where
  "ts_nat t = unat (ts_value t)"

lemma ts_le_nat: "a \<le> b \<longleftrightarrow> ts_nat a \<le> ts_nat b"
  by (simp add: ts_nat_def less_eq_Timestamp_def word_le_nat_alt)

lemma ts_nat_inject: "ts_nat a = ts_nat b \<longleftrightarrow> a = b"
  by (cases a; cases b) (simp add: ts_nat_def word_unat_eq_iff)

lemma ts_nat_bound: "ts_nat t < 2 ^ 128"
  using unsigned_less [of "ts_value t"] by (simp add: ts_nat_def)

section \<open>Conversions and arithmetic\<close>

definition ts_from_u128 :: "u128 \<Rightarrow> Timestamp" where
  "ts_from_u128 v = Timestamp v"

definition u128_from_ts :: "Timestamp \<Rightarrow> u128" where
  "u128_from_ts t = ts_value t"

definition ts_from_u64 :: "u64 \<Rightarrow> Timestamp" where
  "ts_from_u64 v = Timestamp (ucast v)"

lemma ts_nat_from_u64: "ts_nat (ts_from_u64 v) = unat v"
  by (simp add: ts_nat_def ts_from_u64_def unsigned_ucast_eq take_bit_nat_eq_self
      order_less_le_trans [OF unsigned_less])

text \<open>
  \<^verbatim>\<open>Timestamp::now\<close>: the system clock is read as nanoseconds relative to the UNIX epoch
  (negative before it). \<^verbatim>\<open>duration_since(UNIX_EPOCH).expect\<close> panics on a clock before the
  epoch, \<^verbatim>\<open>as_millis\<close> truncates. \<open>None\<close> is the panic.
\<close>

definition ts_now :: "int \<Rightarrow> Timestamp option" where
  "ts_now clock = (if clock < 0 then None else Some (Timestamp (word_of_int (clock div 1000000))))"

lemma ts_now_Some: "0 \<le> clock \<Longrightarrow> \<exists>t. ts_now clock = Some t"
  by (simp add: ts_now_def)

text \<open>
  \<^verbatim>\<open>Timestamp::duration_since\<close>, in nanoseconds. The two \<^verbatim>\<open>as u64\<close> casts keep the low 64
  bits, the \<^verbatim>\<open>u64\<close> subtraction panics below zero under \<^verbatim>\<open>dev\<close> and wraps under
  \<^verbatim>\<open>release\<close>, and subtracting the \<^verbatim>\<open>elapsed\<close> time of the instant panics when it is the
  longer of the two.
\<close>

definition ts_duration_since :: "profile \<Rightarrow> int \<Rightarrow> nat \<Rightarrow> Timestamp \<Rightarrow> nat option" where
  "ts_duration_since p clock elapsed t =
     (if clock < 0 then None
      else
        let since = (ucast (word_of_int (clock div 1000000) :: u128) :: u64);
            own = (ucast (ts_value t) :: u64)
        in if p = Dev \<and> since < own then None
           else
             let d = unat (since - own) * 1000000
             in if d < elapsed then None else Some (d - elapsed))"

text \<open>\<^verbatim>\<open>impl Add\<close>: the \<^verbatim>\<open>u128\<close> sum, overflow-checked under \<^verbatim>\<open>dev\<close>.\<close>

definition ts_add :: "profile \<Rightarrow> Timestamp \<Rightarrow> Timestamp \<Rightarrow> Timestamp option" where
  "ts_add p a b =
     (if p = Dev \<and> 2 ^ 128 \<le> ts_nat a + ts_nat b then None
      else Some (Timestamp (ts_value a + ts_value b)))"

text \<open>\<^verbatim>\<open>impl Div<u128>\<close>: division by zero panics.\<close>

definition ts_div :: "Timestamp \<Rightarrow> u128 \<Rightarrow> Timestamp option" where
  "ts_div t d = (if d = 0 then None else Some (Timestamp (ts_value t div d)))"

lemma ts_nat_add:
  "ts_nat (Timestamp (ts_value a + ts_value b)) = (ts_nat a + ts_nat b) mod 2 ^ 128"
  by (simp add: ts_nat_def unat_word_ariths)

lemma ts_nat_div2: "ts_nat (Timestamp (v div 2)) = unat v div 2"
  by (simp add: ts_nat_def unat_div)

lemma ts_nat_half_sum:
  "ts_nat (Timestamp ((ts_value a + ts_value b) div 2)) = (ts_nat a + ts_nat b) mod 2 ^ 128 div 2"
  using ts_nat_add [of a b] by (simp add: ts_nat_def unat_div)

section \<open>Little-endian bytes\<close>

text \<open>\<^verbatim>\<open>u128::to_le_bytes\<close>: sixteen bytes, least significant first.\<close>

definition to_le_bytes :: "u128 \<Rightarrow> bytes" where
  "to_le_bytes v = map (\<lambda>i. ucast (drop_bit (8 * i) v)) [0..<16]"

definition from_le_bytes :: "bytes \<Rightarrow> u128" where
  "from_le_bytes bs = foldr (\<lambda>b acc. ucast b OR push_bit 8 acc) bs 0"

lemma length_to_le_bytes [simp]: "length (to_le_bytes v) = 16"
  by (simp add: to_le_bytes_def)

lemma le_byte_cons:
  fixes v :: u128
  shows "ucast (ucast v :: byte) OR push_bit 8 (drop_bit 8 v) = v"
proof (rule bit_word_eqI)
  fix n
  assume "n < LENGTH(128)"
  then show "bit (ucast (ucast v :: byte) OR push_bit 8 (drop_bit 8 v)) n = bit v n"
    by (cases "n < 8") (auto simp: bit_simps le_add_diff_inverse)
qed

lemma le_byte_step:
  fixes v :: u128
  shows "ucast (ucast (drop_bit (8 * i) v) :: byte) OR push_bit 8 (drop_bit (8 * Suc i) v)
    = drop_bit (8 * i) v"
  using le_byte_cons [of "drop_bit (8 * i) v"] by (simp add: ac_simps)

lemma from_le_bytes_drop:
  fixes v :: u128
  assumes "k \<le> n"
  shows "from_le_bytes (map (\<lambda>i. ucast (drop_bit (8 * i) v)) [k..<n]) =
    foldr (\<lambda>i acc. ucast (ucast (drop_bit (8 * i) v) :: byte) OR push_bit 8 acc) [k..<n] 0"
  by (simp add: from_le_bytes_def foldr_map comp_def)

lemma foldr_le_bytes:
  fixes v :: u128
  assumes "k \<le> 16"
  shows "foldr (\<lambda>i acc. ucast (ucast (drop_bit (8 * i) v) :: byte) OR push_bit 8 acc) [k..<16] 0
    = drop_bit (8 * k) v"
  using assms
proof (induction rule: inc_induct)
  case base
  show ?case by (rule bit_word_eqI) (simp add: bit_simps)
next
  case (step k)
  then have "[k..<16] = k # [Suc k..<16]" by (simp add: upt_conv_Cons)
  with step.IH show ?case
    by (simp del: mult_Suc_right upt_Suc add: le_byte_step)
qed

lemma le_bytes_roundtrip: "from_le_bytes (to_le_bytes v) = v"
  using foldr_le_bytes [of 0 v] by (simp add: to_le_bytes_def from_le_bytes_drop)

lemma to_le_bytes_inject [simp]: "to_le_bytes a = to_le_bytes b \<longleftrightarrow> a = b"
  by (metis le_bytes_roundtrip)

section \<open>The certified median\<close>

text \<open>
  The body \<^verbatim>\<open>certified_timestamp\<close> has in both certificate types: sort in place, then the
  middle element, or half the sum of the two middle ones. On an empty array \<^verbatim>\<open>mid - 1\<close>
  underflows (or, wrapped, indexes out of bounds): a panic under either profile.
\<close>

definition median_timestamp :: "profile \<Rightarrow> Timestamp list \<Rightarrow> Timestamp option" where
  "median_timestamp p ts =
     (let s = sort ts; n = length s in
      if n mod 2 = 0 then
        (let mid = n div 2 in
         if mid = 0 then None
         else case ts_add p (s ! (mid - 1)) (s ! mid) of
                None \<Rightarrow> None
              | Some added \<Rightarrow> ts_div added 2)
      else Some (s ! (n div 2)))"

lemma median_timestamp_odd:
  "odd (length ts) \<Longrightarrow> median_timestamp p ts = Some (sort ts ! (length ts div 2))"
  by (simp add: median_timestamp_def Let_def odd_iff_mod_2_eq_one)

lemma median_timestamp_even:
  assumes "even (length ts)" "ts \<noteq> []"
  shows "median_timestamp p ts =
    (let a = sort ts ! (length ts div 2 - 1); b = sort ts ! (length ts div 2) in
     if p = Dev \<and> 2 ^ 128 \<le> ts_nat a + ts_nat b then None
     else Some (Timestamp ((ts_value a + ts_value b) div 2)))"
proof -
  from assms have "length ts div 2 \<noteq> 0" by (cases ts rule: remdups_adj.cases) auto
  with assms show ?thesis
    by (simp add: median_timestamp_def Let_def even_iff_mod_2_eq_zero ts_add_def ts_div_def
        del: div_eq_0_iff)
qed

lemma median_timestamp_Nil [simp]: "median_timestamp p [] = None"
  by (simp add: median_timestamp_def)

text \<open>Under \<^verbatim>\<open>release\<close> only the empty array panics.\<close>

lemma median_timestamp_Release: "ts \<noteq> [] \<Longrightarrow> \<exists>m. median_timestamp Release ts = Some m"
  by (cases "even (length ts)") (auto simp: median_timestamp_even median_timestamp_odd Let_def)

lemma median_timestamp_mset_cong: "mset ts = mset us \<Longrightarrow> median_timestamp p ts = median_timestamp p us"
proof -
  assume "mset ts = mset us"
  then have "sort ts = sort us" by (metis sorted_list_of_multiset_mset)
  then show ?thesis by (simp only: median_timestamp_def)
qed

lemma median_timestamp_sort [simp]: "median_timestamp p (sort ts) = median_timestamp p ts"
  by (rule median_timestamp_mset_cong) simp

text \<open>
  The upper bound needs no assumption on overflow: wrapping only makes the sum smaller. It
  holds when fewer than half of the entries lie above \<open>hi\<close>.
\<close>

lemma median_timestamp_le:
  assumes m: "median_timestamp p ts = Some m"
    and few: "length (filter (\<lambda>t. hi < t) ts) + length ts div 2 < length ts"
  shows "m \<le> hi"
proof (cases "even (length ts)")
  case False
  with m sort_nth_le [OF few] show ?thesis by (simp add: median_timestamp_odd)
next
  case True
  from few have ne: "ts \<noteq> []" by auto
  let ?a = "sort ts ! (length ts div 2 - 1)" and ?b = "sort ts ! (length ts div 2)"
  from few have b: "?b \<le> hi" by (rule sort_nth_le)
  have a: "?a \<le> hi" by (rule sort_nth_le) (use few in simp)
  from True ne m have eq: "m = Timestamp ((ts_value ?a + ts_value ?b) div 2)"
    by (simp add: median_timestamp_even Let_def split: if_splits)
  have "ts_nat m = ((ts_nat ?a + ts_nat ?b) mod 2 ^ 128) div 2"
    by (simp only: eq ts_nat_half_sum)
  also have "\<dots> \<le> (ts_nat ?a + ts_nat ?b) div 2" by (rule div_le_mono) simp
  also have "\<dots> \<le> ts_nat hi" using a b by (simp add: ts_le_nat)
  finally show ?thesis by (simp add: ts_le_nat)
qed

text \<open>
  The lower bound: at most \<open>(n - 1) div 2\<close> entries below \<open>lo\<close>, and no overflow of the sum,
  which holds as soon as the median entries are below \<open>2 ^ 127\<close>.
\<close>

lemma median_timestamp_ge:
  assumes m: "median_timestamp p ts = Some m"
    and ne: "ts \<noteq> []"
    and below: "length (filter (\<lambda>t. t < lo) ts) \<le> (length ts - 1) div 2"
    and above: "length (filter (\<lambda>t. hi < t) ts) + length ts div 2 < length ts"
    and hi: "ts_nat hi < 2 ^ 127"
  shows "lo \<le> m"
proof (cases "even (length ts)")
  case False
  then have "(length ts - 1) div 2 = length ts div 2" by presburger
  with below have "lo \<le> sort ts ! (length ts div 2)" using ne by (intro sort_nth_ge) auto
  with m False show ?thesis by (simp add: median_timestamp_odd)
next
  case True
  let ?a = "sort ts ! (length ts div 2 - 1)" and ?b = "sort ts ! (length ts div 2)"
  have idx: "(length ts - 1) div 2 = length ts div 2 - 1" using True ne by presburger
  have n: "0 < length ts" using ne by simp
  have a: "lo \<le> ?a" by (rule sort_nth_ge) (use below idx n in linarith)+
  have b: "lo \<le> ?b" by (rule sort_nth_ge) (use below idx n in linarith)+
  have "?a \<le> hi" by (rule sort_nth_le) (use above in simp)
  moreover have "?b \<le> hi" using above by (rule sort_nth_le)
  ultimately have small: "ts_nat ?a + ts_nat ?b < 2 ^ 128" using hi by (simp add: ts_le_nat)
  from True ne m have eq: "m = Timestamp ((ts_value ?a + ts_value ?b) div 2)"
    by (simp add: median_timestamp_even Let_def split: if_splits)
  have "ts_nat m = ((ts_nat ?a + ts_nat ?b) mod 2 ^ 128) div 2"
    by (simp only: eq ts_nat_half_sum)
  also have "\<dots> = (ts_nat ?a + ts_nat ?b) div 2" using small by simp
  finally have "ts_nat m = (ts_nat ?a + ts_nat ?b) div 2" .
  moreover have "ts_nat lo \<le> ts_nat ?a" "ts_nat lo \<le> ts_nat ?b" using a b by (simp_all add: ts_le_nat)
  ultimately have "ts_nat lo \<le> ts_nat m" by linarith
  then show ?thesis by (simp add: ts_le_nat)
qed

text \<open>Below \<open>2 ^ 127\<close> the sum never overflows, so the median exists under both profiles.\<close>

lemma median_timestamp_total:
  assumes "ts \<noteq> []" "length (filter (\<lambda>t. hi < t) ts) + length ts div 2 < length ts"
    and "ts_nat hi < 2 ^ 127"
  shows "\<exists>m. median_timestamp p ts = Some m"
proof (cases "even (length ts)")
  case True
  let ?a = "sort ts ! (length ts div 2 - 1)" and ?b = "sort ts ! (length ts div 2)"
  have "?a \<le> hi" by (rule sort_nth_le) (use assms(2) in simp)
  moreover have "?b \<le> hi" using assms(2) by (rule sort_nth_le)
  ultimately have "ts_nat ?a + ts_nat ?b < 2 ^ 128" using assms(3) by (simp add: ts_le_nat)
  with True assms(1) show ?thesis by (simp add: median_timestamp_even Let_def)
qed (simp add: median_timestamp_odd)

end
