(* ===== verification/Crypto.thy ===== *)
theory Crypto
  imports Timestamps
begin

text \<open>
  The cryptographic layer: the functions of the \<^verbatim>\<open>blst\<close> and \<^verbatim>\<open>alloy\<close> crates the program
  calls (third-party code, so a record of parameters every definition takes as \<open>L\<close>), the
  wrappers of \<^verbatim>\<open>src/primitives/bls.rs\<close>, and the two serde modules of \<^verbatim>\<open>src/common.rs\<close>
  that write signatures as prefixed hex. What the program relies on of those crates is stated
  in the predicates at the end of the parameter section; no definition depends on them.
\<close>

section \<open>Parameters: \<^verbatim>\<open>blst::min_pk\<close>, Keccak-256 and hex\<close>

datatype blst_error =
    BLST_SUCCESS | BLST_BAD_ENCODING | BLST_POINT_NOT_ON_CURVE | BLST_POINT_NOT_IN_GROUP
  | BLST_AGGR_TYPE_MISMATCH | BLST_VERIFY_FAIL | BLST_PK_IS_INFINITY | BLST_BAD_SCALAR

text \<open>
  \<open>sk_sign key msg dst aug\<close>, \<open>sig_verify sig groupcheck msg dst aug pk validate\<close> and
  \<open>agg_add_signature agg sig groupcheck\<close> take their arguments in the crate's order.
  \<open>keccak256\<close> is the digest of the concatenation of everything passed to
  \<^verbatim>\<open>Keccak256::update\<close>.
\<close>

record ('sk, 'pk, 'sig, 'agg) lib =
  keccak256 :: "bytes \<Rightarrow> bytes"
  hex_encode_prefixed :: "bytes \<Rightarrow> string"
  hex_decode :: "string \<Rightarrow> bytes option"
  sk_key_gen :: "bytes \<Rightarrow> bytes \<Rightarrow> blst_error + 'sk"
  sk_to_pk :: "'sk \<Rightarrow> 'pk"
  sk_to_bytes :: "'sk \<Rightarrow> bytes"
  sk_from_bytes :: "bytes \<Rightarrow> blst_error + 'sk"
  sk_sign :: "'sk \<Rightarrow> bytes \<Rightarrow> bytes \<Rightarrow> bytes \<Rightarrow> 'sig"
  pk_to_bytes :: "'pk \<Rightarrow> bytes"
  pk_from_bytes :: "bytes \<Rightarrow> blst_error + 'pk"
  sig_verify :: "'sig \<Rightarrow> bool \<Rightarrow> bytes \<Rightarrow> bytes \<Rightarrow> bytes \<Rightarrow> 'pk \<Rightarrow> bool \<Rightarrow> blst_error"
  sig_to_bytes :: "'sig \<Rightarrow> bytes"
  sig_from_bytes :: "bytes \<Rightarrow> blst_error + 'sig"
  agg_from_signature :: "'sig \<Rightarrow> 'agg"
  agg_add_signature :: "'agg \<Rightarrow> 'sig \<Rightarrow> bool \<Rightarrow> blst_error + 'agg"
  agg_to_signature :: "'agg \<Rightarrow> 'sig"

text \<open>A signature verifies under the public key of the key that made it.\<close>

definition bls_correct :: "('sk, 'pk, 'sig, 'agg) lib \<Rightarrow> bool" where
  "bls_correct L \<longleftrightarrow>
     (\<forall>sk msg dst aug gc v.
        sig_verify L (sk_sign L sk msg dst aug) gc msg dst aug (sk_to_pk L sk) v = BLST_SUCCESS)"

text \<open>Adding a signature fails only in the group check, so never without one.\<close>

definition agg_unchecked_total :: "('sk, 'pk, 'sig, 'agg) lib \<Rightarrow> bool" where
  "agg_unchecked_total L \<longleftrightarrow> (\<forall>agg sig. \<exists>agg'. agg_add_signature L agg sig False = Inr agg')"

text \<open>Encodings decode to what was encoded.\<close>

definition hex_roundtrip :: "('sk, 'pk, 'sig, 'agg) lib \<Rightarrow> bool" where
  "hex_roundtrip L \<longleftrightarrow> (\<forall>bs. hex_decode L (hex_encode_prefixed L bs) = Some bs)"

definition sig_bytes_roundtrip :: "('sk, 'pk, 'sig, 'agg) lib \<Rightarrow> bool" where
  "sig_bytes_roundtrip L \<longleftrightarrow> (\<forall>s. sig_from_bytes L (sig_to_bytes L s) = Inr s)"

definition pk_bytes_roundtrip :: "('sk, 'pk, 'sig, 'agg) lib \<Rightarrow> bool" where
  "pk_bytes_roundtrip L \<longleftrightarrow> (\<forall>pk. pk_from_bytes L (pk_to_bytes L pk) = Inr pk)"

definition sk_bytes_roundtrip :: "('sk, 'pk, 'sig, 'agg) lib \<Rightarrow> bool" where
  "sk_bytes_roundtrip L \<longleftrightarrow> (\<forall>sk. sk_from_bytes L (sk_to_bytes L sk) = Inr sk)"

text \<open>Two byte strings are no collision of the hash.\<close>

definition no_collision :: "('sk, 'pk, 'sig, 'agg) lib \<Rightarrow> bytes \<Rightarrow> bytes \<Rightarrow> bool" where
  "no_collision L a b \<longleftrightarrow> (keccak256 L a = keccak256 L b \<longrightarrow> a = b)"

section \<open>\<^verbatim>\<open>src/primitives/bls.rs\<close>\<close>

definition BLS_DST_PREFIX :: bytes where
  "BLS_DST_PREFIX = map of_char ''BLS_SIG_BLS12381G2_XMD:SHA-256_SSWU_RO_POP_''"

definition sign_with_prefix :: "('sk, 'pk, 'sig, 'agg) lib \<Rightarrow> 'sk \<Rightarrow> bytes \<Rightarrow> 'sig" where
  "sign_with_prefix L key data = sk_sign L key data BLS_DST_PREFIX []"

definition verify_signature :: "('sk, 'pk, 'sig, 'agg) lib \<Rightarrow> 'sig \<Rightarrow> 'pk \<Rightarrow> bytes \<Rightarrow> bool" where
  "verify_signature L signature pubkey digest \<longleftrightarrow>
     sig_verify L signature False digest BLS_DST_PREFIX [] pubkey True = BLST_SUCCESS"

text \<open>
  \<^verbatim>\<open>random_bls_secret\<close> with the 32 random bytes as argument; \<open>None\<close> is the \<^verbatim>\<open>unwrap\<close>
  panic.
\<close>

definition random_bls_secret :: "('sk, 'pk, 'sig, 'agg) lib \<Rightarrow> bytes \<Rightarrow> 'sk option" where
  "random_bls_secret L ikm =
     (case sk_key_gen L ikm [] of Inr sk \<Rightarrow> Some sk | Inl e \<Rightarrow> None)"

lemma verify_signed [simp]:
  "bls_correct L \<Longrightarrow>
     verify_signature L (sign_with_prefix L sk digest) (sk_to_pk L sk) digest"
  by (simp add: bls_correct_def verify_signature_def sign_with_prefix_def)

section \<open>Aggregation\<close>

text \<open>
  The aggregate of a non-empty list of signatures, in order: \<^verbatim>\<open>from_signature\<close> on the first,
  \<^verbatim>\<open>add_signature\<close> without group check on the others. \<open>None\<close> when the list is empty or
  an addition fails.
\<close>

fun agg_extend :: "('sk, 'pk, 'sig, 'agg) lib \<Rightarrow> 'agg \<Rightarrow> 'sig list \<Rightarrow> 'agg option" where
  "agg_extend L agg [] = Some agg"
| "agg_extend L agg (s # ss) =
     (case agg_add_signature L agg s False of Inl e \<Rightarrow> None | Inr agg' \<Rightarrow> agg_extend L agg' ss)"

fun aggregate :: "('sk, 'pk, 'sig, 'agg) lib \<Rightarrow> 'sig list \<Rightarrow> 'agg option" where
  "aggregate L [] = None"
| "aggregate L (s # ss) = agg_extend L (agg_from_signature L s) ss"

lemma agg_extend_snoc:
  "agg_extend L agg (ss @ [s]) =
     (case agg_extend L agg ss of
        None \<Rightarrow> None
      | Some q \<Rightarrow> (case agg_add_signature L q s False of Inl e \<Rightarrow> None | Inr q' \<Rightarrow> Some q'))"
  by (induction ss arbitrary: agg) (auto split: sum.splits)

lemma aggregate_snoc:
  "ss \<noteq> [] \<Longrightarrow> aggregate L (ss @ [s]) =
     (case aggregate L ss of
        None \<Rightarrow> None
      | Some q \<Rightarrow> (case agg_add_signature L q s False of Inl e \<Rightarrow> None | Inr q' \<Rightarrow> Some q'))"
  by (cases ss) (auto simp: agg_extend_snoc)

lemma agg_extend_total: "agg_unchecked_total L \<Longrightarrow> \<exists>q. agg_extend L agg ss = Some q"
proof (induction ss arbitrary: agg)
  case (Cons s ss)
  then obtain agg' where "agg_add_signature L agg s False = Inr agg'"
    unfolding agg_unchecked_total_def by blast
  with Cons show ?case by simp
qed simp

lemma aggregate_total: "agg_unchecked_total L \<Longrightarrow> ss \<noteq> [] \<Longrightarrow> \<exists>q. aggregate L ss = Some q"
  by (cases ss) (auto simp: agg_extend_total)

section \<open>Serde modules \<^verbatim>\<open>serde_bls\<close> and \<^verbatim>\<open>serde_bls_aggregate\<close>\<close>

text \<open>A custom deserialization error: bad hex, or \<^verbatim>\<open>failed to deserialize BLS signature\<close>.\<close>

datatype de_error = DeHex | DeBls blst_error

definition serde_bls_serialize :: "('sk, 'pk, 'sig, 'agg) lib \<Rightarrow> 'sig \<Rightarrow> string" where
  "serde_bls_serialize L sig = hex_encode_prefixed L (sig_to_bytes L sig)"

definition serde_bls_deserialize :: "('sk, 'pk, 'sig, 'agg) lib \<Rightarrow> string \<Rightarrow> de_error + 'sig" where
  "serde_bls_deserialize L s =
     (case hex_decode L s of
        None \<Rightarrow> Inl DeHex
      | Some bytes \<Rightarrow>
          (case sig_from_bytes L bytes of
             Inl e \<Rightarrow> Inl (DeBls e)
           | Inr sig \<Rightarrow> Inr sig))"

definition serde_bls_aggregate_serialize :: "('sk, 'pk, 'sig, 'agg) lib \<Rightarrow> 'agg \<Rightarrow> string" where
  "serde_bls_aggregate_serialize L agg =
     hex_encode_prefixed L (sig_to_bytes L (agg_to_signature L agg))"

definition serde_bls_aggregate_deserialize ::
  "('sk, 'pk, 'sig, 'agg) lib \<Rightarrow> string \<Rightarrow> de_error + 'agg" where
  "serde_bls_aggregate_deserialize L s =
     (case hex_decode L s of
        None \<Rightarrow> Inl DeHex
      | Some bytes \<Rightarrow>
          (case sig_from_bytes L bytes of
             Inl e \<Rightarrow> Inl (DeBls e)
           | Inr sig \<Rightarrow> Inr (agg_from_signature L sig)))"

lemma serde_bls_inverse:
  "hex_roundtrip L \<Longrightarrow> sig_bytes_roundtrip L \<Longrightarrow>
     serde_bls_deserialize L (serde_bls_serialize L sig) = Inr sig"
  by (simp add: serde_bls_deserialize_def serde_bls_serialize_def hex_roundtrip_def
      sig_bytes_roundtrip_def)

lemma serde_bls_aggregate_inverse:
  "hex_roundtrip L \<Longrightarrow> sig_bytes_roundtrip L \<Longrightarrow>
     serde_bls_aggregate_deserialize L (serde_bls_aggregate_serialize L agg) =
     Inr (agg_from_signature L (agg_to_signature L agg))"
  by (simp add: serde_bls_aggregate_deserialize_def serde_bls_aggregate_serialize_def
      hex_roundtrip_def sig_bytes_roundtrip_def)

section \<open>A library instance for examples\<close>

text \<open>
  Concrete functions that satisfy every predicate above, on which the examples of the
  development are evaluated: a key is a number, a signature records its key and message, an
  aggregate is the list of its signatures, the hash is the identity, and hex is the usual
  lower-case encoding.
\<close>

fun hex_digit :: "nat \<Rightarrow> char" where
  "hex_digit n = (if n < 10 then char_of (48 + n) else char_of (87 + n))"

fun hex_value :: "char \<Rightarrow> nat" where
  "hex_value c = (let v = of_char c in if v < 58 then v - 48 else v - 87)"

fun toy_hex :: "bytes \<Rightarrow> string" where
  "toy_hex [] = []"
| "toy_hex (b # bs) = hex_digit (unat b div 16) # hex_digit (unat b mod 16) # toy_hex bs"

fun toy_unhex :: "string \<Rightarrow> bytes option" where
  "toy_unhex [] = Some []"
| "toy_unhex [c] = None"
| "toy_unhex (c # d # s) =
     map_option (\<lambda>bs. of_nat (16 * hex_value c + hex_value d) # bs) (toy_unhex s)"

lemma hex_value_digit: "n < 16 \<Longrightarrow> hex_value (hex_digit n) = n"
  by (simp add: Let_def)

lemma toy_unhex_hex: "toy_unhex (toy_hex bs) = Some bs"
proof (induction bs)
  case (Cons b bs)
  have "unat b < 256" using unsigned_less [of b] by simp
  then have "unat b div 16 < 16" "unat b mod 16 < 16" by (simp_all add: less_mult_imp_div_less)
  with Cons show ?case
    by (simp add: hex_value_digit del: hex_value.simps hex_digit.simps)
qed simp

lemma hex_digit_alnum: "n < 16 \<Longrightarrow> hex_digit n \<in> set ''0123456789abcdef''"
proof -
  assume "n < 16"
  then have "n \<in> set [0..<16]" by simp
  moreover have "\<forall>n\<in>set [0..<16]. hex_digit n \<in> set ''0123456789abcdef''" by code_simp
  ultimately show ?thesis by blast
qed

lemma set_toy_hex: "set (toy_hex bs) \<subseteq> set ''0123456789abcdef''"
proof (induction bs)
  case (Cons b bs)
  have "unat b < 256" using unsigned_less [of b] by simp
  then have "unat b div 16 < 16" "unat b mod 16 < 16" by (simp_all add: less_mult_imp_div_less)
  with Cons hex_digit_alnum show ?case by (simp del: hex_digit.simps)
qed simp

type_synonym toy_sig = "nat \<times> bytes"

definition toy_lib :: "(nat, nat, toy_sig, toy_sig list) lib" where
  "toy_lib = \<lparr>
     keccak256 = (\<lambda>bs. bs),
     hex_encode_prefixed = (\<lambda>bs. ''0x'' @ toy_hex bs),
     hex_decode = (\<lambda>s. toy_unhex (drop 2 s)),
     sk_key_gen = (\<lambda>ikm info. Inr (length ikm)),
     sk_to_pk = (\<lambda>sk. sk),
     sk_to_bytes = (\<lambda>sk. replicate sk 1),
     sk_from_bytes = (\<lambda>bs. Inr (length bs)),
     sk_sign = (\<lambda>sk msg dst aug. (sk, msg)),
     pk_to_bytes = (\<lambda>pk. replicate pk 1),
     pk_from_bytes = (\<lambda>bs. Inr (length bs)),
     sig_verify = (\<lambda>sig gc msg dst aug pk v. if sig = (pk, msg) then BLST_SUCCESS else BLST_VERIFY_FAIL),
     sig_to_bytes = (\<lambda>(k, m). replicate k 1 @ 0 # m),
     sig_from_bytes = (\<lambda>bs. Inr (length (takeWhile (\<lambda>b. b \<noteq> 0) bs), tl (dropWhile (\<lambda>b. b \<noteq> 0) bs))),
     agg_from_signature = (\<lambda>s. [s]),
     agg_add_signature = (\<lambda>agg s gc. Inr (agg @ [s])),
     agg_to_signature = hd \<rparr>"

lemma toy_bls_correct: "bls_correct toy_lib"
  by (simp add: bls_correct_def toy_lib_def)

lemma toy_agg_total: "agg_unchecked_total toy_lib"
  by (simp add: agg_unchecked_total_def toy_lib_def)

lemma toy_hex_roundtrip: "hex_roundtrip toy_lib"
  by (simp add: hex_roundtrip_def toy_lib_def toy_unhex_hex)

lemma toy_sig_roundtrip: "sig_bytes_roundtrip toy_lib"
proof -
  have "takeWhile (\<lambda>b. b \<noteq> 0) (replicate k (1::byte) @ 0 # m) = replicate k 1"
    and "dropWhile (\<lambda>b. b \<noteq> 0) (replicate k (1::byte) @ 0 # m) = 0 # m" for k m
    by (induction k) auto
  then show ?thesis by (auto simp: sig_bytes_roundtrip_def toy_lib_def)
qed

lemma toy_pk_roundtrip: "pk_bytes_roundtrip toy_lib"
  by (simp add: pk_bytes_roundtrip_def toy_lib_def)

lemma toy_sk_roundtrip: "sk_bytes_roundtrip toy_lib"
  by (simp add: sk_bytes_roundtrip_def toy_lib_def)

lemma toy_no_collision [simp]: "no_collision toy_lib a b"
  by (simp add: no_collision_def toy_lib_def)

end
