(* ===== verification/Common.thy ===== *)
theory Common
  imports Crypto
begin

text \<open>
  The data model of \<^verbatim>\<open>src/common.rs\<close>: messages, records and their digests, logs, the two
  certificates, the errors, and the operations on them. A digest hashes the concatenation of
  its parts with no separators; the section on digests proves what such a digest binds and
  what it does not.
\<close>

section \<open>Messages and records\<close>

type_synonym Namespace = bytes
type_synonym B256 = bytes

datatype Message = Message (msg_bytes: bytes)

text \<open>\<^verbatim>\<open>derive(Default)\<close> of \<^verbatim>\<open>Message\<close>: the empty message.\<close>

definition msg_default :: Message where
  "msg_default = Message []"

record 'sig Record =
  r_timestamp :: Timestamp
  r_message :: Message
  r_signature :: 'sig

record 'sig UnavailableMessage =
  um_timestamp :: Timestamp
  um_msg_id :: B256
  um_signature :: 'sig

record 'agg CertifiedRecord =
  cr_timestamps :: "Timestamp list"
  cr_message :: Message
  cr_quorum_signature :: 'agg

record 'agg CertifiedUnavailableMessage =
  cu_timestamps :: "Timestamp list"
  cu_msg_id :: B256
  cu_quorum_signature :: 'agg

record 'sig Log =
  log_records :: "'sig Record list"

record 'agg CertifiedLog =
  cl_records :: "'agg CertifiedRecord list"

datatype 'agg CertifiedReadMessageResponse =
    CertAvailable "'agg CertifiedRecord"
  | CertUnavailable "'agg CertifiedUnavailableMessage"

datatype 'sig ReadMessageResponse =
    Available "'sig Record"
  | Unavailable "'sig UnavailableMessage"

record 'pk ValidatorIdentity =
  vi_index :: nat
  vi_pubkey :: 'pk

definition ValidatorIdentity_new :: "nat \<Rightarrow> 'pk \<Rightarrow> 'pk ValidatorIdentity" where
  "ValidatorIdentity_new index pubkey = \<lparr>vi_index = index, vi_pubkey = pubkey\<rparr>"

text \<open>An IP address (its octets) and a port.\<close>

type_synonym IpAddr = bytes
type_synonym SocketAddr = "IpAddr \<times> 16 word"

record SubscribeResponse =
  sr_port :: "16 word"
  sr_auth_token :: bytes

section \<open>Errors\<close>

text \<open>
  \<^verbatim>\<open>msg::ReqError\<close> is third-party; the program creates only the I/O error "could not find
  any valid address" itself, every other value comes from the network layer.
\<close>

datatype ReqError = IoInvalidInput | ReqOther nat

datatype WriteError = WriteTimeout | WriteNetwork ReqError | WriteNoQuorum nat nat

datatype ReadError = ReadTimeout | ReadNoQuorum nat nat

datatype SubscriptionError = SubTimeout | FailedToConnect | FailedToSubscribe

datatype ClientError =
    ClientWrite WriteError | ClientRead ReadError | ClientSubscription SubscriptionError

section \<open>Logs\<close>

definition Log_extend :: "'sig Log \<Rightarrow> 'sig Log \<Rightarrow> 'sig Log" where
  "Log_extend self other = self\<lparr>log_records := log_records self @ log_records other\<rparr>"

definition Log_len :: "'sig Log \<Rightarrow> nat" where
  "Log_len self = length (log_records self)"

definition Log_is_empty :: "'sig Log \<Rightarrow> bool" where
  "Log_is_empty self \<longleftrightarrow> log_records self = []"

definition Log_default :: "'sig Log" where
  "Log_default = \<lparr>log_records = []\<rparr>"

lemma Log_len_extend: "Log_len (Log_extend a b) = Log_len a + Log_len b"
  by (simp add: Log_len_def Log_extend_def)

lemma Log_is_empty_len: "Log_is_empty a \<longleftrightarrow> Log_len a = 0"
  by (simp add: Log_len_def Log_is_empty_def)

section \<open>Digests\<close>

text \<open>The byte strings fed to the hash, part after part.\<close>

definition message_preimage :: "Namespace \<Rightarrow> Message \<Rightarrow> bytes" where
  "message_preimage namespace m = namespace @ msg_bytes m"

definition record_preimage :: "Namespace \<Rightarrow> Timestamp \<Rightarrow> Message \<Rightarrow> bytes" where
  "record_preimage namespace t m = namespace @ to_le_bytes (ts_value t) @ msg_bytes m"

definition unavailable_preimage :: "B256 \<Rightarrow> Timestamp \<Rightarrow> bytes" where
  "unavailable_preimage msg_id t = msg_id @ to_le_bytes (ts_value t)"

definition Message_digest :: "('sk, 'pk, 'sig, 'agg) lib \<Rightarrow> Message \<Rightarrow> Namespace \<Rightarrow> B256" where
  "Message_digest L self namespace = keccak256 L (message_preimage namespace self)"

definition Message_record_digest ::
  "('sk, 'pk, 'sig, 'agg) lib \<Rightarrow> Message \<Rightarrow> Namespace \<Rightarrow> Timestamp \<Rightarrow> B256" where
  "Message_record_digest L self namespace t = keccak256 L (record_preimage namespace t self)"

definition Record_digest :: "('sk, 'pk, 'sig, 'agg) lib \<Rightarrow> 'sig Record \<Rightarrow> Namespace \<Rightarrow> B256" where
  "Record_digest L self namespace =
     keccak256 L (record_preimage namespace (r_timestamp self) (r_message self))"

definition Record_message_digest ::
  "('sk, 'pk, 'sig, 'agg) lib \<Rightarrow> 'sig Record \<Rightarrow> Namespace \<Rightarrow> B256" where
  "Record_message_digest L self namespace = keccak256 L (message_preimage namespace (r_message self))"

definition UnavailableMessage_digest ::
  "('sk, 'pk, 'sig, 'agg) lib \<Rightarrow> 'sig UnavailableMessage \<Rightarrow> B256" where
  "UnavailableMessage_digest L self =
     keccak256 L (unavailable_preimage (um_msg_id self) (um_timestamp self))"

text \<open>
  \<^verbatim>\<open>UnavailableMessage::create_signed\<close> at clock reading \<open>clock\<close>; \<open>None\<close> is the panic of
  \<^verbatim>\<open>Timestamp::now\<close>.
\<close>

definition create_signed ::
  "('sk, 'pk, 'sig, 'agg) lib \<Rightarrow> int \<Rightarrow> B256 \<Rightarrow> 'sk \<Rightarrow> 'sig UnavailableMessage option" where
  "create_signed L clock msg_id secret_key =
     (case ts_now clock of
        None \<Rightarrow> None
      | Some timestamp \<Rightarrow>
          (let digest = keccak256 L (unavailable_preimage msg_id timestamp)
           in Some \<lparr>um_timestamp = timestamp, um_msg_id = msg_id,
                    um_signature = sign_with_prefix L secret_key digest\<rparr>))"

lemma Record_digest_eq:
  "Record_digest L r ns = Message_record_digest L (r_message r) ns (r_timestamp r)"
  by (simp add: Record_digest_def Message_record_digest_def)

lemma Record_message_digest_eq: "Record_message_digest L r ns = Message_digest L (r_message r) ns"
  by (simp add: Record_message_digest_def Message_digest_def)

lemma record_preimage_inject:
  "record_preimage ns t m = record_preimage ns t' m' \<longleftrightarrow> t = t' \<and> m = m'"
  by (auto simp: record_preimage_def Timestamp.expand Message.expand)

lemma message_preimage_inject: "message_preimage ns m = message_preimage ns m' \<longleftrightarrow> m = m'"
  by (auto simp: message_preimage_def Message.expand)

lemma unavailable_preimage_inject:
  "unavailable_preimage i t = unavailable_preimage i' t' \<longleftrightarrow> i = i' \<and> t = t'"
  by (auto simp: unavailable_preimage_def Timestamp.expand)

lemma create_signed_verifies:
  "bls_correct L \<Longrightarrow> create_signed L clock i sk = Some u \<Longrightarrow>
     um_msg_id u = i \<and>
     verify_signature L (um_signature u) (sk_to_pk L sk) (UnavailableMessage_digest L u)"
  by (auto simp: create_signed_def UnavailableMessage_digest_def split: option.splits)

lemma create_signed_Some: "0 \<le> clock \<Longrightarrow> \<exists>u. create_signed L clock i sk = Some u"
  using ts_now_Some [of clock] by (auto simp: create_signed_def)

section \<open>Certificates\<close>

text \<open>
  \<^verbatim>\<open>certified_timestamp(&mut self)\<close>: the median, and the certificate with its timestamps
  sorted in place. \<open>None\<close> is a panic.
\<close>

definition certified_timestamp ::
  "profile \<Rightarrow> 'agg CertifiedRecord \<Rightarrow> (Timestamp \<times> 'agg CertifiedRecord) option" where
  "certified_timestamp p self =
     (let self' = self\<lparr>cr_timestamps := sort (cr_timestamps self)\<rparr>
      in map_option (\<lambda>m. (m, self')) (median_timestamp p (cr_timestamps self)))"

definition certified_timestamp_unavailable ::
  "profile \<Rightarrow> 'agg CertifiedUnavailableMessage \<Rightarrow> (Timestamp \<times> 'agg CertifiedUnavailableMessage) option" where
  "certified_timestamp_unavailable p self =
     (let self' = self\<lparr>cu_timestamps := sort (cu_timestamps self)\<rparr>
      in map_option (\<lambda>m. (m, self')) (median_timestamp p (cu_timestamps self)))"

declare certified_timestamp_def [dato_defs] certified_timestamp_unavailable_def [dato_defs]

text \<open>
  \<^verbatim>\<open>from_records_unchecked\<close>: \<^verbatim>\<open>records[0]\<close> panics on an empty slice; a failing
  \<^verbatim>\<open>add_signature\<close> is ignored (\<^verbatim>\<open>let _ =\<close>).
\<close>

fun add_signatures_ignoring :: "('sk, 'pk, 'sig, 'agg) lib \<Rightarrow> 'agg \<Rightarrow> 'sig list \<Rightarrow> 'agg" where
  "add_signatures_ignoring L q [] = q"
| "add_signatures_ignoring L q (s # ss) =
     add_signatures_ignoring L
       (case agg_add_signature L q s False of Inl e \<Rightarrow> q | Inr q' \<Rightarrow> q') ss"

fun from_records_unchecked ::
  "('sk, 'pk, 'sig, 'agg) lib \<Rightarrow> 'sig Record list \<Rightarrow> 'agg CertifiedRecord option" where
  "from_records_unchecked L [] = None"
| "from_records_unchecked L (r # rs) =
     Some \<lparr>cr_timestamps = map r_timestamp (r # rs),
           cr_message = r_message r,
           cr_quorum_signature =
             add_signatures_ignoring L (agg_from_signature L (r_signature r)) (map r_signature rs)\<rparr>"

lemma add_signatures_ignoring_extend:
  "agg_extend L q ss = Some q' \<Longrightarrow> add_signatures_ignoring L q ss = q'"
  by (induction ss arbitrary: q) (auto split: sum.splits)

text \<open>Where aggregation cannot fail, ignoring its result loses nothing.\<close>

lemma from_records_unchecked_aggregate:
  assumes "agg_unchecked_total L" "rs \<noteq> []"
  shows "\<exists>q. aggregate L (map r_signature rs) = Some q \<and>
    from_records_unchecked L rs =
      Some \<lparr>cr_timestamps = map r_timestamp rs, cr_message = r_message (hd rs),
            cr_quorum_signature = q\<rparr>"
proof -
  obtain r rs' where rs: "rs = r # rs'" using assms(2) by (cases rs) auto
  obtain q where "aggregate L (map r_signature rs) = Some q"
    using aggregate_total [OF assms(1), of "map r_signature rs"] assms(2) by auto
  with rs show ?thesis by (auto dest: add_signatures_ignoring_extend)
qed

end
