(* ===== verification/Quorum.thy ===== *)
theory Quorum
  imports Common
begin

text \<open>
  \<^verbatim>\<open>has_reached_quorum\<close> of \<^verbatim>\<open>src/client/client.rs\<close>, on mathematical integers and at the
  width of \<^verbatim>\<open>usize\<close>, with what a quorum guarantees: two quorums share a validator, and the
  median of the pre-allocated timestamp array (zero for every validator that did not vote) is
  a timestamp between votes. Both fail for a network of exactly four validators.
\<close>

section \<open>The quorum test\<close>

definition has_reached_quorum :: "nat \<Rightarrow> nat \<Rightarrow> bool" where
  "has_reached_quorum total_validators votes =
     (if total_validators < 3 then votes = total_validators
      else votes \<ge> 2 * total_validators div 3)"

text \<open>The same function on \<^verbatim>\<open>usize\<close>, where \<^verbatim>\<open>2 * total_validators\<close> may wrap.\<close>

definition has_reached_quorum_usize :: "u64 \<Rightarrow> u64 \<Rightarrow> bool" where
  "has_reached_quorum_usize total_validators votes =
     (if total_validators < 3 then votes = total_validators
      else votes \<ge> 2 * total_validators div 3)"

text \<open>The least number of votes that is a quorum.\<close>

definition quorum_threshold :: "nat \<Rightarrow> nat" where
  "quorum_threshold n = (if n < 3 then n else 2 * n div 3)"

lemma has_reached_quorum_iff:
  "v \<le> n \<Longrightarrow> has_reached_quorum n v \<longleftrightarrow> quorum_threshold n \<le> v"
  by (auto simp: has_reached_quorum_def quorum_threshold_def)

lemma has_reached_quorum_threshold [simp]: "has_reached_quorum n (quorum_threshold n)"
  by (simp add: has_reached_quorum_def quorum_threshold_def)

lemma quorum_threshold_le: "quorum_threshold n \<le> n"
  by (auto simp: quorum_threshold_def)

lemma quorum_threshold_least: "has_reached_quorum n v \<Longrightarrow> quorum_threshold n \<le> v"
  by (auto simp: has_reached_quorum_def quorum_threshold_def split: if_splits)

lemma quorum_threshold_eq_0 [simp]: "quorum_threshold n = 0 \<longleftrightarrow> n = 0"
  by (auto simp: quorum_threshold_def)

lemma quorum_majority:
  assumes "n \<noteq> 0" "n \<noteq> 4"
  shows "n < 2 * quorum_threshold n"
  using assms by (cases "n < 3") (simp_all add: quorum_threshold_def, presburger)

text \<open>At most \<open>(n - 1) div 2\<close> validators are missing from a quorum.\<close>

lemma quorum_missing:
  assumes "n \<noteq> 0" "n \<noteq> 4" "has_reached_quorum n v"
  shows "n - v \<le> (n - 1) div 2"
  using quorum_majority [OF assms(1,2)] quorum_threshold_least [OF assms(3)] by linarith

lemma has_reached_quorum_usize_nat:
  assumes "unat n < 2 ^ 63"
  shows "has_reached_quorum_usize n v \<longleftrightarrow> has_reached_quorum (unat n) (unat v)"
proof -
  have "unat (2 * n) = 2 * unat n"
    using assms by (subst unat_mult_lem [THEN iffD1]) auto
  then have "unat (2 * n div 3) = 2 * unat n div 3"
    by (simp add: unat_div)
  moreover have "n < 3 \<longleftrightarrow> unat n < 3" by (simp add: word_less_nat_alt)
  ultimately show ?thesis
    by (simp add: has_reached_quorum_usize_def has_reached_quorum_def word_le_nat_alt
        word_unat_eq_iff)
qed

section \<open>The pre-allocated timestamp array\<close>

text \<open>
  \<^verbatim>\<open>vec![Timestamp::default(); n]\<close> after writing the timestamp of each vote at the index of
  its validator.
\<close>

definition vote_array :: "nat \<Rightarrow> (nat \<times> Timestamp) list \<Rightarrow> Timestamp list" where
  "vote_array n votes = write_all votes (replicate n ts_default)"

lemma length_vote_array [simp]: "length (vote_array n votes) = n"
  by (simp add: vote_array_def)

lemma vote_array_Nil [simp]: "vote_array n [] = replicate n ts_default"
  by (simp add: vote_array_def)

lemma vote_array_snoc: "vote_array n (votes @ [(i, t)]) = (vote_array n votes)[i := t]"
  by (simp add: vote_array_def)

lemma vote_array_nth:
  "distinct (map fst votes) \<Longrightarrow> (i, t) \<in> set votes \<Longrightarrow> i < n \<Longrightarrow> vote_array n votes ! i = t"
  by (simp add: vote_array_def write_all_nth)

lemma vote_array_nth_missing:
  "i \<notin> fst ` set votes \<Longrightarrow> i < n \<Longrightarrow> vote_array n votes ! i = ts_default"
  by (simp add: vote_array_def write_all_nth_other)

lemma votes_le:
  assumes "distinct (map fst votes)" "fst ` set votes \<subseteq> {..<n}"
  shows "length votes \<le> n"
proof -
  have "length votes = card (fst ` set votes)"
    using distinct_card [OF assms(1)] by simp
  also have "\<dots> \<le> n" using card_mono [OF _ assms(2)] by simp
  finally show ?thesis .
qed

lemma mset_vote_array:
  assumes "distinct (map fst votes)" "fst ` set votes \<subseteq> {..<n}"
  shows "mset (vote_array n votes) =
    mset (map snd votes) + replicate_mset (n - length votes) ts_default"
  using assms
proof (induction votes rule: rev_induct)
  case (snoc v votes)
  obtain i t where v: "v = (i, t)" by (cases v)
  with snoc.prems have i: "i < n" "i \<notin> fst ` set votes" and prems: "distinct (map fst votes)"
    "fst ` set votes \<subseteq> {..<n}" by auto
  have "length (votes @ [v]) \<le> n" using snoc.prems by (rule votes_le)
  then have rep: "replicate_mset (n - length votes) ts_default =
    add_mset ts_default (replicate_mset (n - length (votes @ [v])) ts_default)"
    by (metis Suc_diff_le diff_Suc_Suc length_append_singleton replicate_mset_Suc)
  show ?case
    using snoc.IH [OF prems] i v rep
    by (simp add: vote_array_snoc mset_update vote_array_nth_missing)
qed simp

lemma vote_array_below:
  assumes "distinct (map fst votes)" "fst ` set votes \<subseteq> {..<n}"
  shows "length (filter (\<lambda>t. t < lo) (vote_array n votes)) \<le>
    (n - length votes) + length (filter (\<lambda>v. snd v < lo) votes)"
  by (simp only: length_filter_mset [of _ "vote_array n votes"] mset_vote_array [OF assms]
      filter_union_mset size_union size_filter_mset_map size_filter_replicate_mset) simp

lemma vote_array_above:
  assumes "distinct (map fst votes)" "fst ` set votes \<subseteq> {..<n}"
  shows "length (filter (\<lambda>t. hi < t) (vote_array n votes)) = length (filter (\<lambda>v. hi < snd v) votes)"
proof -
  have "\<not> hi < ts_default" by (simp add: leD)
  then show ?thesis
    by (simp only: length_filter_mset [of _ "vote_array n votes"] mset_vote_array [OF assms]
        filter_union_mset size_union size_filter_mset_map size_filter_replicate_mset) simp
qed

section \<open>The certified timestamp of a quorum\<close>

text \<open>
  Robustness of the median: \<open>low\<close> votes below \<open>lo\<close> are tolerated as long as together with the
  missing validators they are at most \<open>(n - 1) div 2\<close>; \<open>high\<close> votes above \<open>hi\<close> as long as
  they are fewer than half.
\<close>

lemma median_vote_array:
  assumes dist: "distinct (map fst votes)" and idx: "fst ` set votes \<subseteq> {..<n}" and n: "n \<noteq> 0"
    and low: "(n - length votes) + length (filter (\<lambda>v. snd v < lo) votes) \<le> (n - 1) div 2"
    and high: "length (filter (\<lambda>v. hi < snd v) votes) + n div 2 < n"
    and hi: "ts_nat hi < 2 ^ 127"
  shows "\<exists>m. median_timestamp p (vote_array n votes) = Some m \<and> lo \<le> m \<and> m \<le> hi"
proof -
  let ?ts = "vote_array n votes"
  have ne: "?ts \<noteq> []" using n by (metis length_0_conv length_vote_array)
  have above: "length (filter (\<lambda>t. hi < t) ?ts) + length ?ts div 2 < length ?ts"
    using high by (simp add: vote_array_above [OF dist idx])
  have below: "length (filter (\<lambda>t. t < lo) ?ts) \<le> (length ?ts - 1) div 2"
    using vote_array_below [OF dist idx, of lo] low by simp
  obtain m where m: "median_timestamp p ?ts = Some m"
    using median_timestamp_total [OF ne above hi] by blast
  show ?thesis
    using m median_timestamp_le [OF m above] median_timestamp_ge [OF m ne below above hi] by blast
qed

lemma median_quorum_range:
  assumes "distinct (map fst votes)" "fst ` set votes \<subseteq> {..<n}"
    and n: "n \<noteq> 0" "n \<noteq> 4" and q: "has_reached_quorum n (length votes)"
    and range: "\<forall>v\<in>set votes. lo \<le> snd v \<and> snd v \<le> hi" and hi: "ts_nat hi < 2 ^ 127"
  shows "\<exists>m. median_timestamp p (vote_array n votes) = Some m \<and> lo \<le> m \<and> m \<le> hi"
proof (rule median_vote_array [OF assms(1,2) n(1) _ _ hi])
  have low: "filter (\<lambda>v. snd v < lo) votes = []" and high: "filter (\<lambda>v. hi < snd v) votes = []"
    using range by (auto simp: filter_empty_conv leD)
  show "(n - length votes) + length (filter (\<lambda>v. snd v < lo) votes) \<le> (n - 1) div 2"
    using quorum_missing [OF n q] low by simp
  show "length (filter (\<lambda>v. hi < snd v) votes) + n div 2 < n"
    using high n by simp
qed

end
