(* ===== verification/Wire.thy ===== *)
theory Wire
  imports Quorum
begin

text \<open>
  The protocol messages of \<^verbatim>\<open>src/primitives/mod.rs\<close> and their JSON encoding. The encoder is
  \<^verbatim>\<open>serde_json\<close> (third-party), so the record \<open>json\<close> holds its functions as parameters, passed
  to every definition as \<open>J\<close>: \<open>to_vec\<close> may fail (\<open>None\<close>), \<open>from_slice\<close> fails on bytes that
  do not parse. What the protocol relies on is \<open>json_faithful\<close>: encoding succeeds and decodes
  to the encoded value. The last section gives a concrete codec that satisfies it.
\<close>

section \<open>Requests\<close>

datatype Request =
    Write Namespace Message
  | ReadRange Namespace Timestamp Timestamp
  | ReadMessage Namespace B256
  | Subscribe Namespace

record 'sig json =
  request_to_vec :: "Request \<Rightarrow> bytes option"
  request_from_slice :: "bytes \<Rightarrow> Request option"
  record_to_vec :: "'sig Record \<Rightarrow> bytes option"
  record_from_slice :: "bytes \<Rightarrow> 'sig Record option"
  log_to_vec :: "'sig Log \<Rightarrow> bytes option"
  log_from_slice :: "bytes \<Rightarrow> 'sig Log option"
  message_response_to_vec :: "'sig ReadMessageResponse \<Rightarrow> bytes option"
  message_response_from_slice :: "bytes \<Rightarrow> 'sig ReadMessageResponse option"
  subscribe_response_to_vec :: "SubscribeResponse \<Rightarrow> bytes option"
  subscribe_response_from_slice :: "bytes \<Rightarrow> SubscribeResponse option"

definition codec :: "('a \<Rightarrow> bytes option) \<Rightarrow> (bytes \<Rightarrow> 'a option) \<Rightarrow> bool" where
  "codec enc dec \<longleftrightarrow> (\<forall>x. \<exists>bs. enc x = Some bs \<and> dec bs = Some x)"

definition json_faithful :: "'sig json \<Rightarrow> bool" where
  "json_faithful J \<longleftrightarrow>
     codec (request_to_vec J) (request_from_slice J) \<and>
     codec (record_to_vec J) (record_from_slice J) \<and>
     codec (log_to_vec J) (log_from_slice J) \<and>
     codec (message_response_to_vec J) (message_response_from_slice J) \<and>
     codec (subscribe_response_to_vec J) (subscribe_response_from_slice J)"

lemma codecD: "codec enc dec \<Longrightarrow> \<exists>bs. enc x = Some bs \<and> dec bs = Some x"
  by (simp add: codec_def)

lemma json_faithfulD:
  assumes "json_faithful J"
  shows "codec (request_to_vec J) (request_from_slice J)"
    "codec (record_to_vec J) (record_from_slice J)"
    "codec (log_to_vec J) (log_from_slice J)"
    "codec (message_response_to_vec J) (message_response_from_slice J)"
    "codec (subscribe_response_to_vec J) (subscribe_response_from_slice J)"
  using assms by (simp_all add: json_faithful_def)

text \<open>\<^verbatim>\<open>Request::serialize\<close>: the \<^verbatim>\<open>unwrap\<close> panics (\<open>None\<close>) when encoding fails.\<close>

definition Request_serialize :: "'sig json \<Rightarrow> Request \<Rightarrow> bytes option" where
  "Request_serialize J self = request_to_vec J self"

declare Request_serialize_def [dato_defs]

text \<open>\<^verbatim>\<open>impl From<Bytes> for Message\<close>.\<close>

definition Message_from_bytes :: "bytes \<Rightarrow> Message" where
  "Message_from_bytes bs = Message bs"

section \<open>A codec for examples\<close>

text \<open>A byte string behind its length in unary, and the inverse.\<close>

definition pack :: "bytes \<Rightarrow> bytes" where
  "pack bs = replicate (length bs) 1 @ 0 # bs"

definition unpack :: "bytes \<Rightarrow> bytes \<times> bytes" where
  "unpack s = (let k = length (takeWhile (\<lambda>b. b \<noteq> 0) s); r = drop (Suc k) s in (take k r, drop k r))"

lemma unpack_pack [simp]: "unpack (pack bs @ s) = (bs, s)"
proof -
  have "takeWhile (\<lambda>b. b \<noteq> 0) (replicate k (1::byte) @ 0 # r) = replicate k 1" for k r
    by (induction k) auto
  then show ?thesis by (simp add: pack_def unpack_def Let_def)
qed

definition pack_record :: "toy_sig Record \<Rightarrow> bytes" where
  "pack_record r =
     pack (to_le_bytes (ts_value (r_timestamp r))) @ pack (msg_bytes (r_message r))
     @ pack (replicate (fst (r_signature r)) 1) @ pack (snd (r_signature r))"

definition unpack_record :: "bytes \<Rightarrow> toy_sig Record \<times> bytes" where
  "unpack_record s =
     (let (t, s) = unpack s; (m, s) = unpack s; (k, s) = unpack s; (d, s) = unpack s
      in (\<lparr>r_timestamp = Timestamp (from_le_bytes t), r_message = Message m,
           r_signature = (length k, d)\<rparr>, s))"

lemma unpack_pack_record [simp]: "unpack_record (pack_record r @ s) = (r, s)"
  by (simp add: unpack_record_def pack_record_def Let_def le_bytes_roundtrip)

fun unpack_records :: "nat \<Rightarrow> bytes \<Rightarrow> toy_sig Record list" where
  "unpack_records 0 s = []"
| "unpack_records (Suc n) s = (let (r, s') = unpack_record s in r # unpack_records n s')"

lemma unpack_pack_records:
  "unpack_records (length rs) (concat (map pack_record rs)) = rs"
  by (induction rs) auto

definition toy_log_to_vec :: "toy_sig Log \<Rightarrow> bytes option" where
  "toy_log_to_vec l =
     Some (pack (replicate (length (log_records l)) 1) @ concat (map pack_record (log_records l)))"

definition toy_log_from_slice :: "bytes \<Rightarrow> toy_sig Log option" where
  "toy_log_from_slice s =
     (let (n, s') = unpack s in Some \<lparr>log_records = unpack_records (length n) s'\<rparr>)"

fun toy_request_to_vec :: "Request \<Rightarrow> bytes option" where
  "toy_request_to_vec (Write ns m) = Some (1 # pack ns @ msg_bytes m)"
| "toy_request_to_vec (ReadRange ns a b) =
     Some (2 # pack (to_le_bytes (ts_value a)) @ pack (to_le_bytes (ts_value b)) @ ns)"
| "toy_request_to_vec (ReadMessage ns i) = Some (3 # pack ns @ i)"
| "toy_request_to_vec (Subscribe ns) = Some (4 # ns)"

fun toy_request_from_slice :: "bytes \<Rightarrow> Request option" where
  "toy_request_from_slice [] = None"
| "toy_request_from_slice (k # s) =
     (if k = 1 then (let (ns, m) = unpack s in Some (Write ns (Message m)))
      else if k = 2 then
        (let (a, s) = unpack s; (b, ns) = unpack s
         in Some (ReadRange ns (Timestamp (from_le_bytes a)) (Timestamp (from_le_bytes b))))
      else if k = 3 then (let (ns, i) = unpack s in Some (ReadMessage ns i))
      else if k = 4 then Some (Subscribe s)
      else None)"

fun toy_message_response_to_vec :: "toy_sig ReadMessageResponse \<Rightarrow> bytes option" where
  "toy_message_response_to_vec (Available r) = Some (1 # pack_record r)"
| "toy_message_response_to_vec (Unavailable u) =
     Some (2 # pack_record \<lparr>r_timestamp = um_timestamp u, r_message = Message (um_msg_id u),
       r_signature = um_signature u\<rparr>)"

fun toy_message_response_from_slice :: "bytes \<Rightarrow> toy_sig ReadMessageResponse option" where
  "toy_message_response_from_slice [] = None"
| "toy_message_response_from_slice (k # s) =
     (let (r, s') = unpack_record s in
      if k = 1 then Some (Available r)
      else if k = 2 then
        Some (Unavailable \<lparr>um_timestamp = r_timestamp r, um_msg_id = msg_bytes (r_message r),
          um_signature = r_signature r\<rparr>)
      else None)"

definition toy_json :: "toy_sig json" where
  "toy_json = \<lparr>
     request_to_vec = toy_request_to_vec,
     request_from_slice = toy_request_from_slice,
     record_to_vec = (\<lambda>r. Some (pack_record r)),
     record_from_slice = (\<lambda>s. if s = [] then None else Some (fst (unpack_record s))),
     log_to_vec = toy_log_to_vec,
     log_from_slice = toy_log_from_slice,
     message_response_to_vec = toy_message_response_to_vec,
     message_response_from_slice = toy_message_response_from_slice,
     subscribe_response_to_vec = (\<lambda>r. Some (pack (replicate (unat (sr_port r)) 1) @ sr_auth_token r)),
     subscribe_response_from_slice =
       (\<lambda>s. let (p, t) = unpack s in Some \<lparr>sr_port = of_nat (length p), sr_auth_token = t\<rparr>) \<rparr>"

lemma toy_request_codec: "codec toy_request_to_vec toy_request_from_slice"
proof -
  have "\<exists>bs. toy_request_to_vec x = Some bs \<and> toy_request_from_slice bs = Some x" for x
    by (cases x) (auto simp: Let_def le_bytes_roundtrip)
  then show ?thesis by (simp add: codec_def)
qed

lemma pack_record_neq_Nil [simp]: "pack_record r \<noteq> []"
  by (simp add: pack_record_def pack_def)

lemma unpack_pack_record_Nil [simp]: "unpack_record (pack_record r) = (r, [])"
  using unpack_pack_record [of r "[]"] by simp

lemma toy_message_response_codec:
  "codec toy_message_response_to_vec toy_message_response_from_slice"
proof -
  have "\<exists>bs. toy_message_response_to_vec x = Some bs \<and> toy_message_response_from_slice bs = Some x" for x
    by (cases x) auto
  then show ?thesis by (simp add: codec_def)
qed

lemma toy_json_faithful: "json_faithful toy_json"
  unfolding json_faithful_def
proof (intro conjI)
  show "codec (request_to_vec toy_json) (request_from_slice toy_json)"
    by (simp add: toy_json_def toy_request_codec)
  show "codec (record_to_vec toy_json) (record_from_slice toy_json)"
    by (simp add: toy_json_def codec_def)
  show "codec (log_to_vec toy_json) (log_from_slice toy_json)"
    by (simp add: toy_json_def codec_def toy_log_to_vec_def toy_log_from_slice_def
        unpack_pack_records)
  show "codec (message_response_to_vec toy_json) (message_response_from_slice toy_json)"
    by (simp add: toy_json_def toy_message_response_codec)
  show "codec (subscribe_response_to_vec toy_json) (subscribe_response_from_slice toy_json)"
    by (simp add: toy_json_def codec_def)
qed

end
