(* ===== verification/Fifo.thy ===== *)
theory Fifo
  imports Wire "HOL-Library.AList"
begin

text \<open>
  The map the program keeps its records in: \<^verbatim>\<open>hashmore::FIFOMap\<close>, a hash map of bounded
  capacity that evicts its oldest entry when it is full. The crate is third-party, so the
  record \<open>fifo\<close> holds its functions as parameters, passed to the definitions as \<open>F\<close>, and
  \<open>fifo_laws\<close> is what the program relies on. \<open>fifo_ok\<close> is the representation invariant of
  the Rust type and \<open>fifo_capacity\<close> its bound: both occur in the laws only. What happens to
  the age of a key that is inserted again is left open.
\<close>

record ('k, 'v, 'm) fifo =
  fifo_with_capacity :: "nat \<Rightarrow> 'm"
  fifo_insert :: "'m \<Rightarrow> 'k \<Rightarrow> 'v \<Rightarrow> 'm"
  fifo_get :: "'m \<Rightarrow> 'k \<Rightarrow> 'v option"
  fifo_update :: "'m \<Rightarrow> 'k \<Rightarrow> ('v \<Rightarrow> 'v) \<Rightarrow> 'm"
  fifo_iter :: "'m \<Rightarrow> ('k \<times> 'v) list"
  fifo_ok :: "'m \<Rightarrow> bool"
  fifo_capacity :: "'m \<Rightarrow> nat"

text \<open>\<^verbatim>\<open>values()\<close>, and a write through \<^verbatim>\<open>get_mut\<close> is \<open>fifo_update\<close>.\<close>

definition fifo_values :: "('k, 'v, 'm) fifo \<Rightarrow> 'm \<Rightarrow> 'v list" where
  "fifo_values F m = map snd (fifo_iter F m)"

definition fifo_inserts :: "('k, 'v, 'm) fifo \<Rightarrow> ('k \<times> 'v) list \<Rightarrow> 'm \<Rightarrow> 'm" where
  "fifo_inserts F kvs m = fold (\<lambda>(k, v) m. fifo_insert F m k v) kvs m"

text \<open>The empty map has the capacity it was created with.\<close>

definition fifo_new_law :: "('k, 'v, 'm) fifo \<Rightarrow> bool" where
  "fifo_new_law F \<longleftrightarrow>
     (\<forall>c. fifo_ok F (fifo_with_capacity F c) \<and> fifo_capacity F (fifo_with_capacity F c) = c \<and>
        (\<forall>k. fifo_get F (fifo_with_capacity F c) k = None))"

text \<open>
  Insertion keeps the type's invariant and the capacity; the entry just inserted is there; no
  other entry is changed, and none is lost below capacity.
\<close>

definition fifo_insert_law :: "('k, 'v, 'm) fifo \<Rightarrow> bool" where
  "fifo_insert_law F \<longleftrightarrow>
     (\<forall>m k v. fifo_ok F m \<longrightarrow>
        fifo_ok F (fifo_insert F m k v) \<and>
        fifo_capacity F (fifo_insert F m k v) = fifo_capacity F m \<and>
        (0 < fifo_capacity F m \<longrightarrow> fifo_get F (fifo_insert F m k v) k = Some v) \<and>
        (\<forall>k' w. k' \<noteq> k \<longrightarrow> fifo_get F (fifo_insert F m k v) k' = Some w \<longrightarrow>
           fifo_get F m k' = Some w) \<and>
        (\<forall>k'. k' \<noteq> k \<longrightarrow> length (fifo_iter F m) < fifo_capacity F m \<longrightarrow>
           fifo_get F (fifo_insert F m k v) k' = fifo_get F m k'))"

text \<open>There are at most \<open>capacity\<close> entries, and iteration lists each once.\<close>

definition fifo_iter_law :: "('k, 'v, 'm) fifo \<Rightarrow> bool" where
  "fifo_iter_law F \<longleftrightarrow>
     (\<forall>m. fifo_ok F m \<longrightarrow>
        length (fifo_iter F m) \<le> fifo_capacity F m \<and>
        distinct (map fst (fifo_iter F m)) \<and>
        (\<forall>k v. (k, v) \<in> set (fifo_iter F m) \<longleftrightarrow> fifo_get F m k = Some v))"

text \<open>A write through \<^verbatim>\<open>get_mut\<close> changes the one value and nothing else.\<close>

definition fifo_update_law :: "('k, 'v, 'm) fifo \<Rightarrow> bool" where
  "fifo_update_law F \<longleftrightarrow>
     (\<forall>m k f. fifo_ok F m \<longrightarrow>
        fifo_ok F (fifo_update F m k f) \<and>
        fifo_capacity F (fifo_update F m k f) = fifo_capacity F m \<and>
        (\<forall>k'. fifo_get F (fifo_update F m k f) k' =
           (if k' = k then map_option f (fifo_get F m k) else fifo_get F m k')))"

text \<open>Of distinct keys the last \<open>capacity\<close> inserted are the ones kept: first in, first out.\<close>

definition fifo_order_law :: "('k, 'v, 'm) fifo \<Rightarrow> bool" where
  "fifo_order_law F \<longleftrightarrow>
     (\<forall>c kvs i. distinct (map fst kvs) \<longrightarrow> i < length kvs \<longrightarrow>
        fifo_get F (fifo_inserts F kvs (fifo_with_capacity F c)) (fst (kvs ! i)) =
          (if length kvs \<le> i + c then Some (snd (kvs ! i)) else None))"

definition fifo_laws :: "('k, 'v, 'm) fifo \<Rightarrow> bool" where
  "fifo_laws F \<longleftrightarrow>
     fifo_new_law F \<and> fifo_insert_law F \<and> fifo_iter_law F \<and> fifo_update_law F \<and> fifo_order_law F"

lemma fifo_new:
  assumes "fifo_laws F"
  shows "fifo_ok F (fifo_with_capacity F c)" "fifo_capacity F (fifo_with_capacity F c) = c"
    "fifo_get F (fifo_with_capacity F c) k = None"
  using assms by (simp_all add: fifo_laws_def fifo_new_law_def)

lemma fifo_inserted:
  assumes "fifo_laws F" "fifo_ok F m"
  shows "fifo_ok F (fifo_insert F m k v)"
    and "fifo_capacity F (fifo_insert F m k v) = fifo_capacity F m"
    and "0 < fifo_capacity F m \<Longrightarrow> fifo_get F (fifo_insert F m k v) k = Some v"
    and "k' \<noteq> k \<Longrightarrow> fifo_get F (fifo_insert F m k v) k' = Some w \<Longrightarrow> fifo_get F m k' = Some w"
    and "k' \<noteq> k \<Longrightarrow> length (fifo_iter F m) < fifo_capacity F m \<Longrightarrow>
      fifo_get F (fifo_insert F m k v) k' = fifo_get F m k'"
  using assms unfolding fifo_laws_def fifo_insert_law_def by blast+

lemma fifo_entries:
  assumes "fifo_laws F" "fifo_ok F m"
  shows "length (fifo_iter F m) \<le> fifo_capacity F m" "distinct (map fst (fifo_iter F m))"
    "(k, v) \<in> set (fifo_iter F m) \<longleftrightarrow> fifo_get F m k = Some v"
  using assms unfolding fifo_laws_def fifo_iter_law_def by blast+

lemma fifo_updated:
  assumes "fifo_laws F" "fifo_ok F m"
  shows "fifo_ok F (fifo_update F m k f)"
    "fifo_capacity F (fifo_update F m k f) = fifo_capacity F m"
    "fifo_get F (fifo_update F m k f) k' =
       (if k' = k then map_option f (fifo_get F m k) else fifo_get F m k')"
  using assms unfolding fifo_laws_def fifo_update_law_def by blast+

lemma fifo_last_kept:
  assumes "fifo_laws F" "distinct (map fst kvs)" "i < length kvs"
  shows "fifo_get F (fifo_inserts F kvs (fifo_with_capacity F c)) (fst (kvs ! i)) =
    (if length kvs \<le> i + c then Some (snd (kvs ! i)) else None)"
  using assms by (simp add: fifo_laws_def fifo_order_law_def)

text \<open>Searching the entries for a key is \<^verbatim>\<open>get\<close>.\<close>

lemma fifo_find:
  assumes "fifo_laws F" "fifo_ok F m"
  shows "map_option snd (find (\<lambda>e. fst e = k) (fifo_iter F m)) = fifo_get F m k"
proof (cases "find (\<lambda>e. fst e = k) (fifo_iter F m)")
  case None
  then have "\<forall>v. (k, v) \<notin> set (fifo_iter F m)" by (auto simp: find_None_iff)
  then have "fifo_get F m k = None"
    using fifo_entries(3) [OF assms, of k] by (cases "fifo_get F m k") auto
  with None show ?thesis by simp
next
  case (Some e)
  then have "e \<in> set (fifo_iter F m)" "fst e = k" by (auto simp: find_Some_iff)
  then have "fifo_get F m k = Some (snd e)"
    using fifo_entries(3) [OF assms, of k "snd e"] by (cases e) auto
  with Some show ?thesis by simp
qed

lemma fifo_values_iff:
  assumes "fifo_laws F" "fifo_ok F m"
  shows "v \<in> set (fifo_values F m) \<longleftrightarrow> (\<exists>k. fifo_get F m k = Some v)"
  using fifo_entries(3) [OF assms] by (force simp: fifo_values_def)

section \<open>A queue that satisfies the laws\<close>

text \<open>For examples: the capacity and the entries, oldest first.\<close>

fun queue_insert :: "nat \<times> ('k \<times> 'v) list \<Rightarrow> 'k \<Rightarrow> 'v \<Rightarrow> nat \<times> ('k \<times> 'v) list" where
  "queue_insert (c, q) k v =
     (if k \<in> fst ` set q then (c, AList.update k v q)
      else (let q' = q @ [(k, v)] in (c, drop (length q' - c) q')))"

definition queue_fifo :: "('k, 'v, nat \<times> ('k \<times> 'v) list) fifo" where
  "queue_fifo = \<lparr>
     fifo_with_capacity = (\<lambda>c. (c, [])),
     fifo_insert = queue_insert,
     fifo_get = (\<lambda>(c, q). map_of q),
     fifo_update = (\<lambda>(c, q) k f. (c, map (\<lambda>(k', v). (k', if k' = k then f v else v)) q)),
     fifo_iter = snd,
     fifo_ok = (\<lambda>(c, q). distinct (map fst q) \<and> length q \<le> c),
     fifo_capacity = fst \<rparr>"

lemma map_of_drop_distinct:
  assumes "distinct (map fst q)"
  shows "map_of (drop n q) k \<in> {None, map_of q k}"
proof (cases "map_of (drop n q) k")
  case (Some v)
  then have "(k, v) \<in> set q" by (auto dest: map_of_SomeD in_set_dropD)
  with assms have "map_of q k = Some v" by simp
  with Some show ?thesis by simp
qed simp

lemma queue_insert_fresh:
  assumes "k \<notin> fst ` set q" "distinct (map fst q)" "length q \<le> c"
  shows "distinct (map fst (drop (Suc (length q) - c) (q @ [(k, v)])))"
    "length (drop (Suc (length q) - c) (q @ [(k, v)])) \<le> c"
    "0 < c \<Longrightarrow> map_of (drop (Suc (length q) - c) (q @ [(k, v)])) k = Some v"
    "k' \<noteq> k \<Longrightarrow> map_of (drop (Suc (length q) - c) (q @ [(k, v)])) k' \<in> {None, map_of q k'}"
    "k' \<noteq> k \<Longrightarrow> length q < c \<Longrightarrow> map_of (drop (Suc (length q) - c) (q @ [(k, v)])) k' = map_of q k'"
proof -
  let ?q = "q @ [(k, v)]"
  have d: "distinct (map fst ?q)" using assms by auto
  then show dd: "distinct (map fst (drop (Suc (length q) - c) ?q))"
    by (metis distinct_drop drop_map)
  show "length (drop (Suc (length q) - c) ?q) \<le> c" using assms by simp
  show "0 < c \<Longrightarrow> map_of (drop (Suc (length q) - c) ?q) k = Some v"
  proof -
    assume "0 < c"
    then have "drop (Suc (length q) - c) ?q = drop (Suc (length q) - c) q @ [(k, v)]"
      using assms(3) by simp
    then have "(k, v) \<in> set (drop (Suc (length q) - c) ?q)" by simp
    with dd show ?thesis by (rule map_of_is_SomeI)
  qed
  have other: "map_of ?q k' = map_of q k'" if "k' \<noteq> k" for k'
    using that by (simp add: map_of_append map_add_def split: option.split)
  show "k' \<noteq> k \<Longrightarrow> map_of (drop (Suc (length q) - c) ?q) k' \<in> {None, map_of q k'}"
    using map_of_drop_distinct [OF d, of "Suc (length q) - c" k'] other by simp
  show "k' \<noteq> k \<Longrightarrow> length q < c \<Longrightarrow> map_of (drop (Suc (length q) - c) ?q) k' = map_of q k'"
    using other by simp
qed

lemma length_update_present: "k \<in> fst ` set q \<Longrightarrow> length (AList.update k v q) = length q"
  by (induction q) auto

lemma queue_inserts:
  assumes "distinct (map fst kvs)"
  shows "fifo_inserts queue_fifo kvs (c, []) = (c, drop (length kvs - c) kvs)"
  using assms
proof (induction kvs rule: rev_induct)
  case (snoc kv kvs)
  obtain k v where kv: "kv = (k, v)" by (cases kv)
  from snoc.prems kv have fresh: "k \<notin> fst ` set (drop (length kvs - c) kvs)"
    by (auto dest: in_set_dropD)
  have IH: "fold (\<lambda>(k, v) m. fifo_insert queue_fifo m k v) kvs (c, []) = (c, drop (length kvs - c) kvs)"
    using snoc by (simp add: fifo_inserts_def)
  have "fifo_inserts queue_fifo (kvs @ [kv]) (c, []) =
    fifo_insert queue_fifo (c, drop (length kvs - c) kvs) k v"
    by (simp add: fifo_inserts_def IH kv)
  also have "\<dots> = (c, drop (Suc (length (drop (length kvs - c) kvs)) - c)
      (drop (length kvs - c) kvs @ [(k, v)]))"
    using fresh by (simp add: queue_fifo_def Let_def)
  also have "\<dots> = (c, drop (length (kvs @ [kv]) - c) (kvs @ [kv]))"
    by (cases "length kvs < c"; cases "c = 0") (auto simp: kv Suc_diff_le drop_Suc tl_drop)
  finally show ?case .
qed (simp add: fifo_inserts_def)

text \<open>Of an association list with different keys, the last \<open>c\<close> entries hold exactly the last keys.\<close>

lemma map_of_last:
  assumes d: "distinct (map fst kvs)" and i: "i < length kvs"
  shows "map_of (drop (length kvs - c) kvs) (fst (kvs ! i)) =
    (if length kvs \<le> i + c then Some (snd (kvs ! i)) else None)"
proof (cases "length kvs \<le> i + c")
  case True
  have dd: "distinct (map fst (drop (length kvs - c) kvs))" using d by (metis distinct_drop drop_map)
  have "kvs ! i = drop (length kvs - c) kvs ! (i - (length kvs - c))" using True i by simp
  also have "\<dots> \<in> set (drop (length kvs - c) kvs)" using True i by (intro nth_mem) simp
  finally show ?thesis using dd True by simp
next
  case False
  have "fst (kvs ! i) \<notin> fst ` set (drop (length kvs - c) kvs)"
  proof
    assume "fst (kvs ! i) \<in> fst ` set (drop (length kvs - c) kvs)"
    then obtain e where e: "e \<in> set (drop (length kvs - c) kvs)" "fst (kvs ! i) = fst e" by auto
    then obtain j' where j': "j' < length (drop (length kvs - c) kvs)"
      "drop (length kvs - c) kvs ! j' = e" by (auto simp: in_set_conv_nth)
    define j where "j = length kvs - c + j'"
    have j: "length kvs - c \<le> j" "j < length kvs" "fst (kvs ! i) = fst (kvs ! j)"
      using j' e(2) by (simp_all add: j_def)
    then have "i = j" using d i by (metis distinct_conv_nth length_map nth_map)
    with j False show False by simp
  qed
  with False show ?thesis by (simp add: map_of_eq_None_iff)
qed

lemma queue_fifo_laws: "fifo_laws (queue_fifo :: ('k, 'v, nat \<times> ('k \<times> 'v) list) fifo)"
  (is "fifo_laws ?F")
  unfolding fifo_laws_def fifo_new_law_def fifo_insert_law_def fifo_iter_law_def
    fifo_update_law_def fifo_order_law_def
proof (intro conjI allI impI)
  fix m :: "nat \<times> ('k \<times> 'v) list" and k k' :: 'k and v :: 'v
  assume ok: "fifo_ok ?F m"
  obtain c q where m: "m = (c, q)" by (cases m)
  with ok have q: "distinct (map fst q)" "length q \<le> c" by (auto simp: queue_fifo_def)
  note fresh = queue_insert_fresh [OF _ q]
  show "fifo_ok ?F (fifo_insert ?F m k v)"
    using q fresh(1,2) [of k v] by (auto simp: m queue_fifo_def Let_def distinct_update length_update_present)
  show "fifo_capacity ?F (fifo_insert ?F m k v) = fifo_capacity ?F m"
    by (simp add: m queue_fifo_def Let_def)
  show "fifo_get ?F (fifo_insert ?F m k v) k = Some v" if "0 < fifo_capacity ?F m"
    using that fresh(3) [of k v] by (auto simp: m queue_fifo_def Let_def update_conv)
  show "fifo_get ?F m k' = Some w" if "k' \<noteq> k" "fifo_get ?F (fifo_insert ?F m k v) k' = Some w" for w
    using that fresh(4) [of k k' v] by (auto simp: m queue_fifo_def Let_def update_conv split: if_splits)
  show "fifo_get ?F (fifo_insert ?F m k v) k' = fifo_get ?F m k'"
    if "k' \<noteq> k" "length (fifo_iter ?F m) < fifo_capacity ?F m"
    using that fresh(5) [of k k' v] by (auto simp: m queue_fifo_def Let_def update_conv)
next
  fix m :: "nat \<times> ('k \<times> 'v) list" and k :: 'k and v :: 'v
  assume "fifo_ok ?F m"
  then show "length (fifo_iter ?F m) \<le> fifo_capacity ?F m" "distinct (map fst (fifo_iter ?F m))"
    "(k, v) \<in> set (fifo_iter ?F m) \<longleftrightarrow> fifo_get ?F m k = Some v"
    by (cases m; simp add: queue_fifo_def)+
next
  fix m :: "nat \<times> ('k \<times> 'v) list" and k k' :: 'k and f :: "'v \<Rightarrow> 'v"
  assume ok: "fifo_ok ?F m"
  obtain c q where m: "m = (c, q)" by (cases m)
  have keys: "map fst (map (\<lambda>(k', v). (k', if k' = k then f v else v)) q) = map fst q"
    by (auto simp: comp_def)
  show "fifo_ok ?F (fifo_update ?F m k f)" using ok keys by (simp add: m queue_fifo_def del: map_map)
  show "fifo_capacity ?F (fifo_update ?F m k f) = fifo_capacity ?F m"
    by (simp add: m queue_fifo_def)
  show "fifo_get ?F (fifo_update ?F m k f) k' =
    (if k' = k then map_option f (fifo_get ?F m k) else fifo_get ?F m k')"
    by (simp add: m queue_fifo_def) (induction q; auto)
next
  fix c i and kvs :: "('k \<times> 'v) list"
  assume d: "distinct (map fst kvs)" and i: "i < length kvs"
  have get: "fifo_get ?F (fifo_inserts ?F kvs (fifo_with_capacity ?F c)) k =
    map_of (drop (length kvs - c) kvs) k" for k
    using queue_inserts [OF d, of c] by (simp add: queue_fifo_def)
  show "fifo_get ?F (fifo_inserts ?F kvs (fifo_with_capacity ?F c)) (fst (kvs ! i)) =
    (if length kvs \<le> i + c then Some (snd (kvs ! i)) else None)"
    unfolding get by (rule map_of_last [OF d i])
qed (simp_all add: queue_fifo_def)

end
