(* ===== verification/Store.thy ===== *)
theory Store
  imports Fifo
begin

text \<open>
  The validator's data store, \<^verbatim>\<open>src/validator/store.rs\<close>: the trait \<^verbatim>\<open>DataStore\<close> as a record
  of operations and its contract as the locale \<open>data_store\<close>; the \<^verbatim>\<open>InMemoryStore\<close>, one
  bounded FIFO map per namespace, keyed by message digest; and the proof that it meets the
  contract.
\<close>

section \<open>The trait and its contract\<close>

record ('s, 'sig) DataStore =
  ds_read_range :: "'s \<Rightarrow> Namespace \<Rightarrow> Timestamp \<Rightarrow> Timestamp \<Rightarrow> 'sig Log"
  ds_read_message :: "'s \<Rightarrow> Namespace \<Rightarrow> B256 \<Rightarrow> 'sig Record option"
  ds_write_one :: "'s \<Rightarrow> Namespace \<Rightarrow> 'sig Record \<Rightarrow> 's"

text \<open>Writing a list of records, in order.\<close>

definition ds_writes ::
  "('s, 'sig) DataStore \<Rightarrow> (Namespace \<times> 'sig Record) list \<Rightarrow> 's \<Rightarrow> 's" where
  "ds_writes D ws s = fold (\<lambda>(ns, r) s. ds_write_one D s ns r) ws s"

lemma ds_writes_simps [simp]:
  "ds_writes D [] s = s"
  "ds_writes D ((ns, r) # ws) s = ds_writes D ws (ds_write_one D s ns r)"
  by (simp_all add: ds_writes_def)

text \<open>
  The contract. \<open>content s ns\<close> is the set of records a state holds for a namespace. A write
  is visible at once under the digest of its message, never touches another namespace and
  invents nothing; a lookup answers with the requested message; a range read returns exactly
  the stored records of the range, bounds included.
\<close>

locale data_store =
  fixes D :: "('s, 'sig) DataStore"
    and digest :: "'sig Record \<Rightarrow> Namespace \<Rightarrow> B256"
    and ok :: "'s \<Rightarrow> bool"
    and content :: "'s \<Rightarrow> Namespace \<Rightarrow> 'sig Record set"
  assumes ok_write: "ok s \<Longrightarrow> ok (ds_write_one D s ns r)"
    and read_written: "ok s \<Longrightarrow>
      ds_read_message D (ds_write_one D s ns r) ns (digest r ns) = Some r"
    and read_other: "ok s \<Longrightarrow> ns' \<noteq> ns \<Longrightarrow>
      ds_read_message D (ds_write_one D s ns r) ns' i = ds_read_message D s ns' i"
    and read_content: "ok s \<Longrightarrow> ds_read_message D s ns i = Some r \<longleftrightarrow>
      r \<in> content s ns \<and> digest r ns = i"
    and content_write: "ok s \<Longrightarrow> content (ds_write_one D s ns r) ns \<subseteq> insert r (content s ns)"
    and content_other: "ok s \<Longrightarrow> ns' \<noteq> ns \<Longrightarrow>
      content (ds_write_one D s ns r) ns' = content s ns'"
    and range_content: "ok s \<Longrightarrow>
      set (log_records (ds_read_range D s ns a b)) =
        {r \<in> content s ns. a \<le> r_timestamp r \<and> r_timestamp r \<le> b}"
begin

lemma written_in_content: "ok s \<Longrightarrow> r \<in> content (ds_write_one D s ns r) ns"
  using read_content [OF ok_write, of s ns r ns "digest r ns" r] read_written [of s ns r] by simp

text \<open>Deduplication: one record per message digest.\<close>

lemma content_unique:
  "ok s \<Longrightarrow> r \<in> content s ns \<Longrightarrow> r' \<in> content s ns \<Longrightarrow> digest r ns = digest r' ns \<Longrightarrow> r = r'"
  using read_content [of s ns "digest r ns" r] read_content [of s ns "digest r ns" r'] by simp

lemma written_in_range:
  "ok s \<Longrightarrow> a \<le> r_timestamp r \<Longrightarrow> r_timestamp r \<le> b \<Longrightarrow>
     r \<in> set (log_records (ds_read_range D (ds_write_one D s ns r) ns a b))"
  by (simp add: range_content ok_write written_in_content)

lemma ok_writes: "ok s \<Longrightarrow> ok (ds_writes D ws s)"
  by (induction ws arbitrary: s) (auto simp: ok_write)

lemma content_step:
  "ok s \<Longrightarrow> content (ds_write_one D s ns' r) ns \<subseteq> content s ns \<union> (if ns' = ns then {r} else {})"
  using content_write [of s ns r] content_other [of s ns ns' r] by (cases "ns' = ns") auto

lemma content_writes:
  "ok s \<Longrightarrow> content (ds_writes D ws s) ns \<subseteq> content s ns \<union> {r. (ns, r) \<in> set ws}"
proof (induction ws arbitrary: s)
  case (Cons w ws)
  obtain ns' r where w: "w = (ns', r)" by (cases w)
  have "content (ds_writes D (w # ws) s) ns \<subseteq>
      content (ds_write_one D s ns' r) ns \<union> {r. (ns, r) \<in> set ws}"
    using Cons.IH [OF ok_write [OF Cons.prems]] w by simp
  also have "\<dots> \<subseteq> content s ns \<union> {r. (ns, r) \<in> set (w # ws)}"
    using content_step [OF Cons.prems, of ns' r ns] w by (auto split: if_splits)
  finally show ?case .
qed simp

text \<open>What a read returns after a run of writes from an empty state was written in that run.\<close>

lemma read_message_from_writes:
  assumes "ok s" "content s ns = {}" "ds_read_message D (ds_writes D ws s) ns i = Some r"
  shows "(ns, r) \<in> set ws \<and> digest r ns = i"
  using content_writes [OF assms(1), of ws ns] assms(2,3) ok_writes [OF assms(1), of ws]
  by (auto simp: read_content)

lemma read_range_from_writes:
  assumes "ok s" "content s ns = {}" "r \<in> set (log_records (ds_read_range D (ds_writes D ws s) ns a b))"
  shows "(ns, r) \<in> set ws \<and> a \<le> r_timestamp r \<and> r_timestamp r \<le> b"
  using content_writes [OF assms(1), of ws ns] assms(2,3) ok_writes [OF assms(1), of ws]
  by (auto simp: range_content)

end

section \<open>The in-memory store\<close>

text \<open>The \<^verbatim>\<open>hashbrown::HashMap\<close> of namespaces is a map.\<close>

record 'm InMemoryStore =
  cap :: nat
  record_maps :: "Namespace \<rightharpoonup> 'm"

definition with_capacity :: "nat \<Rightarrow> 'm InMemoryStore" where
  "with_capacity c = \<lparr>cap = c, record_maps = Map.empty\<rparr>"

definition read_range ::
  "(B256, 'sig Record, 'm) fifo \<Rightarrow> 'm InMemoryStore \<Rightarrow> Namespace \<Rightarrow> Timestamp \<Rightarrow> Timestamp \<Rightarrow> 'sig Log" where
  "read_range F self namespace start end' =
     (case record_maps self namespace of
        None \<Rightarrow> \<lparr>log_records = []\<rparr>
      | Some existing \<Rightarrow>
          \<lparr>log_records =
             filter (\<lambda>record. r_timestamp record \<ge> start \<and> r_timestamp record \<le> end')
               (fifo_values F existing)\<rparr>)"

definition read_message ::
  "(B256, 'sig Record, 'm) fifo \<Rightarrow> 'm InMemoryStore \<Rightarrow> Namespace \<Rightarrow> B256 \<Rightarrow> 'sig Record option" where
  "read_message F self namespace msg_id =
     (case record_maps self namespace of
        None \<Rightarrow> None
      | Some existing \<Rightarrow> map_option snd (find (\<lambda>e. fst e = msg_id) (fifo_iter F existing)))"

definition write_one ::
  "('sk, 'pk, 'sig, 'agg) lib \<Rightarrow> (B256, 'sig Record, 'm) fifo \<Rightarrow>
     'm InMemoryStore \<Rightarrow> Namespace \<Rightarrow> 'sig Record \<Rightarrow> 'm InMemoryStore" where
  "write_one L F self namespace record =
     (let message_digest = Record_message_digest L record namespace in
      case record_maps self namespace of
        Some records \<Rightarrow>
          self\<lparr>record_maps := (record_maps self)(namespace \<mapsto> fifo_insert F records message_digest record)\<rparr>
      | None \<Rightarrow>
          (let records = fifo_insert F (fifo_with_capacity F (cap self)) message_digest record
           in self\<lparr>record_maps := (record_maps self)(namespace \<mapsto> records)\<rparr>))"

definition in_memory ::
  "('sk, 'pk, 'sig, 'agg) lib \<Rightarrow> (B256, 'sig Record, 'm) fifo \<Rightarrow> ('m InMemoryStore, 'sig) DataStore" where
  "in_memory L F =
     \<lparr>ds_read_range = read_range F, ds_read_message = read_message F, ds_write_one = write_one L F\<rparr>"

section \<open>The invariant of the in-memory store\<close>

text \<open>
  Every namespace's map has the store's capacity and files every record under the digest of
  its message in that namespace.
\<close>

definition store_ok ::
  "('sk, 'pk, 'sig, 'agg) lib \<Rightarrow> (B256, 'sig Record, 'm) fifo \<Rightarrow> 'm InMemoryStore \<Rightarrow> bool" where
  "store_ok L F s \<longleftrightarrow> fifo_laws F \<and> 0 < cap s \<and>
     (\<forall>ns m. record_maps s ns = Some m \<longrightarrow>
        fifo_ok F m \<and> fifo_capacity F m = cap s \<and>
        (\<forall>k r. fifo_get F m k = Some r \<longrightarrow> Record_message_digest L r ns = k))"

definition store_content ::
  "(B256, 'sig Record, 'm) fifo \<Rightarrow> 'm InMemoryStore \<Rightarrow> Namespace \<Rightarrow> 'sig Record set" where
  "store_content F s ns =
     (case record_maps s ns of None \<Rightarrow> {} | Some m \<Rightarrow> set (fifo_values F m))"

text \<open>The map a write goes to: the namespace's own, or a new empty one.\<close>

definition map_of_namespace :: "('k, 'v, 'm) fifo \<Rightarrow> 'm InMemoryStore \<Rightarrow> Namespace \<Rightarrow> 'm" where
  "map_of_namespace F s ns =
     (case record_maps s ns of None \<Rightarrow> fifo_with_capacity F (cap s) | Some m \<Rightarrow> m)"

lemma write_one_eq:
  "write_one L F s ns r =
     s\<lparr>record_maps := (record_maps s)
         (ns \<mapsto> fifo_insert F (map_of_namespace F s ns) (Record_message_digest L r ns) r)\<rparr>"
  by (simp add: write_one_def map_of_namespace_def Let_def split: option.split)

lemma store_okD:
  assumes "store_ok L F s"
  shows "fifo_laws F" "0 < cap s" "fifo_ok F (map_of_namespace F s ns)"
    "fifo_capacity F (map_of_namespace F s ns) = cap s"
    "fifo_get F (map_of_namespace F s ns) k = Some r \<Longrightarrow> Record_message_digest L r ns = k"
proof -
  show laws: "fifo_laws F" "0 < cap s" using assms by (auto simp: store_ok_def)
  show "fifo_ok F (map_of_namespace F s ns)"
    "fifo_capacity F (map_of_namespace F s ns) = cap s"
    "fifo_get F (map_of_namespace F s ns) k = Some r \<Longrightarrow> Record_message_digest L r ns = k"
    using assms fifo_new [OF laws(1)]
    by (auto simp: store_ok_def map_of_namespace_def split: option.splits)
qed

lemma read_message_eq:
  assumes "store_ok L F s"
  shows "read_message F s ns i = fifo_get F (map_of_namespace F s ns) i"
  using fifo_find [OF store_okD(1,3) [OF assms], of i ns] fifo_new [OF store_okD(1) [OF assms]]
  by (auto simp: read_message_def map_of_namespace_def split: option.splits)

lemma store_content_iff:
  assumes "store_ok L F s"
  shows "r \<in> store_content F s ns \<longleftrightarrow>
    fifo_get F (map_of_namespace F s ns) (Record_message_digest L r ns) = Some r"
proof -
  have "r \<in> store_content F s ns \<longleftrightarrow> (\<exists>k. fifo_get F (map_of_namespace F s ns) k = Some r)"
    using fifo_values_iff [OF store_okD(1,3) [OF assms], of r ns] fifo_new [OF store_okD(1) [OF assms]]
    by (auto simp: store_content_def map_of_namespace_def split: option.splits)
  then show ?thesis using store_okD(5) [OF assms, of ns] by blast
qed

lemma map_of_namespace_write:
  "map_of_namespace F (write_one L F s ns r) ns' =
     (if ns' = ns then fifo_insert F (map_of_namespace F s ns) (Record_message_digest L r ns) r
      else map_of_namespace F s ns')"
  by (auto simp: write_one_eq map_of_namespace_def split: option.split)

lemma cap_write [simp]: "cap (write_one L F s ns r) = cap s"
  by (simp add: write_one_eq)

lemma store_okI:
  assumes "fifo_laws F" "0 < cap s"
    and "\<And>ns. fifo_ok F (map_of_namespace F s ns)"
    and "\<And>ns. fifo_capacity F (map_of_namespace F s ns) = cap s"
    and "\<And>ns k r. fifo_get F (map_of_namespace F s ns) k = Some r \<Longrightarrow> Record_message_digest L r ns = k"
  shows "store_ok L F s"
  unfolding store_ok_def
proof (intro conjI allI impI)
  fix ns m
  assume "record_maps s ns = Some m"
  then have m: "map_of_namespace F s ns = m" by (simp add: map_of_namespace_def)
  show "fifo_ok F m" "fifo_capacity F m = cap s" using assms(3,4) [of ns] m by simp_all
  show "fifo_get F m k = Some r \<Longrightarrow> Record_message_digest L r ns = k" for k r
    using assms(5) [of ns k r] m by simp
qed (use assms in auto)

lemma store_ok_write:
  assumes "store_ok L F s"
  shows "store_ok L F (write_one L F s ns r)"
proof (rule store_okI)
  note ins = fifo_inserted [OF store_okD(1,3) [OF assms]]
  show "fifo_laws F" "0 < cap (write_one L F s ns r)" using store_okD(1,2) [OF assms] by simp_all
  fix ns'
  show "fifo_ok F (map_of_namespace F (write_one L F s ns r) ns')"
    "fifo_capacity F (map_of_namespace F (write_one L F s ns r) ns') = cap (write_one L F s ns r)"
    using ins(1,2) store_okD(3,4) [OF assms] by (simp_all add: map_of_namespace_write)
  fix k r'
  assume get: "fifo_get F (map_of_namespace F (write_one L F s ns r) ns') k = Some r'"
  show "Record_message_digest L r' ns' = k"
  proof (cases "ns' = ns \<and> k = Record_message_digest L r ns")
    case True
    with get show ?thesis
      using ins(3) store_okD(2,4) [OF assms] by (simp add: map_of_namespace_write)
  next
    case False
    with get have "fifo_get F (map_of_namespace F s ns') k = Some r'"
      by (auto simp: map_of_namespace_write dest: ins(4) split: if_splits)
    then show ?thesis by (rule store_okD(5) [OF assms])
  qed
qed

lemma store_ok_new: "fifo_laws F \<Longrightarrow> 0 < c \<Longrightarrow> store_ok L F (with_capacity c)"
  by (simp add: store_ok_def with_capacity_def)

lemma store_content_new [simp]: "store_content F (with_capacity c) ns = {}"
  by (simp add: store_content_def with_capacity_def)

section \<open>The in-memory store meets the contract\<close>

interpretation mem: data_store "in_memory L F" "Record_message_digest L" "store_ok L F" "store_content F"
  for L :: "('sk, 'pk, 'sig, 'agg) lib" and F :: "(B256, 'sig Record, 'm) fifo"
proof unfold_locales
  fix s :: "'m InMemoryStore" and ns ns' i a b and r r' :: "'sig Record"
  assume ok: "store_ok L F s"
  note ins = fifo_inserted [OF store_okD(1,3) [OF ok]]
  note ok' = store_ok_write [OF ok]
  show "store_ok L F (ds_write_one (in_memory L F) s ns r)"
    using ok' by (simp add: in_memory_def)
  show "ds_read_message (in_memory L F) (ds_write_one (in_memory L F) s ns r) ns
      (Record_message_digest L r ns) = Some r"
    using ins(3) store_okD(2,4) [OF ok]
    by (simp add: in_memory_def read_message_eq [OF ok'] map_of_namespace_write)
  show "ds_read_message (in_memory L F) (ds_write_one (in_memory L F) s ns r) ns' i =
      ds_read_message (in_memory L F) s ns' i" if "ns' \<noteq> ns"
    using that by (simp add: in_memory_def read_message_eq [OF ok'] read_message_eq [OF ok]
        map_of_namespace_write)
  show "ds_read_message (in_memory L F) s ns i = Some r \<longleftrightarrow>
      r \<in> store_content F s ns \<and> Record_message_digest L r ns = i"
    using store_okD(5) [OF ok, of ns i r]
    by (auto simp: in_memory_def read_message_eq [OF ok] store_content_iff [OF ok])
  show "store_content F (ds_write_one (in_memory L F) s ns r) ns \<subseteq> insert r (store_content F s ns)"
  proof
    fix x
    assume x: "x \<in> store_content F (ds_write_one (in_memory L F) s ns r) ns"
    let ?m = "map_of_namespace F s ns" and ?k = "Record_message_digest L r ns"
    have g: "fifo_get F (fifo_insert F ?m ?k r) (Record_message_digest L x ns) = Some x"
      using x by (simp add: in_memory_def store_content_iff [OF ok'] map_of_namespace_write)
    show "x \<in> insert r (store_content F s ns)"
    proof (cases "Record_message_digest L x ns = ?k")
      case True
      with g show ?thesis using ins(3) store_okD(2,4) [OF ok] by simp
    next
      case False
      with g ins(4) show ?thesis by (simp add: store_content_iff [OF ok])
    qed
  qed
  show "store_content F (ds_write_one (in_memory L F) s ns r) ns' = store_content F s ns'"
    if "ns' \<noteq> ns"
    using that by (simp add: in_memory_def store_content_def write_one_eq)
  show "set (log_records (ds_read_range (in_memory L F) s ns a b)) =
      {r \<in> store_content F s ns. a \<le> r_timestamp r \<and> r_timestamp r \<le> b}"
    by (auto simp: in_memory_def read_range_def store_content_def split: option.split)
qed

section \<open>Capacity\<close>

text \<open>A namespace never holds more than \<open>cap\<close> records.\<close>

lemma length_range_le:
  assumes "store_ok L F s"
  shows "length (log_records (read_range F s ns a b)) \<le> cap s"
proof (cases "record_maps s ns")
  case (Some m)
  then have "length (fifo_iter F m) \<le> cap s"
    using fifo_entries(1) [OF store_okD(1,3) [OF assms], of ns] store_okD(4) [OF assms, of ns]
    by (simp add: map_of_namespace_def)
  moreover have "length (log_records (read_range F s ns a b)) \<le> length (fifo_iter F m)"
    using length_filter_le [of _ "fifo_values F m"] Some
    by (simp add: read_range_def fifo_values_def)
  ultimately show ?thesis by simp
qed (simp add: read_range_def)

lemma store_ok_writes: "store_ok L F s \<Longrightarrow> store_ok L F (ds_writes (in_memory L F) ws s)"
  by (rule mem.ok_writes)

lemma cap_writes: "cap (ds_writes (in_memory L F) ws s) = cap s"
proof (induction ws arbitrary: s)
  case (Cons w ws)
  then show ?case by (cases w) (simp add: in_memory_def)
qed simp

text \<open>A run of writes to one namespace is a run of insertions into its map.\<close>

lemma map_of_namespace_writes:
  "map_of_namespace F (ds_writes (in_memory L F) (map (\<lambda>r. (ns, r)) rs) s) ns =
     fifo_inserts F (map (\<lambda>r. (Record_message_digest L r ns, r)) rs) (map_of_namespace F s ns)"
proof (induction rs arbitrary: s)
  case (Cons r rs)
  then show ?case
    by (simp add: fifo_inserts_def in_memory_def map_of_namespace_write)
qed (simp add: fifo_inserts_def)

lemma read_message_after_writes:
  assumes "fifo_laws F" "0 < c" "distinct (map (\<lambda>r. Record_message_digest L r ns) rs)"
    and i: "i < length rs"
  shows "read_message F (ds_writes (in_memory L F) (map (\<lambda>r. (ns, r)) rs) (with_capacity c)) ns
      (Record_message_digest L (rs ! i) ns) = (if length rs \<le> i + c then Some (rs ! i) else None)"
proof -
  let ?kvs = "map (\<lambda>r. (Record_message_digest L r ns, r)) rs"
  have "map_of_namespace F (with_capacity c) ns = fifo_with_capacity F c"
    by (simp add: map_of_namespace_def with_capacity_def)
  moreover have "distinct (map fst ?kvs)" using assms(3) by (simp add: comp_def)
  ultimately show ?thesis
    using fifo_last_kept [OF assms(1), of ?kvs i c] i
    by (simp add: read_message_eq [OF store_ok_writes [OF store_ok_new [OF assms(1,2)]]]
        map_of_namespace_writes)
qed

text \<open>
  The digests a namespace holds. As long as fewer different messages than the capacity have been
  written to it, nothing is evicted: exactly the digests written are held.
\<close>

definition held :: "(B256, 'sig Record, 'm) fifo \<Rightarrow> 'm InMemoryStore \<Rightarrow> Namespace \<Rightarrow> B256 set" where
  "held F s ns = {i. read_message F s ns i \<noteq> None}"

definition digests_written ::
  "('sk, 'pk, 'sig, 'agg) lib \<Rightarrow> Namespace \<Rightarrow> (Namespace \<times> 'sig Record) list \<Rightarrow> B256 set" where
  "digests_written L ns ws = (\<lambda>(ns', r). Record_message_digest L r ns') ` {w \<in> set ws. fst w = ns}"

lemma digests_written_snoc:
  "digests_written L ns (ws @ [(ns', r)]) =
     (if ns' = ns then insert (Record_message_digest L r ns) (digests_written L ns ws)
      else digests_written L ns ws)"
proof -
  have "{w \<in> set (ws @ [(ns', r)]). fst w = ns} =
      (if ns' = ns then insert (ns, r) {w \<in> set ws. fst w = ns} else {w \<in> set ws. fst w = ns})"
    by auto
  then show ?thesis by (simp add: digests_written_def)
qed

lemma finite_digests_written [simp]: "finite (digests_written L ns ws)"
  by (simp add: digests_written_def)

lemma card_held:
  assumes "store_ok L F s"
  shows "card (held F s ns) = length (fifo_iter F (map_of_namespace F s ns))"
proof -
  note e = fifo_entries [OF store_okD(1) [OF assms] store_okD(3) [OF assms, of ns]]
  have "i \<in> held F s ns \<longleftrightarrow> (\<exists>r. (i, r) \<in> set (fifo_iter F (map_of_namespace F s ns)))" for i
    unfolding e(3) held_def read_message_eq [OF assms] by simp
  then have "held F s ns = fst ` set (fifo_iter F (map_of_namespace F s ns))" by force
  then show ?thesis using distinct_card [OF e(2)] by simp
qed

lemma held_write:
  assumes ok: "store_ok L F s" and few: "card (held F s ns) < cap s"
  shows "held F (write_one L F s ns r) ns = insert (Record_message_digest L r ns) (held F s ns)"
proof -
  note ins = fifo_inserted [OF store_okD(1) [OF ok] store_okD(3) [OF ok, of ns],
      where k = "Record_message_digest L r ns" and v = r]
  have room: "length (fifo_iter F (map_of_namespace F s ns)) < fifo_capacity F (map_of_namespace F s ns)"
    using few by (simp add: card_held [OF ok] store_okD(4) [OF ok])
  have "0 < fifo_capacity F (map_of_namespace F s ns)" using room by simp
  note new = ins(3) [OF this] and old = ins(5) [OF _ room]
  have "read_message F (write_one L F s ns r) ns i \<noteq> None \<longleftrightarrow>
      i = Record_message_digest L r ns \<or> read_message F s ns i \<noteq> None" for i
    using new old [of i]
    by (cases "i = Record_message_digest L r ns")
      (simp_all add: read_message_eq [OF ok] read_message_eq [OF store_ok_write [OF ok]] map_of_namespace_write)
  then show ?thesis by (auto simp: held_def)
qed

lemma held_written:
  assumes "fifo_laws F" "card (digests_written L ns ws) < c"
  shows "held F (ds_writes (in_memory L F) ws (with_capacity c)) ns = digests_written L ns ws"
  using assms(2)
proof (induction ws rule: rev_induct)
  case Nil
  then show ?case by (simp add: held_def digests_written_def read_message_def with_capacity_def)
next
  case (snoc w ws)
  obtain ns' r where w: "w = (ns', r)" by (cases w)
  let ?s = "ds_writes (in_memory L F) ws (with_capacity c)"
  have "0 < c" using snoc.prems by simp
  then have ok: "store_ok L F ?s" by (rule store_ok_writes [OF store_ok_new [OF assms(1)]])
  have "digests_written L ns ws \<subseteq> digests_written L ns (ws @ [w])"
    by (auto simp: w digests_written_snoc)
  then have "card (digests_written L ns ws) \<le> card (digests_written L ns (ws @ [w]))"
    by (rule card_mono [OF finite_digests_written])
  then have few: "card (digests_written L ns ws) < c" using snoc.prems by simp
  have s': "ds_writes (in_memory L F) (ws @ [w]) (with_capacity c) = write_one L F ?s ns' r"
    by (simp add: w ds_writes_def in_memory_def)
  show ?case
  proof (cases "ns' = ns")
    case True
    have "cap ?s = c" by (simp add: cap_writes) (simp add: with_capacity_def)
    with True snoc.IH [OF few] few held_write [OF ok, of ns r] show ?thesis
      unfolding s' by (simp add: w digests_written_snoc)
  next
    case False
    have "read_message F (write_one L F ?s ns' r) ns i = read_message F ?s ns i" for i
      using mem.read_other [OF ok, of ns ns' r i] False by (simp add: in_memory_def)
    then have "held F (write_one L F ?s ns' r) ns = held F ?s ns" by (simp add: held_def)
    with False snoc.IH [OF few] show ?thesis
      unfolding s' by (simp add: w digests_written_snoc)
  qed
qed

end
