(* ===== verification/ValidatorNode.thy ===== *)
theory ValidatorNode
  imports Store
begin

text \<open>
  The validator of \<^verbatim>\<open>src/validator/mod.rs\<close>: its state, the four operations of
  \<^verbatim>\<open>ValidatorSpec\<close>, and the handling of one request inside \<^verbatim>\<open>Future::poll\<close>. The store is any
  implementation \<open>D\<close> of the trait \<^verbatim>\<open>DataStore\<close>; the clock reading of an operation that calls
  \<^verbatim>\<open>Timestamp::now\<close> is an argument. \<open>None\<close> is a panic. The lemmas of the validator are
  proved once, over the contract \<open>data_store\<close>.
\<close>

section \<open>State and construction\<close>

text \<open>
  The sockets appear through what the code reads of them: the local address of the request
  socket and the port of the publisher socket (\<open>None\<close> when it is not bound).
\<close>

record ('s, 'sk) Validator =
  v_store :: 's
  v_secret_key :: 'sk
  v_local_addr :: "SocketAddr option"
  v_active_subscriptions :: "Namespace set"
  v_pub_addr :: "SocketAddr option"

definition any_addr :: IpAddr where
  "any_addr = [0, 0, 0, 0]"

text \<open>
  \<^verbatim>\<open>Validator::new\<close>: \<open>bind_rep\<close> and \<open>bind_pub\<close> are the network's answers to the two
  \<^verbatim>\<open>bind\<close> calls, an error or the bound address.
\<close>

definition Validator_new ::
  "(SocketAddr \<Rightarrow> 'e + SocketAddr) \<Rightarrow> (SocketAddr \<Rightarrow> 'e + SocketAddr) \<Rightarrow>
     's \<Rightarrow> 'sk \<Rightarrow> 16 word \<Rightarrow> ('e, ('s, 'sk) Validator) res" where
  "Validator_new bind_rep bind_pub store secret_key port =
     (case bind_rep (any_addr, port) of
        Inl e \<Rightarrow> Err e
      | Inr addr \<Rightarrow>
          (case bind_pub (any_addr, 0) of
             Inl e \<Rightarrow> Err e
           | Inr pub_addr \<Rightarrow>
               Ok \<lparr>v_store = store, v_secret_key = secret_key, v_local_addr = Some addr,
                   v_active_subscriptions = {}, v_pub_addr = Some pub_addr\<rparr>))"

definition new_in_memory ::
  "(SocketAddr \<Rightarrow> 'e + SocketAddr) \<Rightarrow> (SocketAddr \<Rightarrow> 'e + SocketAddr) \<Rightarrow>
     'sk \<Rightarrow> 16 word \<Rightarrow> ('e, ('m InMemoryStore, 'sk) Validator) res" where
  "new_in_memory bind_rep bind_pub secret_key port =
     Validator_new bind_rep bind_pub (with_capacity 4096) secret_key port"

definition local_addr :: "('s, 'sk) Validator \<Rightarrow> SocketAddr option" where
  "local_addr self = v_local_addr self"

section \<open>The operations of \<^verbatim>\<open>ValidatorSpec\<close>\<close>

definition validator_write ::
  "('sk, 'pk, 'sig, 'agg) lib \<Rightarrow> ('s, 'sig) DataStore \<Rightarrow> int \<Rightarrow>
     ('s, 'sk) Validator \<Rightarrow> Namespace \<Rightarrow> Message \<Rightarrow> ('sig Record \<times> ('s, 'sk) Validator) option" where
  "validator_write L D clock self namespace message =
     (case ts_now clock of
        None \<Rightarrow> None
      | Some timestamp \<Rightarrow>
          (let record_digest = Message_record_digest L message namespace timestamp;
               signature = sign_with_prefix L (v_secret_key self) record_digest;
               record = \<lparr>r_timestamp = timestamp, r_message = message, r_signature = signature\<rparr>
           in Some (record, self\<lparr>v_store := ds_write_one D (v_store self) namespace record\<rparr>)))"

definition validator_read_range ::
  "('s, 'sig) DataStore \<Rightarrow> ('s, 'sk) Validator \<Rightarrow> Namespace \<Rightarrow> Timestamp \<Rightarrow> Timestamp \<Rightarrow> 'sig Log" where
  "validator_read_range D self namespace start end' = ds_read_range D (v_store self) namespace start end'"

definition validator_read_message ::
  "('sk, 'pk, 'sig, 'agg) lib \<Rightarrow> ('s, 'sig) DataStore \<Rightarrow> int \<Rightarrow>
     ('s, 'sk) Validator \<Rightarrow> Namespace \<Rightarrow> B256 \<Rightarrow> 'sig ReadMessageResponse option" where
  "validator_read_message L D clock self namespace msg_id =
     (case ds_read_message D (v_store self) namespace msg_id of
        Some record \<Rightarrow> Some (Available record)
      | None \<Rightarrow> map_option Unavailable (create_signed L clock msg_id (v_secret_key self)))"

definition validator_subscribe :: "('s, 'sk) Validator \<Rightarrow> Namespace \<Rightarrow> ('s, 'sk) Validator" where
  "validator_subscribe self namespace =
     self\<lparr>v_active_subscriptions := insert namespace (v_active_subscriptions self)\<rparr>"

section \<open>Handling a request\<close>

text \<open>
  The \<^verbatim>\<open>match request\<close> of \<^verbatim>\<open>poll\<close>. The result holds the new state, the response if one
  was sent, and the item to enqueue for publication if the namespace has subscribers. A
  response that fails to serialize is logged and skipped by \<^verbatim>\<open>continue\<close>, which for a write
  skips the publication too; the write itself has happened. \<^verbatim>\<open>expect("Publisher not bound")\<close>
  panics.
\<close>

type_synonym pub_item = "Namespace \<times> bytes"

fun handle_request ::
  "('sk, 'pk, 'sig, 'agg) lib \<Rightarrow> 'sig json \<Rightarrow> ('s, 'sig) DataStore \<Rightarrow> int \<Rightarrow>
     ('s, 'sk) Validator \<Rightarrow> Request \<Rightarrow>
     (('s, 'sk) Validator \<times> bytes option \<times> pub_item option) option" where
  "handle_request L J D clock this (Write namespace message) =
     (case validator_write L D clock this namespace message of
        None \<Rightarrow> None
      | Some (record, this) \<Rightarrow>
          (case record_to_vec J record of
             None \<Rightarrow> Some (this, None, None)
           | Some response \<Rightarrow>
               Some (this, Some response,
                 if namespace \<in> v_active_subscriptions this then Some (namespace, response) else None)))"
| "handle_request L J D clock this (ReadRange namespace start end') =
     Some (this, log_to_vec J (validator_read_range D this namespace start end'), None)"
| "handle_request L J D clock this (ReadMessage namespace msg_id) =
     (case validator_read_message L D clock this namespace msg_id of
        None \<Rightarrow> None
      | Some response \<Rightarrow> Some (this, message_response_to_vec J response, None))"
| "handle_request L J D clock this (Subscribe namespace) =
     (let this = validator_subscribe this namespace in
      case v_pub_addr this of
        None \<Rightarrow> None
      | Some pub_addr \<Rightarrow>
          Some (this,
            subscribe_response_to_vec J
              \<lparr>sr_port = snd pub_addr, sr_auth_token = map of_char ''noop''\<rparr>,
            None))"

text \<open>What no operation changes.\<close>

lemma validator_write_frame:
  assumes "validator_write L D clock v ns m = Some (r, v')"
  shows "v_secret_key v' = v_secret_key v" "v_pub_addr v' = v_pub_addr v"
    "v_local_addr v' = v_local_addr v" "v_active_subscriptions v' = v_active_subscriptions v"
  using assms by (auto simp: validator_write_def Let_def split: option.splits)

lemma handle_request_frame:
  assumes "handle_request L J D clock v req = Some (v', resp, pub)"
  shows "v_secret_key v' = v_secret_key v" "v_pub_addr v' = v_pub_addr v"
    "v_local_addr v' = v_local_addr v" "v_active_subscriptions v \<subseteq> v_active_subscriptions v'"
  using assms
  by (cases req; auto simp: Let_def validator_subscribe_def dest: validator_write_frame
      split: option.splits prod.splits)+

text \<open>With a clock after the epoch and a bound publisher no request makes the validator panic.\<close>

lemma handle_request_total:
  assumes "0 \<le> clock" "v_pub_addr v \<noteq> None"
  shows "\<exists>v' resp pub. handle_request L J D clock v req = Some (v', resp, pub)"
proof (cases req)
  case (Write ns m)
  then show ?thesis using ts_now_Some [OF assms(1)]
    by (auto simp: validator_write_def Let_def split: option.split)
next
  case (ReadMessage ns i)
  then show ?thesis using create_signed_Some [OF assms(1)]
    by (fastforce simp: validator_read_message_def split: option.split)
next
  case (Subscribe ns)
  then show ?thesis using assms(2) by (auto simp: Let_def validator_subscribe_def)
qed simp

section \<open>The validator over its store contract\<close>

text \<open>
  A record is authentic in a namespace when its signature verifies under the key for its own
  digest.
\<close>

definition authentic :: "('sk, 'pk, 'sig, 'agg) lib \<Rightarrow> 'pk \<Rightarrow> Namespace \<Rightarrow> 'sig Record \<Rightarrow> bool" where
  "authentic L pk ns r \<longleftrightarrow> verify_signature L (r_signature r) pk (Record_digest L r ns)"

lemma validator_write_authentic:
  assumes "bls_correct L" "validator_write L D clock v ns m = Some (r, v')"
  shows "authentic L (sk_to_pk L (v_secret_key v)) ns r" "r_message r = m"
    "ts_now clock = Some (r_timestamp r)"
    "v_store v' = ds_write_one D (v_store v) ns r"
  using assms
  by (auto simp: validator_write_def authentic_def Record_digest_eq Let_def split: option.splits)

text \<open>
  The invariant of a validator, over the invariant and the content of its store: every stored
  record is one this validator's key signed.
\<close>

definition node_ok ::
  "('s \<Rightarrow> bool) \<Rightarrow> ('s \<Rightarrow> Namespace \<Rightarrow> 'sig Record set) \<Rightarrow> ('sk, 'pk, 'sig, 'agg) lib \<Rightarrow>
     ('s, 'sk) Validator \<Rightarrow> bool" where
  "node_ok ok content L v \<longleftrightarrow> ok (v_store v) \<and>
     (\<forall>ns r. r \<in> content (v_store v) ns \<longrightarrow> authentic L (sk_to_pk L (v_secret_key v)) ns r)"

context data_store
begin

lemma node_ok_write:
  assumes inv: "node_ok ok content L v" and bls: "bls_correct L"
    and w: "validator_write L D clock v ns m = Some (r, v')"
  shows "node_ok ok content L v'"
proof -
  note w' = validator_write_authentic [OF bls w] validator_write_frame [OF w]
  have "authentic L (sk_to_pk L (v_secret_key v)) ns' x"
    if "x \<in> content (ds_write_one D (v_store v) ns r) ns'" for ns' x
    using that inv w'(1) content_step [of "v_store v" ns r ns']
    by (auto simp: node_ok_def split: if_splits)
  with inv w' show ?thesis by (simp add: node_ok_def ok_write)
qed

lemma node_ok_handle:
  assumes inv: "node_ok ok content L v" and bls: "bls_correct L"
    and h: "handle_request L J D clock v req = Some (v', resp, pub)"
  shows "node_ok ok content L v'"
proof (cases req)
  case (Write ns m)
  with h obtain r where "validator_write L D clock v ns m = Some (r, v')"
    by (auto split: option.splits)
  with inv bls show ?thesis by (rule node_ok_write)
next
  case (Subscribe ns)
  with h inv show ?thesis by (auto simp: Let_def validator_subscribe_def node_ok_def split: option.splits)
qed (use h inv in \<open>auto split: option.splits\<close>)

text \<open>A write is readable at once, with the record it returned.\<close>

lemma read_message_after_write:
  assumes "node_ok ok content L v" "bls_correct L" "validator_write L D clock v ns m = Some (r, v')"
  shows "validator_read_message L D clock' v' ns (digest r ns) = Some (Available r)"
  using assms(1) validator_write_authentic(4) [OF assms(2,3)]
  by (simp add: validator_read_message_def read_written node_ok_def)

text \<open>Every answer to a read carries a signature that verifies, for the requested message.\<close>

lemma read_message_authentic:
  assumes inv: "node_ok ok content L v" and bls: "bls_correct L"
    and rd: "validator_read_message L D clock v ns i = Some resp"
  shows "case resp of
      Available r \<Rightarrow> digest r ns = i \<and> authentic L (sk_to_pk L (v_secret_key v)) ns r
    | Unavailable u \<Rightarrow> um_msg_id u = i \<and>
        verify_signature L (um_signature u) (sk_to_pk L (v_secret_key v)) (UnavailableMessage_digest L u)"
proof (cases "ds_read_message D (v_store v) ns i")
  case None
  with rd obtain u where "create_signed L clock i (v_secret_key v) = Some u" "resp = Unavailable u"
    by (auto simp: validator_read_message_def)
  with create_signed_verifies [OF bls] show ?thesis by auto
next
  case (Some r)
  with inv have "r \<in> content (v_store v) ns \<and> digest r ns = i"
    by (simp add: node_ok_def read_content)
  with Some inv rd show ?thesis by (auto simp: validator_read_message_def node_ok_def)
qed

lemma read_range_authentic:
  assumes "node_ok ok content L v"
  shows "set (log_records (validator_read_range D v ns a b)) =
    {r \<in> content (v_store v) ns. a \<le> r_timestamp r \<and> r_timestamp r \<le> b}"
    and "r \<in> set (log_records (validator_read_range D v ns a b)) \<Longrightarrow>
      authentic L (sk_to_pk L (v_secret_key v)) ns r"
  using assms by (auto simp: validator_read_range_def node_ok_def range_content)

end

text \<open>A new in-memory validator satisfies the invariant.\<close>

lemma new_in_memory_Ok:
  assumes "new_in_memory bind_rep bind_pub sk port = Ok v"
  shows "v_store v = with_capacity 4096" "v_secret_key v = sk" "v_pub_addr v \<noteq> None"
    "v_active_subscriptions v = {}"
  using assms by (auto simp: new_in_memory_def Validator_new_def split: sum.splits)

lemma new_in_memory_node_ok:
  assumes "fifo_laws F" "new_in_memory bind_rep bind_pub sk port = Ok v"
  shows "node_ok (store_ok L F) (store_content F) L v"
  using assms(1) new_in_memory_Ok [OF assms(2)] store_ok_new [OF assms(1), of 4096 L]
  by (simp add: node_ok_def)

end
