(* ===== verification/Channel.thy ===== *)
theory Channel
  imports Prelude
begin

text \<open>
  The bounded channel \<^verbatim>\<open>tokio::sync::mpsc\<close>, which the validator queues publications in and
  the client streams records through. The crate is third-party, so the record \<open>mpsc\<close> holds its
  functions as parameters and \<open>mpsc_laws\<close> is what the program relies on.
\<close>

datatype 'a Poll = Ready 'a | Pending

text \<open>
  \<open>mpsc_try_send q x\<close> is \<open>None\<close> when sending fails. The flag of \<open>mpsc_poll_recv\<close> says that
  this poll fails spuriously, which the channel's documentation allows (the cooperative budget
  of the task is used up). \<open>mpsc_contents\<close> and \<open>mpsc_capacity\<close> occur in the laws only.
\<close>

record ('a, 'q) mpsc =
  mpsc_channel :: "nat \<Rightarrow> 'q"
  mpsc_try_send :: "'q \<Rightarrow> 'a \<Rightarrow> 'q option"
  mpsc_poll_recv :: "'q \<Rightarrow> bool \<Rightarrow> 'a option Poll \<times> 'q"
  mpsc_contents :: "'q \<Rightarrow> 'a list"
  mpsc_capacity :: "'q \<Rightarrow> nat"

definition mpsc_laws :: "('a, 'q) mpsc \<Rightarrow> bool" where
  "mpsc_laws Q \<longleftrightarrow>
     (\<forall>n. mpsc_contents Q (mpsc_channel Q n) = [] \<and> mpsc_capacity Q (mpsc_channel Q n) = n) \<and>
     (\<forall>q x.
        (case mpsc_try_send Q q x of
           None \<Rightarrow> mpsc_capacity Q q \<le> length (mpsc_contents Q q)
         | Some q' \<Rightarrow> length (mpsc_contents Q q) < mpsc_capacity Q q \<and>
             mpsc_contents Q q' = mpsc_contents Q q @ [x] \<and> mpsc_capacity Q q' = mpsc_capacity Q q)) \<and>
     (\<forall>q. mpsc_contents Q (snd (mpsc_poll_recv Q q False)) = tl (mpsc_contents Q q) \<and>
        mpsc_capacity Q (snd (mpsc_poll_recv Q q False)) = mpsc_capacity Q q \<and>
        fst (mpsc_poll_recv Q q False) =
          (case mpsc_contents Q q of [] \<Rightarrow> Pending | x # xs \<Rightarrow> Ready (Some x))) \<and>
     (\<forall>q. fst (mpsc_poll_recv Q q True) = Pending)"

lemma mpsc_new:
  "mpsc_laws Q \<Longrightarrow> mpsc_contents Q (mpsc_channel Q n) = []"
  "mpsc_laws Q \<Longrightarrow> mpsc_capacity Q (mpsc_channel Q n) = n"
  by (simp_all add: mpsc_laws_def)

lemma mpsc_send:
  assumes "mpsc_laws Q"
  shows "mpsc_try_send Q q x = None \<Longrightarrow> mpsc_capacity Q q \<le> length (mpsc_contents Q q)"
    and "mpsc_try_send Q q x = Some q' \<Longrightarrow> length (mpsc_contents Q q) < mpsc_capacity Q q \<and>
      mpsc_contents Q q' = mpsc_contents Q q @ [x] \<and> mpsc_capacity Q q' = mpsc_capacity Q q"
proof -
  have "case mpsc_try_send Q q x of
           None \<Rightarrow> mpsc_capacity Q q \<le> length (mpsc_contents Q q)
         | Some q' \<Rightarrow> length (mpsc_contents Q q) < mpsc_capacity Q q \<and>
             mpsc_contents Q q' = mpsc_contents Q q @ [x] \<and> mpsc_capacity Q q' = mpsc_capacity Q q"
    using assms unfolding mpsc_laws_def by blast
  then show "mpsc_try_send Q q x = None \<Longrightarrow> mpsc_capacity Q q \<le> length (mpsc_contents Q q)"
    and "mpsc_try_send Q q x = Some q' \<Longrightarrow> length (mpsc_contents Q q) < mpsc_capacity Q q \<and>
      mpsc_contents Q q' = mpsc_contents Q q @ [x] \<and> mpsc_capacity Q q' = mpsc_capacity Q q"
    by simp_all
qed

lemma mpsc_recv:
  assumes "mpsc_laws Q"
  shows "mpsc_contents Q (snd (mpsc_poll_recv Q q False)) = tl (mpsc_contents Q q)"
    "mpsc_capacity Q (snd (mpsc_poll_recv Q q False)) = mpsc_capacity Q q"
    "fst (mpsc_poll_recv Q q False) =
       (case mpsc_contents Q q of [] \<Rightarrow> Pending | x # xs \<Rightarrow> Ready (Some x))"
    "fst (mpsc_poll_recv Q q True) = Pending"
  using assms by (simp_all add: mpsc_laws_def)

text \<open>A channel that satisfies the laws, for examples: the capacity and the queue.\<close>

definition list_mpsc :: "('a, nat \<times> 'a list) mpsc" where
  "list_mpsc = \<lparr>
     mpsc_channel = (\<lambda>n. (n, [])),
     mpsc_try_send = (\<lambda>(n, xs) x. if length xs < n then Some (n, xs @ [x]) else None),
     mpsc_poll_recv = (\<lambda>(n, xs) spurious.
       if spurious then (Pending, (n, xs))
       else case xs of [] \<Rightarrow> (Pending, (n, [])) | x # xs' \<Rightarrow> (Ready (Some x), (n, xs'))),
     mpsc_contents = snd,
     mpsc_capacity = fst \<rparr>"

lemma list_mpsc_laws: "mpsc_laws list_mpsc"
  by (auto simp: mpsc_laws_def list_mpsc_def split: list.split)

end
