(* ===== verification/PollLoop.thy ===== *)
theory PollLoop
  imports ValidatorNode Channel
begin

text \<open>
  The event loop of the validator, \<^verbatim>\<open>Future::poll\<close> in \<^verbatim>\<open>src/validator/mod.rs\<close>: it drains
  the request socket, queues records for publication in a bounded channel that lives for one
  call of \<^verbatim>\<open>poll\<close>, publishes one queued record each time no request is ready, and returns
  when neither is. The channel is the one of the theory \<open>Channel\<close>.
\<close>

section \<open>The loop\<close>

text \<open>
  What one iteration finds: a request that is ready, with the clock reading of its handling,
  or none (\<open>Idle\<close>), with whether polling the queue then fails spuriously.
\<close>

datatype tick = Incoming bytes int | Idle bool

datatype effect = Respond bytes | Publish string bytes

datatype 'v poll_result =
    PollPanic
  | PollPending 'v "effect list"  \<comment> \<open>returned \<^verbatim>\<open>Poll::Pending\<close>\<close>
  | PollRunning 'v "effect list"  \<comment> \<open>still in the loop when the given ticks are used up\<close>

definition respond_effects :: "bytes option \<Rightarrow> effect list" where
  "respond_effects resp = (case resp of None \<Rightarrow> [] | Some b \<Rightarrow> [Respond b])"

definition enqueue :: "(pub_item, 'q) mpsc \<Rightarrow> 'q \<Rightarrow> pub_item option \<Rightarrow> 'q" where
  "enqueue Q q pub =
     (case pub of
        None \<Rightarrow> q
      | Some item \<Rightarrow> (case mpsc_try_send Q q item of None \<Rightarrow> q | Some q' \<Rightarrow> q'))"

text \<open>
  The body of \<^verbatim>\<open>loop { .. }\<close>, one tick per iteration. \<open>lossy\<close> is
  \<^verbatim>\<open>String::from_utf8_lossy\<close>. Failures of \<^verbatim>\<open>req.respond\<close> and \<^verbatim>\<open>try_publish\<close> are only
  logged, so an effect stands for the attempt.
\<close>

fun poll_loop ::
  "('sk, 'pk, 'sig, 'agg) lib \<Rightarrow> 'sig json \<Rightarrow> ('s, 'sig) DataStore \<Rightarrow> (pub_item, 'q) mpsc \<Rightarrow>
     (bytes \<Rightarrow> string) \<Rightarrow> tick list \<Rightarrow> ('s, 'sk) Validator \<Rightarrow> 'q \<Rightarrow> effect list \<Rightarrow>
     ('s, 'sk) Validator poll_result" where
  "poll_loop L J D Q lossy [] this q out = PollRunning this out"
| "poll_loop L J D Q lossy (Incoming msg clock # ticks) this q out =
     (case request_from_slice J msg of
        None \<Rightarrow> poll_loop L J D Q lossy ticks this q out
      | Some request \<Rightarrow>
          (case handle_request L J D clock this request of
             None \<Rightarrow> PollPanic
           | Some (this, resp, pub) \<Rightarrow>
               poll_loop L J D Q lossy ticks this (enqueue Q q pub) (out @ respond_effects resp)))"
| "poll_loop L J D Q lossy (Idle spurious # ticks) this q out =
     (case mpsc_poll_recv Q q spurious of
        (Ready (Some (namespace, serialized_record)), q) \<Rightarrow>
          poll_loop L J D Q lossy ticks this q (out @ [Publish (lossy namespace) serialized_record])
      | (_, q) \<Rightarrow> PollPending this out)"

text \<open>A call of \<^verbatim>\<open>poll\<close> creates a channel of 512 items and runs the loop.\<close>

definition poll ::
  "('sk, 'pk, 'sig, 'agg) lib \<Rightarrow> 'sig json \<Rightarrow> ('s, 'sig) DataStore \<Rightarrow> (pub_item, 'q) mpsc \<Rightarrow>
     (bytes \<Rightarrow> string) \<Rightarrow> tick list \<Rightarrow> ('s, 'sk) Validator \<Rightarrow> ('s, 'sk) Validator poll_result" where
  "poll L J D Q lossy ticks this = poll_loop L J D Q lossy ticks this (mpsc_channel Q 512) []"

section \<open>Reference: serving the requests one after the other\<close>

text \<open>
  The requests among the ticks, handled in order: the final state, the responses, and the
  items for publication. \<open>None\<close> is a panic.
\<close>

fun serve ::
  "('sk, 'pk, 'sig, 'agg) lib \<Rightarrow> 'sig json \<Rightarrow> ('s, 'sig) DataStore \<Rightarrow> tick list \<Rightarrow>
     ('s, 'sk) Validator \<Rightarrow> (('s, 'sk) Validator \<times> bytes list \<times> pub_item list) option" where
  "serve L J D [] v = Some (v, [], [])"
| "serve L J D (Idle b # ticks) v = serve L J D ticks v"
| "serve L J D (Incoming msg clock # ticks) v =
     (case request_from_slice J msg of
        None \<Rightarrow> serve L J D ticks v
      | Some request \<Rightarrow>
          (case handle_request L J D clock v request of
             None \<Rightarrow> None
           | Some (v', resp, pub) \<Rightarrow>
               (case serve L J D ticks v' of
                  None \<Rightarrow> None
                | Some (w, resps, pubs) \<Rightarrow>
                    Some (w, (case resp of None \<Rightarrow> resps | Some b \<Rightarrow> b # resps),
                      (case pub of None \<Rightarrow> pubs | Some i \<Rightarrow> i # pubs)))))"

fun responses :: "effect list \<Rightarrow> bytes list" where
  "responses [] = []"
| "responses (Respond b # es) = b # responses es"
| "responses (Publish t b # es) = responses es"

fun publications :: "effect list \<Rightarrow> (string \<times> bytes) list" where
  "publications [] = []"
| "publications (Respond b # es) = publications es"
| "publications (Publish t b # es) = (t, b) # publications es"

lemma responses_append [simp]: "responses (es @ fs) = responses es @ responses fs"
  by (induction es rule: responses.induct) auto

lemma publications_append [simp]: "publications (es @ fs) = publications es @ publications fs"
  by (induction es rule: publications.induct) auto

lemma effects_of_respond [simp]:
  "responses (respond_effects resp) = (case resp of None \<Rightarrow> [] | Some b \<Rightarrow> [b])"
  "publications (respond_effects resp) = []"
  by (auto simp: respond_effects_def split: option.split)

text \<open>The loop answers exactly like the reference, on the ticks it consumed.\<close>

lemma poll_loop_serves:
  assumes "poll_loop L J D Q lossy ticks v q out = PollPending v' out'"
  shows "\<exists>used rest resps pubs. ticks = used @ rest \<and>
    serve L J D used v = Some (v', resps, pubs) \<and> responses out' = responses out @ resps"
  using assms
proof (induction ticks arbitrary: v q out)
  case Nil
  then show ?case by simp
next
  case (Cons t ticks)
  show ?case
  proof (cases t)
    case (Idle b)
    show ?thesis
    proof (cases "\<exists>item q'. mpsc_poll_recv Q q b = (Ready (Some item), q')")
      case True
      then obtain ns bs q' where r: "mpsc_poll_recv Q q b = (Ready (Some (ns, bs)), q')" by auto
      with Cons.prems Idle have "poll_loop L J D Q lossy ticks v q' (out @ [Publish (lossy ns) bs])
        = PollPending v' out'" by simp
      from Cons.IH [OF this] obtain used rest resps pubs where
        "ticks = used @ rest" "serve L J D used v = Some (v', resps, pubs)"
        "responses out' = responses out @ resps" by auto
      then show ?thesis by - (rule exI [of _ "t # used"], auto simp: Idle)
    next
      case False
      with Cons.prems Idle have "v' = v \<and> out' = out"
        by (auto split: prod.splits Poll.splits option.splits)
      then show ?thesis by - (rule exI [of _ "[]"], auto)
    qed
  next
    case (Incoming msg clock)
    show ?thesis
    proof (cases "request_from_slice J msg")
      case None
      with Cons.prems Incoming Cons.IH [of v q out] obtain used rest resps pubs where
        "ticks = used @ rest" "serve L J D used v = Some (v', resps, pubs)"
        "responses out' = responses out @ resps" by auto
      then show ?thesis by - (rule exI [of _ "t # used"], auto simp: Incoming None)
    next
      case (Some req)
      with Cons.prems Incoming obtain w resp pub where
        h: "handle_request L J D clock v req = Some (w, resp, pub)"
        and run: "poll_loop L J D Q lossy ticks w (enqueue Q q pub) (out @ respond_effects resp)
          = PollPending v' out'"
        by (auto split: option.splits)
      from Cons.IH [OF run] obtain used rest resps pubs where
        "ticks = used @ rest" "serve L J D used w = Some (v', resps, pubs)"
        "responses out' = responses (out @ respond_effects resp) @ resps" by auto
      then show ?thesis
        by - (rule exI [of _ "t # used"], auto simp: Incoming Some h split: option.split)
    qed
  qed
qed

section \<open>Draining\<close>

text \<open>
  Idle iterations publish the queue in order and then return; one more idle iteration than
  there are queued items is enough.
\<close>

lemma poll_loop_drain:
  assumes "mpsc_laws Q" and "length (mpsc_contents Q q) < k"
  shows "poll_loop L J D Q lossy (replicate k (Idle False) @ rest) v q out =
    PollPending v (out @ map (\<lambda>(ns, b). Publish (lossy ns) b) (mpsc_contents Q q))"
  using assms(2)
proof (induction k arbitrary: q out)
  case 0
  then show ?case by simp
next
  case (Suc k)
  note recv = mpsc_recv [OF assms(1), of q]
  obtain res q' where r: "mpsc_poll_recv Q q False = (res, q')" by (cases "mpsc_poll_recv Q q False")
  show ?case
  proof (cases "mpsc_contents Q q")
    case Nil
    with r recv show ?thesis by simp
  next
    case (Cons item items)
    obtain ns b where item: "item = (ns, b)" by (cases item)
    from Cons r recv item have q': "res = Ready (Some (ns, b))" "mpsc_contents Q q' = items" by auto
    with Suc.prems Cons have "length (mpsc_contents Q q') < k" by simp
    from Suc.IH [OF this] r q' Cons item show ?thesis by simp
  qed
qed

text \<open>
  While requests keep coming, nothing is published: the queue takes what fits and drops the
  rest.
\<close>

definition is_incoming :: "tick \<Rightarrow> bool" where
  "is_incoming t = (case t of Incoming m c \<Rightarrow> True | Idle b \<Rightarrow> False)"

lemma take_append_one:
  "take k (xs @ x # ys) = take k (take k (xs @ [x]) @ ys)"
  by (cases "k - length xs") auto

lemma enqueue_contents:
  assumes "mpsc_laws Q" "length (mpsc_contents Q q) \<le> mpsc_capacity Q q"
  shows "mpsc_contents Q (enqueue Q q pub) =
      take (mpsc_capacity Q q) (mpsc_contents Q q @ (case pub of None \<Rightarrow> [] | Some i \<Rightarrow> [i]))"
    "mpsc_capacity Q (enqueue Q q pub) = mpsc_capacity Q q"
proof -
  show "mpsc_contents Q (enqueue Q q pub) =
      take (mpsc_capacity Q q) (mpsc_contents Q q @ (case pub of None \<Rightarrow> [] | Some i \<Rightarrow> [i]))"
  proof (cases pub)
    case None
    then show ?thesis using assms(2) by (simp add: enqueue_def)
  next
    case (Some i)
    show ?thesis
    proof (cases "mpsc_try_send Q q i")
      case None
      with mpsc_send(1) [OF assms(1) None] assms(2) Some show ?thesis by (simp add: enqueue_def)
    next
      case (Some q')
      with mpsc_send(2) [OF assms(1) Some] \<open>pub = Some i\<close> show ?thesis
        by (simp add: enqueue_def Suc_le_eq)
    qed
  qed
  show "mpsc_capacity Q (enqueue Q q pub) = mpsc_capacity Q q"
    using mpsc_send(2) [OF assms(1)] by (auto simp: enqueue_def split: option.split)
qed

lemma poll_loop_burst:
  assumes laws: "mpsc_laws Q"
    and "list_all is_incoming reqs"
    and "serve L J D reqs v = Some (v', resps, pubs)"
    and "length (mpsc_contents Q q) \<le> mpsc_capacity Q q"
  shows "\<exists>q'. poll_loop L J D Q lossy (reqs @ rest) v q out =
      poll_loop L J D Q lossy rest v' q' (out @ map Respond resps) \<and>
    mpsc_contents Q q' = take (mpsc_capacity Q q) (mpsc_contents Q q @ pubs) \<and>
    mpsc_capacity Q q' = mpsc_capacity Q q"
  using assms(2-)
proof (induction reqs arbitrary: v q out resps pubs)
  case Nil
  then show ?case by auto
next
  case (Cons t reqs)
  then obtain msg clock where t: "t = Incoming msg clock"
    by (auto simp: is_incoming_def split: tick.splits)
  show ?case
  proof (cases "request_from_slice J msg")
    case None
    with Cons t show ?thesis by simp
  next
    case (Some req)
    with Cons.prems t obtain w resp pub resps' pubs' where
      h: "handle_request L J D clock v req = Some (w, resp, pub)"
      and s: "serve L J D reqs w = Some (v', resps', pubs')"
      and resps: "resps = (case resp of None \<Rightarrow> resps' | Some b \<Rightarrow> b # resps')"
      and pubs: "pubs = (case pub of None \<Rightarrow> pubs' | Some i \<Rightarrow> i # pubs')"
      by (auto split: option.splits prod.splits)
    note enq = enqueue_contents [OF laws Cons.prems(3), of pub]
    have room: "length (mpsc_contents Q (enqueue Q q pub)) \<le> mpsc_capacity Q (enqueue Q q pub)"
      by (simp add: enq)
    have inc: "list_all is_incoming reqs" using Cons.prems(1) by simp
    from Cons.IH [OF inc s room, of "out @ respond_effects resp"] obtain q' where
      q': "poll_loop L J D Q lossy (reqs @ rest) w (enqueue Q q pub) (out @ respond_effects resp) =
        poll_loop L J D Q lossy rest v' q' ((out @ respond_effects resp) @ map Respond resps')"
      "mpsc_contents Q q' = take (mpsc_capacity Q q) (mpsc_contents Q (enqueue Q q pub) @ pubs')"
      "mpsc_capacity Q q' = mpsc_capacity Q q"
      by (auto simp: enq)
    have "take (mpsc_capacity Q q) (mpsc_contents Q (enqueue Q q pub) @ pubs') =
      take (mpsc_capacity Q q) (mpsc_contents Q q @ pubs)"
      unfolding enq(1) pubs using Cons.prems(3)
      by (cases pub) (simp_all del: take_append flip: take_append_one)
    moreover have "respond_effects resp @ map Respond resps' = map Respond resps"
      using resps by (simp add: respond_effects_def split: option.splits)
    ultimately show ?thesis using q' t Some h by auto
  qed
qed

text \<open>The reference never panics under the conditions of \<open>handle_request_total\<close>.\<close>

fun clocks_ok :: "tick list \<Rightarrow> bool" where
  "clocks_ok [] = True"
| "clocks_ok (Incoming m c # ts) = (0 \<le> c \<and> clocks_ok ts)"
| "clocks_ok (Idle b # ts) = clocks_ok ts"

lemma serve_total:
  assumes "clocks_ok ticks" "v_pub_addr v \<noteq> None"
  shows "\<exists>v' resps pubs. serve L J D ticks v = Some (v', resps, pubs)"
  using assms
proof (induction ticks arbitrary: v rule: clocks_ok.induct)
  case (2 msg clock ticks)
  show ?case
  proof (cases "request_from_slice J msg")
    case None
    with "2" show ?thesis by simp
  next
    case (Some req)
    have "0 \<le> clock" using "2.prems"(1) by simp
    from handle_request_total [OF this "2.prems"(2), of L J D req] obtain w resp pub
      where h: "handle_request L J D clock v req = Some (w, resp, pub)" by blast
    then have "v_pub_addr w \<noteq> None" using "2.prems"(2) handle_request_frame(2) [OF h] by simp
    moreover have "clocks_ok ticks" using "2.prems"(1) by simp
    ultimately obtain v' resps pubs where "serve L J D ticks w = Some (v', resps, pubs)"
      using "2.IH" [of w] by blast
    with h Some show ?thesis by simp
  qed
qed auto

context data_store
begin

lemma node_ok_serve:
  assumes "bls_correct L" "node_ok ok content L v" "serve L J D ticks v = Some (v', resps, pubs)"
  shows "node_ok ok content L v'"
  using assms(2,3)
proof (induction ticks arbitrary: v resps pubs rule: clocks_ok.induct)
  case (2 msg clock ticks)
  show ?case
  proof (cases "request_from_slice J msg")
    case None
    with "2" show ?thesis by simp
  next
    case (Some req)
    with "2.prems" obtain w resp pub resps' pubs' where
      h: "handle_request L J D clock v req = Some (w, resp, pub)"
      and s: "serve L J D ticks w = Some (v', resps', pubs')"
      by (auto split: option.splits prod.splits)
    from node_ok_handle [OF "2.prems"(1) assms(1) h] s show ?thesis by (rule "2.IH")
  qed
qed auto

lemma node_ok_poll:
  assumes "bls_correct L" "node_ok ok content L v" "poll L J D Q lossy ticks v = PollPending v' out"
  shows "node_ok ok content L v'"
  using poll_loop_serves [OF assms(3) [unfolded poll_def]] node_ok_serve [OF assms(1,2)] by blast

end

end
