(* ===== verification/ClientCore.thy ===== *)
theory ClientCore
  imports Wire
begin

text \<open>
  The client of \<^verbatim>\<open>src/client/client.rs\<close>: its state, connecting to a validator, and what the
  operations have in common. A request goes to every connected validator at once and the
  answers are handled in the order in which the futures complete, so every operation takes
  that order as an argument: a list with, for each validator, the reply, the error, or the
  timeout.
\<close>

section \<open>State\<close>

text \<open>The two hash maps; of a socket only its address matters.\<close>

record 'pk Client =
  validators :: "nat \<rightharpoonup> 'pk"
  validator_sockets :: "nat \<rightharpoonup> SocketAddr"

definition Client_new :: "'pk Client" where
  "Client_new = \<lparr>validators = Map.empty, validator_sockets = Map.empty\<rparr>"

text \<open>\<^verbatim>\<open>self.validators.len()\<close>.\<close>

definition validator_count :: "'pk Client \<Rightarrow> nat" where
  "validator_count self = card (dom (validators self))"

text \<open>
  \<^verbatim>\<open>connect_validator\<close>: \<open>lookup\<close> is \<^verbatim>\<open>lookup_host\<close> and \<open>connect\<close> the connection attempt
  (\<open>None\<close> on success). The client changes only when everything succeeded.
\<close>

definition connect_validator ::
  "('a \<Rightarrow> ReqError + SocketAddr list) \<Rightarrow> (SocketAddr \<Rightarrow> ReqError option) \<Rightarrow>
     'pk Client \<Rightarrow> 'pk ValidatorIdentity \<Rightarrow> 'a \<Rightarrow> (ReqError, 'pk Client) res" where
  "connect_validator lookup connect self validator addr =
     (case lookup addr of
        Inl e \<Rightarrow> Err e
      | Inr addrs \<Rightarrow>
          (case addrs of
             [] \<Rightarrow> Err IoInvalidInput
           | endpoint # _ \<Rightarrow>
               (case connect endpoint of
                  Some e \<Rightarrow> Err e
                | None \<Rightarrow>
                    Ok (self\<lparr>
                      validators := (validators self)(vi_index validator \<mapsto> vi_pubkey validator),
                      validator_sockets :=
                        (validator_sockets self)(vi_index validator \<mapsto> endpoint)\<rparr>))))"

text \<open>Every socket belongs to a known validator and conversely.\<close>

definition client_ok :: "'pk Client \<Rightarrow> bool" where
  "client_ok c \<longleftrightarrow> finite (dom (validators c)) \<and> dom (validator_sockets c) = dom (validators c)"

text \<open>The validator indices are \<open>0, \<dots>, n - 1\<close>, as the operations assume.\<close>

definition dense :: "'pk Client \<Rightarrow> bool" where
  "dense c \<longleftrightarrow> dom (validators c) = {..<validator_count c}"

lemma client_ok_new: "client_ok Client_new"
  by (simp add: client_ok_def Client_new_def)

lemma connect_validator_Ok:
  assumes "connect_validator lookup connect c v addr = Ok c'"
  shows "validators c' = (validators c)(vi_index v \<mapsto> vi_pubkey v)"
    "dom (validator_sockets c') = insert (vi_index v) (dom (validator_sockets c))"
  using assms by (auto simp: connect_validator_def split: sum.splits list.splits option.splits)

lemma client_ok_connect:
  "client_ok c \<Longrightarrow> connect_validator lookup connect c v addr = Ok c' \<Longrightarrow> client_ok c'"
  using connect_validator_Ok [of lookup connect c v addr c'] by (simp add: client_ok_def)

section \<open>Replies\<close>

datatype reply = Replied bytes | ReqFailed ReqError | TimedOut

type_synonym completion = "nat \<times> reply"

text \<open>
  The value of the future of one validator: \<^verbatim>\<open>Some((index, response))\<close>, or \<^verbatim>\<open>None\<close> when the
  request failed or timed out.
\<close>

fun future_value :: "completion \<Rightarrow> (nat \<times> bytes) option" where
  "future_value (i, Replied bs) = Some (i, bs)"
| "future_value (i, ReqFailed e) = None"
| "future_value (i, TimedOut) = None"

text \<open>The futures of all validators complete once each.\<close>

definition completion_order :: "'pk Client \<Rightarrow> completion list \<Rightarrow> bool" where
  "completion_order c cs \<longleftrightarrow> distinct (map fst cs) \<and> fst ` set cs = dom (validator_sockets c)"

text \<open>The replies the loops of the client can look at: those before the first failure.\<close>

definition replies :: "completion list \<Rightarrow> (nat \<times> bytes) list" where
  "replies cs = before_failure (map future_value cs)"

lemma future_value_Some: "future_value c = Some (i, bs) \<longleftrightarrow> c = (i, Replied bs)"
  by (cases c rule: future_value.cases) auto

lemma replies_simps [simp]:
  "replies [] = []"
  "replies ((i, Replied bs) # cs) = (i, bs) # replies cs"
  "replies ((i, ReqFailed e) # cs) = []"
  "replies ((i, TimedOut) # cs) = []"
  by (simp_all add: replies_def)

lemma set_replies: "(i, bs) \<in> set (replies cs) \<Longrightarrow> (i, Replied bs) \<in> set cs"
  by (auto simp: replies_def dest!: set_before_failure) (metis future_value_Some)

lemma distinct_replies: "distinct (map fst cs) \<Longrightarrow> distinct (map fst (replies cs))"
proof (induction cs)
  case (Cons c cs)
  obtain i r where c: "c = (i, r)" by (cases c)
  show ?case
  proof (cases r)
    case (Replied bs)
    have "i \<notin> fst ` set (replies cs)"
      using Cons.prems c by (force dest: set_replies)
    with Cons c Replied show ?thesis by auto
  qed (simp_all add: c)
qed simp

lemma replies_all: "replies (map (\<lambda>(i, bs). (i, Replied bs)) rs) = rs"
  by (induction rs) auto

lemma run_loop_replies:
  "run_loop body (map future_value cs) st = run_loop body (map Some (replies cs)) st"
  by (simp add: replies_def run_loop_before_failure)

text \<open>
  \<^verbatim>\<open>if let Some(q) = quorum_signature.as_mut()\<close>: the first signature starts the aggregate, a
  further one is added, and the \<^verbatim>\<open>unwrap\<close> panics when that fails.
\<close>

definition add_to_quorum ::
  "('sk, 'pk, 'sig, 'agg) lib \<Rightarrow> 'agg option \<Rightarrow> 'sig \<Rightarrow> 'agg option" where
  "add_to_quorum L q sig =
     (case q of
        None \<Rightarrow> Some (agg_from_signature L sig)
      | Some q \<Rightarrow> (case agg_add_signature L q sig False of Inl e \<Rightarrow> None | Inr q' \<Rightarrow> Some q'))"

lemma add_to_quorum_aggregate:
  assumes "ss = [] \<or> aggregate L ss \<noteq> None"
  shows "add_to_quorum L (aggregate L ss) s = aggregate L (ss @ [s])"
  using assms by (cases "ss = []") (auto simp: add_to_quorum_def aggregate_snoc)

lemma add_to_quorum_total: "agg_unchecked_total L \<Longrightarrow> \<exists>q'. add_to_quorum L q s = Some q'"
proof (cases q)
  case (Some a)
  assume "agg_unchecked_total L"
  then obtain a' where "agg_add_signature L a s False = Inr a'"
    unfolding agg_unchecked_total_def by blast
  with Some show ?thesis by (simp add: add_to_quorum_def)
qed (simp add: add_to_quorum_def)

text \<open>A selection from the replies keeps their order and their indices distinct.\<close>

fun select :: "(nat \<Rightarrow> 'r \<Rightarrow> 'v option) \<Rightarrow> (nat \<times> 'r) list \<Rightarrow> (nat \<times> 'v) list" where
  "select f [] = []"
| "select f ((i, r) # rs) = (case f i r of None \<Rightarrow> select f rs | Some v \<Rightarrow> (i, v) # select f rs)"

lemma select_append [simp]: "select f (rs @ rs') = select f rs @ select f rs'"
  by (induction f rs rule: select.induct) (auto split: option.split)

lemma set_select: "(i, v) \<in> set (select f rs) \<Longrightarrow> \<exists>r. (i, r) \<in> set rs \<and> f i r = Some v"
  by (induction f rs rule: select.induct) (auto split: option.splits)

lemma distinct_select: "distinct (map fst rs) \<Longrightarrow> distinct (map fst (select f rs))"
proof (induction rs)
  case (Cons r rs)
  obtain i x where "r = (i, x)" by (cases r)
  with Cons show ?case by (force split: option.split dest: set_select)
qed simp

lemma length_select_le: "length (select f rs) \<le> length rs"
proof (induction rs)
  case (Cons r rs)
  then show ?case by (cases r) (auto split: option.split)
qed simp

end
