(* ===== verification/ClientWrite.thy ===== *)
theory ClientWrite
  imports ClientCore
begin

text \<open>
  \<^verbatim>\<open>Client::write\<close>: broadcast a message, collect signed timestamps until a quorum, and
  certify. The loop is proved equal to a reference that says directly which replies count.
\<close>

section \<open>The operation\<close>

record 'agg write_state =
  ws_timestamps :: "Timestamp list"
  ws_quorum_signature :: "'agg option"
  ws_votes :: nat

definition write_init :: "'pk Client \<Rightarrow> 'agg write_state" where
  "write_init self =
     \<lparr>ws_timestamps = replicate (validator_count self) ts_default,
      ws_quorum_signature = None, ws_votes = 0\<rparr>"

text \<open>The body of the response loop, with its \<^verbatim>\<open>continue\<close>s in the order of the source.\<close>

fun write_step ::
  "('sk, 'pk, 'sig, 'agg) lib \<Rightarrow> 'sig json \<Rightarrow> 'pk Client \<Rightarrow> Namespace \<Rightarrow> Message \<Rightarrow>
     nat \<times> bytes \<Rightarrow> 'agg write_state \<Rightarrow> 'agg write_state step" where
  "write_step L J self namespace message (index, bytes) st =
     (case record_from_slice J bytes of
        None \<Rightarrow> Next st
      | Some record \<Rightarrow>
          (case validators self index of
             None \<Rightarrow> Crash
           | Some pubkey \<Rightarrow>
               if r_message record \<noteq> message then Next st
               else
                 let digest = Record_digest L record namespace in
                 if \<not> verify_signature L (r_signature record) pubkey digest then Next st
                 else
                   (case add_to_quorum L (ws_quorum_signature st) (r_signature record) of
                      None \<Rightarrow> Crash
                    | Some q \<Rightarrow>
                        let votes = ws_votes st + 1 in
                        if length (ws_timestamps st) \<le> index then Crash
                        else
                          let st' = st\<lparr>ws_quorum_signature := Some q, ws_votes := votes,
                            ws_timestamps := (ws_timestamps st)[index := r_timestamp record]\<rparr>
                          in if has_reached_quorum (validator_count self) votes then Stop st'
                             else Next st')))"

definition client_write ::
  "profile \<Rightarrow> ('sk, 'pk, 'sig, 'agg) lib \<Rightarrow> 'sig json \<Rightarrow> 'pk Client \<Rightarrow> Namespace \<Rightarrow> Message \<Rightarrow>
     completion list \<Rightarrow> (ClientError, 'agg CertifiedRecord) res" where
  "client_write p L J self namespace message completions =
     (case Request_serialize J (Write namespace message) of
        None \<Rightarrow> Panic
      | Some serialized_req \<Rightarrow>
          (case run_loop (write_step L J self namespace message) (map future_value completions)
                  (write_init self) of
             None \<Rightarrow> Panic
           | Some st \<Rightarrow>
               if \<not> has_reached_quorum (validator_count self) (ws_votes st)
               then Err (ClientWrite (WriteNoQuorum (ws_votes st) (validator_count self)))
               else
                 (case ws_quorum_signature st of
                    None \<Rightarrow> Panic
                  | Some quorum_signature \<Rightarrow>
                      map_ok snd
                        (case certified_timestamp p
                                \<lparr>cr_timestamps = ws_timestamps st, cr_message = message,
                                 cr_quorum_signature = quorum_signature\<rparr> of
                           None \<Rightarrow> Panic
                         | Some certified \<Rightarrow> Ok certified))))"

section \<open>Which replies count\<close>

text \<open>
  A reply is a vote when it parses as a record of the message written and its signature
  verifies under the key of the validator that sent it.
\<close>

definition write_vote ::
  "('sk, 'pk, 'sig, 'agg) lib \<Rightarrow> 'sig json \<Rightarrow> 'pk Client \<Rightarrow> Namespace \<Rightarrow> Message \<Rightarrow>
     nat \<Rightarrow> bytes \<Rightarrow> 'sig Record option" where
  "write_vote L J c ns m i bs =
     (case record_from_slice J bs of
        None \<Rightarrow> None
      | Some r \<Rightarrow>
          (case validators c i of
             None \<Rightarrow> None
           | Some pk \<Rightarrow>
               if r_message r = m \<and> verify_signature L (r_signature r) pk (Record_digest L r ns)
               then Some r else None))"

lemma write_vote_Some:
  "write_vote L J c ns m i bs = Some r \<longleftrightarrow>
     record_from_slice J bs = Some r \<and> r_message r = m \<and>
     (\<exists>pk. validators c i = Some pk \<and> verify_signature L (r_signature r) pk (Record_digest L r ns))"
  by (auto simp: write_vote_def split: option.splits)

text \<open>The timestamps and the signatures of a list of votes.\<close>

definition stamps :: "(nat \<times> 'sig Record) list \<Rightarrow> (nat \<times> Timestamp) list" where
  "stamps votes = map (\<lambda>(i, r). (i, r_timestamp r)) votes"

definition sigs :: "(nat \<times> 'sig Record) list \<Rightarrow> 'sig list" where
  "sigs votes = map (\<lambda>(i, r). r_signature r) votes"

lemma stamps_simps [simp]:
  "stamps [] = []" "stamps (vs @ ws) = stamps vs @ stamps ws" "length (stamps vs) = length vs"
  "stamps ((i, r) # vs) = (i, r_timestamp r) # stamps vs"
  by (simp_all add: stamps_def)

lemma sigs_simps [simp]:
  "sigs [] = []" "sigs (vs @ ws) = sigs vs @ sigs ws" "sigs vs = [] \<longleftrightarrow> vs = []"
  "sigs ((i, r) # vs) = r_signature r # sigs vs"
  by (simp_all add: sigs_def)

lemma fst_stamps [simp]: "map fst (stamps vs) = map fst vs"
  by (induction vs) auto

lemma fst_set_stamps [simp]: "fst ` set (stamps vs) = fst ` set vs"
  by (metis fst_stamps set_map)

lemma snd_stamps: "map snd (stamps vs) = map (r_timestamp \<circ> snd) vs"
  by (induction vs) auto

text \<open>One reply, as the loop sees it: not a vote, an unknown sender, or a vote.\<close>

lemma write_step_cases:
  shows "write_vote L J c ns m i bs = None \<Longrightarrow>
      write_step L J c ns m (i, bs) st = Next st \<or> write_step L J c ns m (i, bs) st = Crash"
    and "write_vote L J c ns m i bs = None \<Longrightarrow> validators c i \<noteq> None \<Longrightarrow>
      write_step L J c ns m (i, bs) st = Next st"
    and "write_vote L J c ns m i bs = Some r \<Longrightarrow>
      write_step L J c ns m (i, bs) st =
        (case add_to_quorum L (ws_quorum_signature st) (r_signature r) of
           None \<Rightarrow> Crash
         | Some q \<Rightarrow>
             if length (ws_timestamps st) \<le> i then Crash
             else (if has_reached_quorum (validator_count c) (Suc (ws_votes st)) then Stop else Next)
               (st\<lparr>ws_quorum_signature := Some q, ws_votes := Suc (ws_votes st),
                   ws_timestamps := (ws_timestamps st)[i := r_timestamp r]\<rparr>))"
  by (auto simp: write_vote_def Let_def split: option.splits if_splits)

declare write_step.simps [simp del]

section \<open>The state is a function of the votes\<close>

definition write_ghost ::
  "('sk, 'pk, 'sig, 'agg) lib \<Rightarrow> 'sig json \<Rightarrow> 'pk Client \<Rightarrow> Namespace \<Rightarrow> Message \<Rightarrow>
     (nat \<times> bytes) list \<Rightarrow> 'agg write_state \<Rightarrow> bool" where
  "write_ghost L J c ns m h st \<longleftrightarrow>
     (let votes = select (write_vote L J c ns m) h in
      ws_votes st = length votes \<and>
      ws_timestamps st = vote_array (validator_count c) (stamps votes) \<and>
      ws_quorum_signature st = aggregate L (sigs votes) \<and>
      (votes \<noteq> [] \<longrightarrow> aggregate L (sigs votes) \<noteq> None))"

lemma write_ghost_init: "write_ghost L J c ns m [] (write_init c)"
  by (simp add: write_ghost_def write_init_def)

lemma write_ghost_step:
  assumes g: "write_ghost L J c ns m h st"
    and s: "write_step L J c ns m r st = Next st' \<or> write_step L J c ns m r st = Stop st'"
  shows "write_ghost L J c ns m (h @ [r]) st'"
proof -
  obtain i bs where r: "r = (i, bs)" by (cases r)
  show ?thesis
  proof (cases "write_vote L J c ns m i bs")
    case None
    with write_step_cases(1) [OF None, of st] s r have "st' = st" by auto
    with g None r show ?thesis by (simp add: write_ghost_def)
  next
    case (Some x)
    let ?votes = "select (write_vote L J c ns m) h"
    have agg: "sigs ?votes = [] \<or> aggregate L (sigs ?votes) \<noteq> None"
      using g by (auto simp: write_ghost_def Let_def)
    from s r obtain q where q: "add_to_quorum L (ws_quorum_signature st) (r_signature x) = Some q"
      and st': "st' = st\<lparr>ws_quorum_signature := Some q, ws_votes := Suc (ws_votes st),
        ws_timestamps := (ws_timestamps st)[i := r_timestamp x]\<rparr>"
      by (auto simp: write_step_cases(3) [OF Some] split: option.splits if_splits)
    have "aggregate L (sigs ?votes @ [r_signature x]) = Some q"
      using q g add_to_quorum_aggregate [OF agg] by (simp add: write_ghost_def Let_def)
    with g Some r st' show ?thesis
      by (simp add: write_ghost_def Let_def vote_array_snoc)
  qed
qed

lemma write_step_Stop:
  "write_step L J c ns m r st = Stop st' \<Longrightarrow> has_reached_quorum (validator_count c) (ws_votes st')"
proof -
  assume s: "write_step L J c ns m r st = Stop st'"
  obtain i bs where r: "r = (i, bs)" by (cases r)
  with s write_step_cases(1) [of L J c ns m i bs st]
  obtain x where "write_vote L J c ns m i bs = Some x" by (cases "write_vote L J c ns m i bs") auto
  with s r show ?thesis by (auto simp: write_step_cases(3) split: option.splits if_splits)
qed

interpretation write_loop: breaking_loop "write_step L J c ns m" "write_ghost L J c ns m"
    "\<lambda>st. has_reached_quorum (validator_count c) (ws_votes st)"
  for L :: "('sk, 'pk, 'sig, 'agg) lib" and J c ns m
  by unfold_locales (blast intro: write_ghost_step, blast intro: write_ghost_step, rule write_step_Stop)

text \<open>A vote below the quorum is counted; the one that reaches the quorum ends the loop.\<close>

lemma write_step_counts:
  assumes "agg_unchecked_total L" "write_vote L J c ns m i bs = Some x" "i < validator_count c"
    and g: "write_ghost L J c ns m h st"
    and few: "length (select (write_vote L J c ns m) h) < quorum_threshold (validator_count c)"
  shows "\<exists>st'. write_step L J c ns m (i, bs) st =
      (if quorum_threshold (validator_count c) \<le> Suc (length (select (write_vote L J c ns m) h)) then Stop st' else Next st') \<and>
    write_ghost L J c ns m (h @ [(i, bs)]) st'"
proof -
  let ?v = "write_vote L J c ns m"
  obtain q where q: "add_to_quorum L (ws_quorum_signature st) (r_signature x) = Some q"
    using add_to_quorum_total [OF assms(1)] by blast
  define st' where "st' = st\<lparr>ws_quorum_signature := Some q, ws_votes := Suc (ws_votes st),
    ws_timestamps := (ws_timestamps st)[i := r_timestamp x]\<rparr>"
  have len: "length (ws_timestamps st) = validator_count c" "ws_votes st = length (select ?v h)"
    using g by (simp_all add: write_ghost_def Let_def)
  have "Suc (length (select ?v h)) \<le> validator_count c"
    using few quorum_threshold_le [of "validator_count c"] by simp
  then have step: "write_step L J c ns m (i, bs) st =
      (if quorum_threshold (validator_count c) \<le> Suc (length (select ?v h)) then Stop st' else Next st')"
    using q assms(3) by (simp add: write_step_cases(3) [OF assms(2)] len st'_def has_reached_quorum_iff)
  moreover have "write_ghost L J c ns m (h @ [(i, bs)]) st'"
    by (rule write_ghost_step [OF g]) (use step in \<open>auto split: if_splits\<close>)
  ultimately show ?thesis by blast
qed

text \<open>
  The loop never runs past the quorum: as long as no vote crashed it, it ends with the first
  \<open>quorum_threshold\<close> votes, or with all of them when there are fewer.
\<close>

lemma write_loop_exact:
  assumes "agg_unchecked_total L" and n: "validator_count c \<noteq> 0"
    and known: "\<forall>(i, bs) \<in> set rs. validators c i \<noteq> None \<and> i < validator_count c"
    and g: "write_ghost L J c ns m h st"
    and few: "length (select (write_vote L J c ns m) h) < quorum_threshold (validator_count c)"
  shows "\<exists>st' h'. run_loop (write_step L J c ns m) (map Some rs) st = Some st' \<and>
    write_ghost L J c ns m h' st' \<and>
    select (write_vote L J c ns m) h' =
      take (quorum_threshold (validator_count c)) (select (write_vote L J c ns m) (h @ rs))"
  using known g few
proof (induction rs arbitrary: h st)
  case Nil
  then show ?case by (intro exI [of _ st] exI [of _ h]) simp
next
  case (Cons r rs)
  let ?v = "write_vote L J c ns m" and ?q = "quorum_threshold (validator_count c)"
  obtain i bs where r: "r = (i, bs)" by (cases r)
  with Cons.prems have i: "validators c i \<noteq> None" "i < validator_count c" by auto
  have known: "\<forall>(i, bs) \<in> set rs. validators c i \<noteq> None \<and> i < validator_count c"
    using Cons.prems(1) by auto
  show ?case
  proof (cases "?v i bs")
    case None
    from write_step_cases(2) [OF None i(1), of st] have step: "write_step L J c ns m r st = Next st"
      by (simp add: r)
    have "write_ghost L J c ns m (h @ [r]) st"
      by (rule write_ghost_step [OF Cons.prems(2)]) (simp add: step)
    from Cons.IH [OF known this] Cons.prems(3) show ?thesis by (simp add: r None step [unfolded r])
  next
    case (Some x)
    from write_step_counts [OF assms(1) Some i(2) Cons.prems(2,3)] obtain st' where
      step: "write_step L J c ns m r st = (if ?q \<le> Suc (length (select ?v h)) then Stop st' else Next st')"
      and g': "write_ghost L J c ns m (h @ [r]) st'" by (auto simp: r)
    show ?thesis
    proof (cases "?q \<le> Suc (length (select ?v h))")
      case True
      with Cons.prems(3) have "?q = Suc (length (select ?v h))" by simp
      with True step g' r Some show ?thesis
        by (intro exI [of _ st'] exI [of _ "h @ [r]"]) simp
    next
      case False
      with step have "write_step L J c ns m r st = Next st'" by simp
      with Cons.IH [OF known g'] False show ?thesis by (simp add: r Some)
    qed
  qed
qed

section \<open>The result\<close>

text \<open>The certificate for a list of votes; \<open>Panic\<close> where aggregation or the median panics.\<close>

definition certify ::
  "profile \<Rightarrow> ('sk, 'pk, 'sig, 'agg) lib \<Rightarrow> nat \<Rightarrow> Message \<Rightarrow> (nat \<times> 'sig Record) list \<Rightarrow>
     (ClientError, 'agg CertifiedRecord) res" where
  "certify p L n m votes =
     (case aggregate L (sigs votes) of
        None \<Rightarrow> Panic
      | Some q \<Rightarrow>
          (case median_timestamp p (vote_array n (stamps votes)) of
             None \<Rightarrow> Panic
           | Some t \<Rightarrow>
               Ok \<lparr>cr_timestamps = sort (vote_array n (stamps votes)), cr_message = m,
                   cr_quorum_signature = q\<rparr>))"

text \<open>
  The reference: take the replies before the first failure, keep the votes, certify the first
  \<open>quorum_threshold\<close> of them, or report how many there were.
\<close>

definition write_spec ::
  "profile \<Rightarrow> ('sk, 'pk, 'sig, 'agg) lib \<Rightarrow> 'sig json \<Rightarrow> 'pk Client \<Rightarrow> Namespace \<Rightarrow> Message \<Rightarrow>
     completion list \<Rightarrow> (ClientError, 'agg CertifiedRecord) res" where
  "write_spec p L J c ns m cs =
     (let n = validator_count c; q = quorum_threshold n;
          votes = take q (select (write_vote L J c ns m) (replies cs))
      in if length votes < q then Err (ClientWrite (WriteNoQuorum (length votes) n))
         else certify p L n m votes)"

lemma client_write_finish:
  assumes req: "request_to_vec J (Write ns m) \<noteq> None"
    and run: "run_loop (write_step L J c ns m) (map future_value cs) (write_init c) = Some st"
    and g: "write_ghost L J c ns m h st"
  shows "client_write p L J c ns m cs =
    (let votes = select (write_vote L J c ns m) h in
     if has_reached_quorum (validator_count c) (length votes)
     then certify p L (validator_count c) m votes
     else Err (ClientWrite (WriteNoQuorum (length votes) (validator_count c))))"
proof -
  from req obtain bs where "request_to_vec J (Write ns m) = Some bs" by auto
  with run g show ?thesis
    by (simp add: client_write_def dato_defs write_ghost_def Let_def certify_def
        split: option.split)
qed

lemma client_write_eq_spec:
  assumes req: "request_to_vec J (Write ns m) \<noteq> None" and "agg_unchecked_total L"
    and n: "validator_count c \<noteq> 0"
    and known: "\<forall>(i, bs) \<in> set (replies cs). validators c i \<noteq> None \<and> i < validator_count c"
  shows "client_write p L J c ns m cs = write_spec p L J c ns m cs"
proof -
  have "length (select (write_vote L J c ns m) []) < quorum_threshold (validator_count c)"
    using n quorum_threshold_eq_0 [of "validator_count c"] by (simp del: quorum_threshold_eq_0)
  from write_loop_exact [OF assms(2) n known write_ghost_init this] obtain st h where
    run: "run_loop (write_step L J c ns m) (map future_value cs) (write_init c) = Some st"
    and g: "write_ghost L J c ns m h st"
    and votes: "select (write_vote L J c ns m) h =
      take (quorum_threshold (validator_count c)) (select (write_vote L J c ns m) (replies cs))"
    by (auto simp: run_loop_replies)
  let ?votes = "take (quorum_threshold (validator_count c)) (select (write_vote L J c ns m) (replies cs))"
  have "length ?votes \<le> validator_count c" using quorum_threshold_le [of "validator_count c"] by simp
  then have reached: "has_reached_quorum (validator_count c) (length ?votes) \<longleftrightarrow>
      \<not> length ?votes < quorum_threshold (validator_count c)"
    by (simp only: has_reached_quorum_iff not_less)
  show ?thesis
    unfolding client_write_finish [OF req run g] write_spec_def Let_def votes reached if_not_P
    by (simp only: if_not_P split: if_split) blast
qed

text \<open>
  Whatever the replies, a certificate that \<^verbatim>\<open>write\<close> returns comes from votes of distinct
  validators that form a quorum.
\<close>

lemma certify_Ok:
  "certify p L n m votes = Ok cert \<Longrightarrow>
     aggregate L (sigs votes) = Some (cr_quorum_signature cert) \<and>
     cr_timestamps cert = sort (vote_array n (stamps votes)) \<and> cr_message cert = m"
  by (auto simp: certify_def split: option.splits)

lemma client_write_Ok:
  assumes "client_write p L J c ns m cs = Ok cert"
  shows "\<exists>used rest. replies cs = used @ rest \<and>
    has_reached_quorum (validator_count c) (length (select (write_vote L J c ns m) used)) \<and>
    certify p L (validator_count c) m (select (write_vote L J c ns m) used) = Ok cert"
proof -
  from assms have req: "request_to_vec J (Write ns m) \<noteq> None"
    by (auto simp: client_write_def dato_defs split: option.splits)
  from assms obtain st where
    run: "run_loop (write_step L J c ns m) (map future_value cs) (write_init c) = Some st"
    by (auto simp: client_write_def split: option.splits)
  from write_loop.run_history [OF write_ghost_init run] obtain used rest where
    "replies cs = used @ rest" and g: "write_ghost L J c ns m used st"
    by (auto simp: replies_def)
  with assms show ?thesis
    by (auto simp: client_write_finish [OF req run g] Let_def split: if_splits)
qed

text \<open>
  An error is always a missing quorum, and counts the votes among all the replies before the
  first failure.
\<close>

lemma client_write_Err:
  assumes "client_write p L J c ns m cs = Err e"
  shows "e = ClientWrite (WriteNoQuorum
      (length (select (write_vote L J c ns m) (replies cs))) (validator_count c)) \<and>
    \<not> has_reached_quorum (validator_count c) (length (select (write_vote L J c ns m) (replies cs)))"
proof -
  from assms have req: "request_to_vec J (Write ns m) \<noteq> None"
    by (auto simp: client_write_def dato_defs split: option.splits)
  from assms obtain st where
    run: "run_loop (write_step L J c ns m) (map future_value cs) (write_init c) = Some st"
    by (auto simp: client_write_def split: option.splits)
  from write_loop.run_end [OF write_ghost_init run] obtain used rest where
    split: "replies cs = used @ rest" and g: "write_ghost L J c ns m used st"
    and fin: "rest = [] \<or> has_reached_quorum (validator_count c) (ws_votes st)"
    by (auto simp: replies_def)
  from g have "ws_votes st = length (select (write_vote L J c ns m) used)"
    by (simp add: write_ghost_def Let_def)
  with assms split fin show ?thesis
    by (auto simp: client_write_finish [OF req run g] Let_def certify_def split: if_splits option.splits)
qed

end
