(* ===== verification/ClientRead.thy ===== *)
theory ClientRead
  imports ClientWrite
begin

text \<open>
  The reading operations of the client: \<^verbatim>\<open>read_message\<close>, which certifies that a message is
  available or unavailable, \<^verbatim>\<open>read\<close>, which merges the logs of all validators, and
  \<^verbatim>\<open>read_certified\<close>, which reads a log and certifies each of its messages.
\<close>

section \<open>\<^verbatim>\<open>read_message\<close>\<close>

record 'agg read_state =
  rs_available_timestamps :: "Timestamp list"
  rs_unavailable_timestamps :: "Timestamp list"
  rs_available_quorum_signature :: "'agg option"
  rs_unavailable_quorum_signature :: "'agg option"
  rs_available_votes :: nat
  rs_unavailable_votes :: nat
  rs_message :: Message

definition read_init :: "'pk Client \<Rightarrow> 'agg read_state" where
  "read_init self =
     \<lparr>rs_available_timestamps = replicate (validator_count self) ts_default,
      rs_unavailable_timestamps = replicate (validator_count self) ts_default,
      rs_available_quorum_signature = None, rs_unavailable_quorum_signature = None,
      rs_available_votes = 0, rs_unavailable_votes = 0, rs_message = msg_default\<rparr>"

text \<open>The test at the end of the loop body.\<close>

definition read_decided :: "'pk Client \<Rightarrow> 'agg read_state \<Rightarrow> bool" where
  "read_decided self st \<longleftrightarrow>
     has_reached_quorum (validator_count self) (rs_available_votes st) \<or>
     has_reached_quorum (validator_count self) (rs_unavailable_votes st) \<or>
     rs_available_votes st + rs_unavailable_votes st \<ge> validator_count self"

definition read_check :: "'pk Client \<Rightarrow> 'agg read_state \<Rightarrow> 'agg read_state step" where
  "read_check self st = (if read_decided self st then Stop st else Next st)"

fun read_message_step ::
  "('sk, 'pk, 'sig, 'agg) lib \<Rightarrow> 'sig json \<Rightarrow> 'pk Client \<Rightarrow> Namespace \<Rightarrow> B256 \<Rightarrow>
     nat \<times> bytes \<Rightarrow> 'agg read_state \<Rightarrow> 'agg read_state step" where
  "read_message_step L J self namespace msg_id (index, bytes) st =
     (case message_response_from_slice J bytes of
        None \<Rightarrow> Next st
      | Some (Available record) \<Rightarrow>
          if Message_digest L (r_message record) namespace \<noteq> msg_id then Next st
          else
            let st = st\<lparr>rs_message := r_message record\<rparr> in
            (case validators self index of
               None \<Rightarrow> Crash
             | Some pubkey \<Rightarrow>
                 let digest = Record_digest L record namespace in
                 if \<not> verify_signature L (r_signature record) pubkey digest then Next st
                 else
                   (case add_to_quorum L (rs_available_quorum_signature st) (r_signature record) of
                      None \<Rightarrow> Crash
                    | Some q \<Rightarrow>
                        if length (rs_available_timestamps st) \<le> index then Crash
                        else read_check self
                          (st\<lparr>rs_available_quorum_signature := Some q,
                              rs_available_votes := rs_available_votes st + 1,
                              rs_available_timestamps :=
                                (rs_available_timestamps st)[index := r_timestamp record]\<rparr>)))
      | Some (Unavailable unavailable) \<Rightarrow>
          (case validators self index of
             None \<Rightarrow> Crash
           | Some pubkey \<Rightarrow>
               let digest = UnavailableMessage_digest L unavailable in
               if \<not> verify_signature L (um_signature unavailable) pubkey digest then Next st
               else
                 (case add_to_quorum L (rs_unavailable_quorum_signature st) (um_signature unavailable) of
                    None \<Rightarrow> Crash
                  | Some q \<Rightarrow>
                      if length (rs_unavailable_timestamps st) \<le> index then Crash
                      else read_check self
                        (st\<lparr>rs_unavailable_quorum_signature := Some q,
                            rs_unavailable_votes := rs_unavailable_votes st + 1,
                            rs_unavailable_timestamps :=
                              (rs_unavailable_timestamps st)[index := um_timestamp unavailable]\<rparr>))))"

definition client_read_message ::
  "profile \<Rightarrow> ('sk, 'pk, 'sig, 'agg) lib \<Rightarrow> 'sig json \<Rightarrow> 'pk Client \<Rightarrow> Namespace \<Rightarrow> B256 \<Rightarrow>
     completion list \<Rightarrow> (ClientError, 'agg CertifiedReadMessageResponse) res" where
  "client_read_message p L J self namespace msg_id completions =
     (case Request_serialize J (ReadMessage namespace msg_id) of
        None \<Rightarrow> Panic
      | Some serialized_req \<Rightarrow>
          (case run_loop (read_message_step L J self namespace msg_id) (map future_value completions)
                  (read_init self) of
             None \<Rightarrow> Panic
           | Some st \<Rightarrow>
               if has_reached_quorum (validator_count self) (rs_available_votes st) then
                 (case rs_available_quorum_signature st of
                    None \<Rightarrow> Panic
                  | Some q \<Rightarrow>
                      (case certified_timestamp p
                              \<lparr>cr_timestamps = rs_available_timestamps st, cr_message = rs_message st,
                               cr_quorum_signature = q\<rparr> of
                         None \<Rightarrow> Panic
                       | Some (timestamp, certified_record) \<Rightarrow> Ok (CertAvailable certified_record)))
               else if has_reached_quorum (validator_count self) (rs_unavailable_votes st) then
                 (case rs_unavailable_quorum_signature st of
                    None \<Rightarrow> Panic
                  | Some q \<Rightarrow>
                      (case certified_timestamp_unavailable p
                              \<lparr>cu_timestamps = rs_unavailable_timestamps st, cu_msg_id = msg_id,
                               cu_quorum_signature = q\<rparr> of
                         None \<Rightarrow> Panic
                       | Some (timestamp, certified_unavailable) \<Rightarrow>
                           Ok (CertUnavailable certified_unavailable)))
               else
                 Err (ClientRead (ReadNoQuorum (rs_available_votes st) (rs_unavailable_votes st)))))"

subsection \<open>Which replies count\<close>

definition available_vote ::
  "('sk, 'pk, 'sig, 'agg) lib \<Rightarrow> 'sig json \<Rightarrow> 'pk Client \<Rightarrow> Namespace \<Rightarrow> B256 \<Rightarrow>
     nat \<Rightarrow> bytes \<Rightarrow> 'sig Record option" where
  "available_vote L J c ns msg_id i bs =
     (case message_response_from_slice J bs of
        Some (Available r) \<Rightarrow>
          (case validators c i of
             None \<Rightarrow> None
           | Some pk \<Rightarrow>
               if Message_digest L (r_message r) ns = msg_id \<and>
                  verify_signature L (r_signature r) pk (Record_digest L r ns)
               then Some r else None)
      | _ \<Rightarrow> None)"

definition unavailable_vote ::
  "('sk, 'pk, 'sig, 'agg) lib \<Rightarrow> 'sig json \<Rightarrow> 'pk Client \<Rightarrow> nat \<Rightarrow> bytes \<Rightarrow>
     'sig UnavailableMessage option" where
  "unavailable_vote L J c i bs =
     (case message_response_from_slice J bs of
        Some (Unavailable u) \<Rightarrow>
          (case validators c i of
             None \<Rightarrow> None
           | Some pk \<Rightarrow>
               if verify_signature L (um_signature u) pk (UnavailableMessage_digest L u)
               then Some u else None)
      | _ \<Rightarrow> None)"

lemma available_vote_Some:
  "available_vote L J c ns msg_id i bs = Some r \<longleftrightarrow>
     message_response_from_slice J bs = Some (Available r) \<and>
     Message_digest L (r_message r) ns = msg_id \<and>
     (\<exists>pk. validators c i = Some pk \<and> verify_signature L (r_signature r) pk (Record_digest L r ns))"
  by (auto simp: available_vote_def split: option.splits ReadMessageResponse.splits)

lemma unavailable_vote_Some:
  "unavailable_vote L J c i bs = Some u \<longleftrightarrow>
     message_response_from_slice J bs = Some (Unavailable u) \<and>
     (\<exists>pk. validators c i = Some pk \<and>
        verify_signature L (um_signature u) pk (UnavailableMessage_digest L u))"
  by (auto simp: unavailable_vote_def split: option.splits ReadMessageResponse.splits)

lemma vote_exclusive:
  "available_vote L J c ns msg_id i bs = Some r \<Longrightarrow> unavailable_vote L J c i bs = None"
  by (auto simp: available_vote_Some unavailable_vote_def split: option.splits)

definition u_stamps :: "(nat \<times> 'sig UnavailableMessage) list \<Rightarrow> (nat \<times> Timestamp) list" where
  "u_stamps votes = map (\<lambda>(i, u). (i, um_timestamp u)) votes"

definition u_sigs :: "(nat \<times> 'sig UnavailableMessage) list \<Rightarrow> 'sig list" where
  "u_sigs votes = map (\<lambda>(i, u). um_signature u) votes"

lemma u_stamps_simps [simp]:
  "u_stamps [] = []" "u_stamps (vs @ ws) = u_stamps vs @ u_stamps ws"
  "length (u_stamps vs) = length vs" "u_stamps ((i, u) # vs) = (i, um_timestamp u) # u_stamps vs"
  by (simp_all add: u_stamps_def)

lemma u_sigs_simps [simp]:
  "u_sigs [] = []" "u_sigs (vs @ ws) = u_sigs vs @ u_sigs ws" "u_sigs vs = [] \<longleftrightarrow> vs = []"
  "u_sigs ((i, u) # vs) = um_signature u # u_sigs vs"
  by (simp_all add: u_sigs_def)

lemma fst_u_stamps [simp]: "map fst (u_stamps vs) = map fst vs"
  by (induction vs) auto

text \<open>
  One reply, as the loop sees it: it counts for neither side (then at most the message field
  changes, to a message with the requested digest), or for exactly one.
\<close>

lemma read_step_none:
  assumes "available_vote L J c ns i k bs = None" "unavailable_vote L J c k bs = None"
    and "read_message_step L J c ns i (k, bs) st = s"
  shows "s = Crash \<and> validators c k = None \<or> s = Next st \<or>
    (\<exists>m. Message_digest L m ns = i \<and> s = Next (st\<lparr>rs_message := m\<rparr>))"
  using assms
  by (auto simp: available_vote_def unavailable_vote_def Let_def
      split: option.splits ReadMessageResponse.splits if_splits)

lemma read_step_available:
  assumes "available_vote L J c ns i k bs = Some r"
  shows "read_message_step L J c ns i (k, bs) st =
    (case add_to_quorum L (rs_available_quorum_signature st) (r_signature r) of
       None \<Rightarrow> Crash
     | Some q \<Rightarrow>
         if length (rs_available_timestamps st) \<le> k then Crash
         else read_check c
           (st\<lparr>rs_message := r_message r, rs_available_quorum_signature := Some q,
               rs_available_votes := Suc (rs_available_votes st),
               rs_available_timestamps := (rs_available_timestamps st)[k := r_timestamp r]\<rparr>))"
  using assms by (auto simp: available_vote_Some Let_def split: option.split)

lemma read_step_unavailable:
  assumes "unavailable_vote L J c k bs = Some u"
  shows "read_message_step L J c ns i (k, bs) st =
    (case add_to_quorum L (rs_unavailable_quorum_signature st) (um_signature u) of
       None \<Rightarrow> Crash
     | Some q \<Rightarrow>
         if length (rs_unavailable_timestamps st) \<le> k then Crash
         else read_check c
           (st\<lparr>rs_unavailable_quorum_signature := Some q,
               rs_unavailable_votes := Suc (rs_unavailable_votes st),
               rs_unavailable_timestamps := (rs_unavailable_timestamps st)[k := um_timestamp u]\<rparr>))"
  using assms by (auto simp: unavailable_vote_Some Let_def split: option.split)

declare read_message_step.simps [simp del]

subsection \<open>The state is a function of the votes\<close>

definition read_ghost ::
  "('sk, 'pk, 'sig, 'agg) lib \<Rightarrow> 'sig json \<Rightarrow> 'pk Client \<Rightarrow> Namespace \<Rightarrow> B256 \<Rightarrow>
     (nat \<times> bytes) list \<Rightarrow> 'agg read_state \<Rightarrow> bool" where
  "read_ghost L J c ns i h st \<longleftrightarrow>
     (let av = select (available_vote L J c ns i) h; uv = select (unavailable_vote L J c) h in
      rs_available_votes st = length av \<and>
      rs_available_timestamps st = vote_array (validator_count c) (stamps av) \<and>
      rs_available_quorum_signature st = aggregate L (sigs av) \<and>
      (av \<noteq> [] \<longrightarrow> aggregate L (sigs av) \<noteq> None \<and> Message_digest L (rs_message st) ns = i) \<and>
      rs_unavailable_votes st = length uv \<and>
      rs_unavailable_timestamps st = vote_array (validator_count c) (u_stamps uv) \<and>
      rs_unavailable_quorum_signature st = aggregate L (u_sigs uv) \<and>
      (uv \<noteq> [] \<longrightarrow> aggregate L (u_sigs uv) \<noteq> None))"

lemma read_ghost_init: "read_ghost L J c ns i [] (read_init c)"
  by (simp add: read_ghost_def read_init_def)

lemma read_check_eq: "read_check c s = Next st \<or> read_check c s = Stop st \<longleftrightarrow> st = s"
  by (auto simp: read_check_def)

lemma read_ghost_step:
  assumes g: "read_ghost L J c ns i h st"
    and s: "read_message_step L J c ns i r st = Next st' \<or> read_message_step L J c ns i r st = Stop st'"
  shows "read_ghost L J c ns i (h @ [r]) st'"
proof -
  obtain k bs where r: "r = (k, bs)" by (cases r)
  let ?av = "select (available_vote L J c ns i) h" and ?uv = "select (unavailable_vote L J c) h"
  consider (none) "available_vote L J c ns i k bs = None" "unavailable_vote L J c k bs = None"
    | (av) x where "available_vote L J c ns i k bs = Some x"
    | (uv) u where "unavailable_vote L J c k bs = Some u"
    by fastforce
  then show ?thesis
  proof cases
    case none
    from read_step_none [OF none, of st] s r
    have "st' = st \<or> (\<exists>m. Message_digest L m ns = i \<and> st' = st\<lparr>rs_message := m\<rparr>)" by auto
    with g none r show ?thesis by (auto simp: read_ghost_def Let_def)
  next
    case av
    have agg: "sigs ?av = [] \<or> aggregate L (sigs ?av) \<noteq> None"
      using g by (auto simp: read_ghost_def Let_def)
    from s r av obtain q where q: "add_to_quorum L (rs_available_quorum_signature st) (r_signature x) = Some q"
      and st': "st' = st\<lparr>rs_message := r_message x, rs_available_quorum_signature := Some q,
               rs_available_votes := Suc (rs_available_votes st),
               rs_available_timestamps := (rs_available_timestamps st)[k := r_timestamp x]\<rparr>"
      by (auto simp: read_step_available [OF av] read_check_eq split: option.splits if_splits)
    have "aggregate L (sigs ?av @ [r_signature x]) = Some q"
      using q g add_to_quorum_aggregate [OF agg] by (simp add: read_ghost_def Let_def)
    moreover have "Message_digest L (r_message x) ns = i" using av by (simp add: available_vote_Some)
    ultimately show ?thesis
      using g av vote_exclusive [OF av] r st'
      by (simp add: read_ghost_def Let_def vote_array_snoc)
  next
    case uv
    have agg: "u_sigs ?uv = [] \<or> aggregate L (u_sigs ?uv) \<noteq> None"
      using g by (auto simp: read_ghost_def Let_def)
    have nav: "available_vote L J c ns i k bs = None"
      using uv vote_exclusive [of L J c ns i k bs] by (cases "available_vote L J c ns i k bs") auto
    from s r uv obtain q where q: "add_to_quorum L (rs_unavailable_quorum_signature st) (um_signature u) = Some q"
      and st': "st' = st\<lparr>rs_unavailable_quorum_signature := Some q,
               rs_unavailable_votes := Suc (rs_unavailable_votes st),
               rs_unavailable_timestamps := (rs_unavailable_timestamps st)[k := um_timestamp u]\<rparr>"
      by (auto simp: read_step_unavailable [OF uv] read_check_eq split: option.splits if_splits)
    have "aggregate L (u_sigs ?uv @ [um_signature u]) = Some q"
      using q g add_to_quorum_aggregate [OF agg] by (simp add: read_ghost_def Let_def)
    with g uv nav r st' show ?thesis
      by (simp add: read_ghost_def Let_def vote_array_snoc)
  qed
qed

lemma read_step_Stop:
  assumes "read_message_step L J c ns i r st = Stop st'"
  shows "read_decided c st'"
proof -
  obtain k bs where r: "r = (k, bs)" by (cases r)
  consider (none) "available_vote L J c ns i k bs = None" "unavailable_vote L J c k bs = None"
    | (av) x where "available_vote L J c ns i k bs = Some x"
    | (uv) u where "unavailable_vote L J c k bs = Some u"
    by fastforce
  then show ?thesis
  proof cases
    case none
    from read_step_none [OF none, of st] assms r show ?thesis by auto
  qed (use assms r in \<open>auto simp: read_step_available read_step_unavailable read_check_def
      split: option.splits if_splits\<close>)
qed

interpretation read_loop: breaking_loop "read_message_step L J c ns i" "read_ghost L J c ns i" "read_decided c"
  for L :: "('sk, 'pk, 'sig, 'agg) lib" and J c ns i
  by unfold_locales (blast intro: read_ghost_step, blast intro: read_ghost_step, rule read_step_Stop)

subsection \<open>The result\<close>

text \<open>The result computed from the votes of both sides and the message last accepted.\<close>

definition read_outcome ::
  "profile \<Rightarrow> ('sk, 'pk, 'sig, 'agg) lib \<Rightarrow> nat \<Rightarrow> B256 \<Rightarrow> Message \<Rightarrow> (nat \<times> 'sig Record) list \<Rightarrow>
     (nat \<times> 'sig UnavailableMessage) list \<Rightarrow> (ClientError, 'agg CertifiedReadMessageResponse) res" where
  "read_outcome p L n i m av uv =
     (if has_reached_quorum n (length av) then
        (case (aggregate L (sigs av), median_timestamp p (vote_array n (stamps av))) of
           (Some q, Some t) \<Rightarrow>
             Ok (CertAvailable \<lparr>cr_timestamps = sort (vote_array n (stamps av)), cr_message = m,
                 cr_quorum_signature = q\<rparr>)
         | _ \<Rightarrow> Panic)
      else if has_reached_quorum n (length uv) then
        (case (aggregate L (u_sigs uv), median_timestamp p (vote_array n (u_stamps uv))) of
           (Some q, Some t) \<Rightarrow>
             Ok (CertUnavailable \<lparr>cu_timestamps = sort (vote_array n (u_stamps uv)), cu_msg_id = i,
                 cu_quorum_signature = q\<rparr>)
         | _ \<Rightarrow> Panic)
      else Err (ClientRead (ReadNoQuorum (length av) (length uv))))"

lemma client_read_message_finish:
  assumes req: "request_to_vec J (ReadMessage ns i) \<noteq> None"
    and run: "run_loop (read_message_step L J c ns i) (map future_value cs) (read_init c) = Some st"
    and g: "read_ghost L J c ns i h st"
  shows "client_read_message p L J c ns i cs =
    read_outcome p L (validator_count c) i (rs_message st)
      (select (available_vote L J c ns i) h) (select (unavailable_vote L J c) h)"
proof -
  from req obtain bs where "request_to_vec J (ReadMessage ns i) = Some bs" by auto
  with run g show ?thesis
    by (simp add: client_read_message_def dato_defs read_ghost_def Let_def
        read_outcome_def
        split: option.split)
qed

text \<open>
  Every outcome but a panic comes from a prefix of the replies, which is all of them unless
  the loop had decided.
\<close>

lemma client_read_message_result:
  assumes res: "client_read_message p L J c ns i cs \<noteq> Panic"
  shows "\<exists>used rest m. replies cs = used @ rest \<and>
    (let av = select (available_vote L J c ns i) used; uv = select (unavailable_vote L J c) used;
         n = validator_count c in
     client_read_message p L J c ns i cs = read_outcome p L n i m av uv \<and>
     (av \<noteq> [] \<longrightarrow> Message_digest L m ns = i) \<and>
     (rest = [] \<or> has_reached_quorum n (length av) \<or> has_reached_quorum n (length uv) \<or>
        n \<le> length av + length uv))"
proof -
  from res have req: "request_to_vec J (ReadMessage ns i) \<noteq> None"
    by (auto simp: client_read_message_def dato_defs split: option.splits)
  from res obtain st where
    run: "run_loop (read_message_step L J c ns i) (map future_value cs) (read_init c) = Some st"
    by (auto simp: client_read_message_def split: option.splits)
  from read_loop.run_end [OF read_ghost_init run] obtain used rest where
    split: "replies cs = used @ rest" and g: "read_ghost L J c ns i used st"
    and fin: "rest = [] \<or> read_decided c st"
    by (auto simp: replies_def)
  from g fin have fin': "rest = [] \<or>
      has_reached_quorum (validator_count c) (length (select (available_vote L J c ns i) used)) \<or>
      has_reached_quorum (validator_count c) (length (select (unavailable_vote L J c) used)) \<or>
      validator_count c \<le> length (select (available_vote L J c ns i) used) +
        length (select (unavailable_vote L J c) used)"
    by (simp add: read_ghost_def Let_def read_decided_def)
  from g have "select (available_vote L J c ns i) used \<noteq> [] \<longrightarrow> Message_digest L (rs_message st) ns = i"
    by (simp add: read_ghost_def Let_def)
  with split fin' client_read_message_finish [OF req run g] show ?thesis
    by (intro exI [of _ used] exI [of _ rest] exI [of _ "rs_message st"]) (simp add: Let_def)
qed

text \<open>The loop does not panic when every sender is a known validator with an index in range.\<close>

lemma read_message_step_no_crash:
  assumes "agg_unchecked_total L" and g: "read_ghost L J c ns i h st"
    and k: "validators c k \<noteq> None" "k < validator_count c"
  shows "read_message_step L J c ns i (k, bs) st \<noteq> Crash"
proof -
  have len: "length (rs_available_timestamps st) = validator_count c"
    "length (rs_unavailable_timestamps st) = validator_count c"
    using g by (simp_all add: read_ghost_def Let_def)
  consider (none) "available_vote L J c ns i k bs = None" "unavailable_vote L J c k bs = None"
    | (av) x where "available_vote L J c ns i k bs = Some x"
    | (uv) u where "unavailable_vote L J c k bs = Some u"
    by fastforce
  then show ?thesis
  proof cases
    case none
    from read_step_none [OF none, of st] k show ?thesis by auto
  next
    case av
    obtain q where "add_to_quorum L (rs_available_quorum_signature st) (r_signature x) = Some q"
      using add_to_quorum_total [OF assms(1)] by blast
    then show ?thesis using k len by (simp add: read_step_available [OF av] read_check_def)
  next
    case uv
    obtain q where "add_to_quorum L (rs_unavailable_quorum_signature st) (um_signature u) = Some q"
      using add_to_quorum_total [OF assms(1)] by blast
    then show ?thesis using k len by (simp add: read_step_unavailable [OF uv] read_check_def)
  qed
qed

lemma read_loop_total:
  assumes "agg_unchecked_total L" and "read_ghost L J c ns i h st"
    and "\<forall>(k, bs) \<in> set rs. validators c k \<noteq> None \<and> k < validator_count c"
  shows "\<exists>st'. run_loop (read_message_step L J c ns i) (map Some rs) st = Some st'"
  using assms(2,3)
proof (induction rs arbitrary: h st)
  case (Cons r rs)
  obtain k bs where r: "r = (k, bs)" by (cases r)
  with Cons.prems have k: "validators c k \<noteq> None" "k < validator_count c" by auto
  show ?case
  proof (cases "read_message_step L J c ns i r st")
    case (Next s)
    then have "read_ghost L J c ns i (h @ [r]) s" by (intro read_ghost_step [OF Cons.prems(1)]) simp
    from Cons.IH [OF this] Cons.prems(2) Next show ?thesis by simp
  next
    case Crash
    with read_message_step_no_crash [OF assms(1) Cons.prems(1) k] r show ?thesis by simp
  qed simp
qed simp

text \<open>Under \<^verbatim>\<open>release\<close>, then, \<^verbatim>\<open>read_message\<close> does not panic for a client with a validator.\<close>

lemma read_outcome_no_panic:
  assumes "agg_unchecked_total L" "n \<noteq> 0"
  shows "read_outcome Release L n i m av uv \<noteq> Panic"
proof -
  have med: "\<exists>t. median_timestamp Release (vote_array n vs) = Some t" for vs
    by (rule median_timestamp_Release) (metis assms(2) length_vote_array list.size(3))
  have "av \<noteq> [] \<Longrightarrow> \<exists>q. aggregate L (sigs av) = Some q" "uv \<noteq> [] \<Longrightarrow> \<exists>q. aggregate L (u_sigs uv) = Some q"
    using aggregate_total [OF assms(1)] by simp_all
  moreover have "\<not> has_reached_quorum n 0"
    using assms(2) quorum_threshold_least [of n 0] by auto
  ultimately show ?thesis
    using med [of "stamps av"] med [of "u_stamps uv"]
    by (cases "av = []"; cases "uv = []") (auto simp: read_outcome_def)
qed

lemma client_read_message_no_panic:
  assumes "agg_unchecked_total L" "request_to_vec J (ReadMessage ns i) \<noteq> None"
    and n: "validator_count c \<noteq> 0"
    and "\<forall>(k, bs) \<in> set (replies cs). validators c k \<noteq> None \<and> k < validator_count c"
  shows "client_read_message Release L J c ns i cs \<noteq> Panic"
proof -
  from read_loop_total [OF assms(1) read_ghost_init [of L J c ns i] assms(4)] obtain st where
    run: "run_loop (read_message_step L J c ns i) (map future_value cs) (read_init c) = Some st"
    unfolding run_loop_replies by blast
  from read_loop.run_end [OF read_ghost_init run] obtain h where "read_ghost L J c ns i h st" by blast
  with client_read_message_finish [OF assms(2) run] read_outcome_no_panic [OF assms(1) n]
  show ?thesis by metis
qed

section \<open>\<^verbatim>\<open>read\<close>\<close>

text \<open>
  The task that checks a log: it stops at the first bad signature and then gives nothing.
\<close>

fun verify_records ::
  "('sk, 'pk, 'sig, 'agg) lib \<Rightarrow> Namespace \<Rightarrow> 'pk \<Rightarrow> 'sig Record list \<Rightarrow> bool" where
  "verify_records L namespace pubkey [] = True"
| "verify_records L namespace pubkey (record # records) =
     (if \<not> verify_signature L (r_signature record) pubkey (Record_digest L record namespace) then False
      else verify_records L namespace pubkey records)"

definition verify_task ::
  "('sk, 'pk, 'sig, 'agg) lib \<Rightarrow> Namespace \<Rightarrow> 'pk \<Rightarrow> 'sig Log \<Rightarrow> 'sig Log option" where
  "verify_task L namespace pubkey log =
     (if verify_records L namespace pubkey (log_records log) then Some log else None)"

text \<open>The first loop spawns one task per log that parses; the state is the tasks' values.\<close>

fun read_step ::
  "('sk, 'pk, 'sig, 'agg) lib \<Rightarrow> 'sig json \<Rightarrow> 'pk Client \<Rightarrow> Namespace \<Rightarrow> nat \<times> bytes \<Rightarrow>
     'sig Log option list \<Rightarrow> 'sig Log option list step" where
  "read_step L J self namespace (index, bytes) tasks =
     (case log_from_slice J bytes of
        None \<Rightarrow> Next tasks
      | Some log \<Rightarrow>
          (case validators self index of
             None \<Rightarrow> Crash
           | Some pubkey \<Rightarrow> Next (tasks @ [verify_task L namespace pubkey log])))"

text \<open>
  The second loop, \<^verbatim>\<open>while let Some(Ok(Some(log))) = verify_tasks.join_next().await\<close>, over
  the tasks in the order they finish: it ends at the first task without a log.
\<close>

fun merge_logs :: "'sig Log option list \<Rightarrow> 'sig Log option \<Rightarrow> 'sig Log option" where
  "merge_logs [] final_log = final_log"
| "merge_logs (None # tasks) final_log = final_log"
| "merge_logs (Some log # tasks) final_log =
     (case final_log of
        Some first \<Rightarrow> merge_logs tasks (Some (Log_extend first log))
      | None \<Rightarrow> merge_logs tasks (Some log))"

text \<open>\<open>order n\<close> is the order in which \<open>n\<close> tasks finish, a permutation of \<open>0, \<dots>, n - 1\<close>.\<close>

definition client_read ::
  "('sk, 'pk, 'sig, 'agg) lib \<Rightarrow> 'sig json \<Rightarrow> 'pk Client \<Rightarrow> Namespace \<Rightarrow> Timestamp \<Rightarrow> Timestamp \<Rightarrow>
     completion list \<Rightarrow> (nat \<Rightarrow> nat list) \<Rightarrow> (ClientError, 'sig Log) res" where
  "client_read L J self namespace start end' completions order =
     (case Request_serialize J (ReadRange namespace start end') of
        None \<Rightarrow> Panic
      | Some serialized_req \<Rightarrow>
          (case run_loop (read_step L J self namespace) (map future_value completions) [] of
             None \<Rightarrow> Panic
           | Some tasks \<Rightarrow>
               (let joined = map (\<lambda>k. tasks ! k) (order (length tasks));
                    final_log = (case merge_logs joined None of None \<Rightarrow> Log_default | Some log \<Rightarrow> log)
                in Ok (final_log\<lparr>log_records := sort_key r_timestamp (log_records final_log)\<rparr>))))"

definition task_order :: "(nat \<Rightarrow> nat list) \<Rightarrow> bool" where
  "task_order order \<longleftrightarrow> (\<forall>n. mset (order n) = mset [0..<n])"

lemma verify_records_all:
  "verify_records L ns pk rs \<longleftrightarrow>
     (\<forall>r\<in>set rs. verify_signature L (r_signature r) pk (Record_digest L r ns))"
  by (induction rs) auto

text \<open>The records of the logs before the first failed task.\<close>

definition log_prefix :: "'sig Log option list \<Rightarrow> 'sig Record list" where
  "log_prefix tasks = concat (map log_records (before_failure tasks))"

lemma merge_logs_Some:
  "merge_logs tasks (Some acc) = Some (acc\<lparr>log_records := log_records acc @ log_prefix tasks\<rparr>)"
  by (induction tasks arbitrary: acc rule: before_failure.induct)
    (auto simp: log_prefix_def Log_extend_def)

lemma merge_logs_None:
  "(case merge_logs tasks None of None \<Rightarrow> Log_default | Some log \<Rightarrow> log) = \<lparr>log_records = log_prefix tasks\<rparr>"
  by (cases tasks rule: before_failure.cases)
    (auto simp: log_prefix_def Log_default_def merge_logs_Some)

text \<open>The tasks the first loop spawns.\<close>

definition task_of ::
  "('sk, 'pk, 'sig, 'agg) lib \<Rightarrow> 'sig json \<Rightarrow> 'pk Client \<Rightarrow> Namespace \<Rightarrow> nat \<Rightarrow> bytes \<Rightarrow>
     'sig Log option option" where
  "task_of L J c ns i bs =
     (case log_from_slice J bs of
        None \<Rightarrow> None
      | Some log \<Rightarrow> map_option (\<lambda>pk. verify_task L ns pk log) (validators c i))"

lemma read_step_loop:
  assumes "run_loop (read_step L J c ns) (map Some rs) tasks = Some tasks'"
  shows "tasks' = tasks @ map snd (select (task_of L J c ns) rs)"
  using assms
proof (induction rs arbitrary: tasks)
  case (Cons r rs)
  obtain i bs where r: "r = (i, bs)" by (cases r)
  show ?case
  proof (cases "log_from_slice J bs")
    case None
    then have "task_of L J c ns i bs = None" by (simp add: task_of_def)
    with None Cons.prems Cons.IH show ?thesis by (simp add: r)
  next
    case (Some log)
    with Cons.prems r obtain pk where pk: "validators c i = Some pk" by (auto split: option.splits)
    with Some have "task_of L J c ns i bs = Some (verify_task L ns pk log)" by (simp add: task_of_def)
    moreover have "tasks' = (tasks @ [verify_task L ns pk log]) @ map snd (select (task_of L J c ns) rs)"
      using Cons.prems Some pk by (intro Cons.IH) (simp add: r)
    ultimately show ?thesis by (simp add: r)
  qed
qed simp

lemma read_step_total:
  assumes "\<forall>(i, bs) \<in> set rs. validators c i \<noteq> None"
  shows "\<exists>tasks'. run_loop (read_step L J c ns) (map Some rs) tasks = Some tasks'"
  using assms
proof (induction rs arbitrary: tasks)
  case (Cons r rs)
  then show ?case by (cases r) (auto split: option.splits)
qed simp

text \<open>The result of \<^verbatim>\<open>read\<close>, as a function of the replies and the order of the tasks.\<close>

definition read_tasks ::
  "('sk, 'pk, 'sig, 'agg) lib \<Rightarrow> 'sig json \<Rightarrow> 'pk Client \<Rightarrow> Namespace \<Rightarrow> completion list \<Rightarrow>
     (nat \<Rightarrow> nat list) \<Rightarrow> 'sig Log option list" where
  "read_tasks L J c ns cs order =
     (let tasks = map snd (select (task_of L J c ns) (replies cs))
      in map (\<lambda>k. tasks ! k) (order (length tasks)))"

lemma client_read_Ok:
  assumes "client_read L J c ns a b cs order = Ok log"
  shows "log_records log = sort_key r_timestamp (log_prefix (read_tasks L J c ns cs order))"
proof -
  from assms obtain tasks where
    run: "run_loop (read_step L J c ns) (map future_value cs) [] = Some tasks"
    and log: "log = (let f = (case merge_logs (map (\<lambda>k. tasks ! k) (order (length tasks))) None of
        None \<Rightarrow> Log_default | Some log \<Rightarrow> log) in f\<lparr>log_records := sort_key r_timestamp (log_records f)\<rparr>)"
    by (auto simp: client_read_def Let_def split: option.splits)
  from run have "tasks = map snd (select (task_of L J c ns) (replies cs))"
    by (auto simp: run_loop_replies dest: read_step_loop)
  with log show ?thesis by (simp add: merge_logs_None Let_def read_tasks_def)
qed

lemma client_read_total:
  assumes "request_to_vec J (ReadRange ns a b) \<noteq> None"
    and "\<forall>(i, bs) \<in> set (replies cs). validators c i \<noteq> None"
  shows "\<exists>log. client_read L J c ns a b cs order = Ok log"
  using read_step_total [OF assms(2), of L J ns "[]"] assms(1)
  by (auto simp: client_read_def dato_defs run_loop_replies Let_def)

lemma set_read_tasks:
  assumes "task_order order"
  shows "mset (read_tasks L J c ns cs order) = mset (map snd (select (task_of L J c ns) (replies cs)))"
proof -
  let ?ts = "map snd (select (task_of L J c ns) (replies cs))"
  have "mset (read_tasks L J c ns cs order) = image_mset (\<lambda>k. ?ts ! k) (mset (order (length ?ts)))"
    by (simp add: read_tasks_def Let_def)
  also have "\<dots> = image_mset (\<lambda>k. ?ts ! k) (mset [0..<length ?ts])"
    using assms by (simp add: task_order_def)
  also have "\<dots> = mset (map (\<lambda>k. ?ts ! k) [0..<length ?ts])" by simp
  also have "map (\<lambda>k. ?ts ! k) [0..<length ?ts] = ?ts" by (rule map_nth)
  finally show ?thesis .
qed

section \<open>\<^verbatim>\<open>read_certified\<close>\<close>

text \<open>
  One \<^verbatim>\<open>read_message\<close> per record of the log; \<open>rounds k\<close> is the completion order of the
  \<open>k\<close>-th of them. Unavailable messages and errors are skipped. \<open>None\<close> is a panic.
\<close>

fun certify_records ::
  "profile \<Rightarrow> ('sk, 'pk, 'sig, 'agg) lib \<Rightarrow> 'sig json \<Rightarrow> 'pk Client \<Rightarrow> Namespace \<Rightarrow>
     (nat \<Rightarrow> completion list) \<Rightarrow> nat \<Rightarrow> 'sig Record list \<Rightarrow> 'agg CertifiedRecord list \<Rightarrow>
     'agg CertifiedRecord list option" where
  "certify_records p L J self namespace rounds k [] certified = Some certified"
| "certify_records p L J self namespace rounds k (record # records) certified =
     (let msg_id = Record_message_digest L record namespace in
      case client_read_message p L J self namespace msg_id (rounds k) of
        Ok (CertAvailable certified_record) \<Rightarrow>
          certify_records p L J self namespace rounds (Suc k) records (certified @ [certified_record])
      | Ok (CertUnavailable _) \<Rightarrow> certify_records p L J self namespace rounds (Suc k) records certified
      | Err e \<Rightarrow> certify_records p L J self namespace rounds (Suc k) records certified
      | Panic \<Rightarrow> None)"

definition client_read_certified ::
  "profile \<Rightarrow> ('sk, 'pk, 'sig, 'agg) lib \<Rightarrow> 'sig json \<Rightarrow> 'pk Client \<Rightarrow> Namespace \<Rightarrow> Timestamp \<Rightarrow>
     Timestamp \<Rightarrow> completion list \<Rightarrow> (nat \<Rightarrow> nat list) \<Rightarrow> (nat \<Rightarrow> completion list) \<Rightarrow>
     (ClientError, 'agg CertifiedLog) res" where
  "client_read_certified p L J self namespace start end' completions order rounds =
     (case client_read L J self namespace start end' completions order of
        Panic \<Rightarrow> Panic
      | Err e \<Rightarrow> Err e
      | Ok log \<Rightarrow>
          (case certify_records p L J self namespace rounds 0 (log_records log) [] of
             None \<Rightarrow> Panic
           | Some records \<Rightarrow> Ok \<lparr>cl_records = records\<rparr>))"

lemma certify_records_sound:
  assumes "certify_records p L J c ns rounds k rs acc = Some out"
  shows "\<exists>new. out = acc @ new \<and> length new \<le> length rs \<and>
    (\<forall>cr\<in>set new. \<exists>r\<in>set rs. \<exists>j. k \<le> j \<and> j < k + length rs \<and>
       client_read_message p L J c ns (Record_message_digest L r ns) (rounds j) = Ok (CertAvailable cr))"
  using assms
proof (induction rs arbitrary: k acc)
  case (Cons r rs)
  let ?rm = "client_read_message p L J c ns (Record_message_digest L r ns) (rounds k)"
  have lift: "\<exists>r'\<in>set (r # rs). \<exists>j. k \<le> j \<and> j < k + length (r # rs) \<and>
      client_read_message p L J c ns (Record_message_digest L r' ns) (rounds j) = Ok (CertAvailable cr)"
    if "\<exists>r'\<in>set rs. \<exists>j. Suc k \<le> j \<and> j < Suc k + length rs \<and>
      client_read_message p L J c ns (Record_message_digest L r' ns) (rounds j) = Ok (CertAvailable cr)" for cr
    using that by fastforce
  show ?case
  proof (cases "\<exists>cr. ?rm = Ok (CertAvailable cr)")
    case True
    then obtain cr where cr: "?rm = Ok (CertAvailable cr)" by blast
    with Cons.prems have "certify_records p L J c ns rounds (Suc k) rs (acc @ [cr]) = Some out"
      by (simp add: Let_def)
    from Cons.IH [OF this] obtain new where new: "out = (acc @ [cr]) @ new" "length new \<le> length rs"
      and "\<forall>cr\<in>set new. \<exists>r\<in>set rs. \<exists>j. Suc k \<le> j \<and> j < Suc k + length rs \<and>
        client_read_message p L J c ns (Record_message_digest L r ns) (rounds j) = Ok (CertAvailable cr)"
      by blast
    then have "\<forall>x\<in>set (cr # new). \<exists>r'\<in>set (r # rs). \<exists>j. k \<le> j \<and> j < k + length (r # rs) \<and>
        client_read_message p L J c ns (Record_message_digest L r' ns) (rounds j) = Ok (CertAvailable x)"
      using lift cr by auto
    with new show ?thesis by (intro exI [of _ "cr # new"]) simp
  next
    case False
    with Cons.prems have "certify_records p L J c ns rounds (Suc k) rs acc = Some out"
      by (auto simp: Let_def split: res.splits CertifiedReadMessageResponse.splits)
    from Cons.IH [OF this] lift show ?thesis by (auto simp: le_Suc_eq)
  qed
qed simp

end
