(* ===== verification/Registry.thy ===== *)
theory Registry
  imports ClientCore
begin

text \<open>
  The validator registries of \<^verbatim>\<open>src/registry/\<close>: the trait, the registry that reads a CSV
  file, the one that queries the smart contract, and the key generator \<^verbatim>\<open>bin/gen_keys.rs\<close>
  that writes such a file. A Rust string is the list of its UTF-8 bytes as characters.
\<close>

section \<open>\<^verbatim>\<open>ValidatorInfo\<close> and the trait\<close>

record 'pk ValidatorInfo =
  info_index :: u64
  info_bls_pub_key :: 'pk
  info_stake :: u64
  info_socket :: string
  info_exists :: bool

definition identity :: "'pk ValidatorInfo \<Rightarrow> 'pk ValidatorIdentity" where
  "identity self = \<lparr>vi_index = unat (info_index self), vi_pubkey = info_bls_pub_key self\<rparr>"

datatype ParseIntError = EmptyInput | InvalidDigit | PosOverflow

text \<open>What an \<^verbatim>\<open>eyre::Report\<close> is made from; \<open>RpcError\<close> comes from the Ethereum provider.\<close>

datatype Report =
    IoError nat | ParseError ParseIntError | HexError | InvalidBlsPublicKey blst_error
  | RpcError nat | MissingElUrl | MissingRegistry | ConnectError ReqError | InvalidSecretKey blst_error

text \<open>
  The contract of the trait: a registry never lists more validators than it counts. \<open>ok\<close> is
  the registry's own condition for that.
\<close>

locale registry =
  fixes validator_count_of :: "'r \<Rightarrow> (Report, u64) res"
    and all_validators :: "'r \<Rightarrow> (Report, 'pk ValidatorInfo list) res"
    and ok :: "'r \<Rightarrow> bool"
  assumes listed: "ok r \<Longrightarrow> all_validators r = Ok vs \<Longrightarrow>
      \<exists>n. validator_count_of r = Ok n \<and> length vs \<le> unat n"

section \<open>\<^verbatim>\<open>FilesystemRegistry\<close>\<close>

record 'pk FilesystemRegistry =
  fr_path :: string
  fr_validators :: "'pk ValidatorInfo list"

text \<open>\<^verbatim>\<open>str::split(c)\<close>: always at least one part.\<close>

fun split_on :: "char \<Rightarrow> string \<Rightarrow> string list" where
  "split_on c [] = [[]]"
| "split_on c (x # xs) =
     (if x = c then [] # split_on c xs
      else (case split_on c xs of [] \<Rightarrow> [[x]] | p # ps \<Rightarrow> (x # p) # ps))"

text \<open>\<^verbatim>\<open>str::parse::<u64>\<close>: an optional plus sign, then decimal digits, checked for overflow.\<close>

definition digit_of :: "char \<Rightarrow> nat option" where
  "digit_of c =
     (let n = of_char c :: nat in if 48 \<le> n \<and> n \<le> 57 then Some (n - 48) else None)"

fun parse_digits :: "string \<Rightarrow> nat \<Rightarrow> ParseIntError + nat" where
  "parse_digits [] result = Inr result"
| "parse_digits (c # cs) result =
     (case digit_of c of
        None \<Rightarrow> Inl InvalidDigit
      | Some d \<Rightarrow>
          if result * 10 + d \<ge> 2 ^ 64 then Inl PosOverflow else parse_digits cs (result * 10 + d))"

definition parse_u64 :: "string \<Rightarrow> ParseIntError + u64" where
  "parse_u64 s =
     (let digits = (case s of [] \<Rightarrow> [] | c # cs \<Rightarrow> if c = CHR ''+'' then cs else s)
      in if s = [] then Inl EmptyInput
         else if digits = [] then Inl InvalidDigit
         else map_sum id word_of_nat (parse_digits digits 0))"

text \<open>
  One line of the file. \<open>Panic\<close> is an index out of bounds in \<^verbatim>\<open>parts[2]\<close> or \<^verbatim>\<open>parts[3]\<close>.
\<close>

definition read_line ::
  "('sk, 'pk, 'sig, 'agg) lib \<Rightarrow> string \<Rightarrow> (Report, 'pk ValidatorInfo) res" where
  "read_line L line =
     (let parts = split_on (CHR '','') line in
      case parse_u64 (parts ! 0) of
        Inl e \<Rightarrow> Err (ParseError e)
      | Inr index \<Rightarrow>
          if length parts \<le> 2 then Panic
          else
            let pubkey_str = parts ! 2 in
            (case hex_decode L pubkey_str of
               None \<Rightarrow> Err HexError
             | Some decoded \<Rightarrow>
                 (case pk_from_bytes L decoded of
                    Inl e \<Rightarrow> Err (InvalidBlsPublicKey e)
                  | Inr bls_pub_key \<Rightarrow>
                      let stake = 0 in
                      if length parts \<le> 3 then Panic
                      else Ok \<lparr>info_index = index, info_bls_pub_key = bls_pub_key,
                               info_stake = stake, info_socket = parts ! 3, info_exists = True\<rparr>)))"

fun read_lines ::
  "('sk, 'pk, 'sig, 'agg) lib \<Rightarrow> (Report + string) list \<Rightarrow> 'pk ValidatorInfo list \<Rightarrow>
     (Report, 'pk ValidatorInfo list) res" where
  "read_lines L [] found = Ok found"
| "read_lines L (Inl e # lines) found = Err e"
| "read_lines L (Inr line # lines) found =
     (case read_line L line of
        Ok val \<Rightarrow> read_lines L lines (found @ [val])
      | Err e \<Rightarrow> Err e
      | Panic \<Rightarrow> Panic)"

text \<open>\<open>opened\<close> is what \<^verbatim>\<open>File::open\<close> gives: an error, or the items of \<^verbatim>\<open>lines()\<close>.\<close>

definition read_from_file ::
  "('sk, 'pk, 'sig, 'agg) lib \<Rightarrow> string \<Rightarrow> Report + (Report + string) list \<Rightarrow>
     (Report, 'pk FilesystemRegistry) res" where
  "read_from_file L path opened =
     (case opened of
        Inl e \<Rightarrow> Err e
      | Inr lines \<Rightarrow> map_ok (\<lambda>vs. \<lparr>fr_path = path, fr_validators = vs\<rparr>) (read_lines L lines []))"

definition fs_validator_count :: "'pk FilesystemRegistry \<Rightarrow> (Report, u64) res" where
  "fs_validator_count self = Ok (word_of_nat (length (fr_validators self)))"

definition fs_all_validators :: "'pk FilesystemRegistry \<Rightarrow> (Report, 'pk ValidatorInfo list) res" where
  "fs_all_validators self = Ok (fr_validators self)"

text \<open>A vector has fewer than \<open>2^64\<close> elements.\<close>

definition fs_ok :: "'pk FilesystemRegistry \<Rightarrow> bool" where
  "fs_ok self \<longleftrightarrow> length (fr_validators self) < 2 ^ 64"

interpretation fs: registry fs_validator_count fs_all_validators fs_ok
  by unfold_locales
    (auto simp: fs_validator_count_def fs_all_validators_def fs_ok_def unsigned_of_nat take_bit_nat_eq_self)

lemma split_on_not_Nil [simp]: "split_on c xs \<noteq> []"
  by (induction c xs rule: split_on.induct) (auto split: list.split)

lemma split_on_snoc:
  assumes "c \<notin> set p"
  shows "split_on c (p @ c # xs) = p # split_on c xs"
  using assms by (induction p) auto

lemma split_on_last: "c \<notin> set p \<Longrightarrow> split_on c p = [p]"
  by (induction p) auto

lemma read_lines_all:
  assumes "list_all2 (\<lambda>line v. read_line L line = Ok v) lines vs"
  shows "read_lines L (map Inr lines) acc = Ok (acc @ vs)"
  using assms by (induction lines vs arbitrary: acc rule: list_all2_induct) auto

section \<open>\<^verbatim>\<open>bin/gen_keys.rs\<close>\<close>

fun decimal :: "nat \<Rightarrow> string" where
  "decimal n = (if n < 10 then [] else decimal (n div 10)) @ [char_of (48 + n mod 10)]"

declare decimal.simps [simp del]

text \<open>\<^verbatim>\<open>impl Display for Timestamp\<close>: the number of milliseconds in decimal.\<close>

definition ts_display :: "Timestamp \<Rightarrow> string" where
  "ts_display t = decimal (ts_nat t)"

definition host_name :: "nat \<Rightarrow> string" where
  "host_name i = ''dato-validator-'' @ decimal i @ '':8222''"

definition key_line :: "('sk, 'pk, 'sig, 'agg) lib \<Rightarrow> nat \<Rightarrow> 'sk \<Rightarrow> string" where
  "key_line L i privkey =
     decimal i @ '','' @ hex_encode_prefixed L (sk_to_bytes L privkey) @ '','' @
     hex_encode_prefixed L (pk_to_bytes L (sk_to_pk L privkey)) @ '','' @ host_name i @ [CHR 0x0A]"

text \<open>
  The content of \<^verbatim>\<open>registry.txt\<close> when all file operations succeed; \<open>rng i\<close> is the randomness
  of the \<open>i\<close>-th key, \<open>None\<close> the panic of \<^verbatim>\<open>random_bls_secret\<close>.
\<close>

fun gen_keys_loop ::
  "('sk, 'pk, 'sig, 'agg) lib \<Rightarrow> (nat \<Rightarrow> bytes) \<Rightarrow> nat list \<Rightarrow> string \<Rightarrow> string option" where
  "gen_keys_loop L rng [] f = Some f"
| "gen_keys_loop L rng (i # is) f =
     (case random_bls_secret L (rng i) of
        None \<Rightarrow> None
      | Some privkey \<Rightarrow> gen_keys_loop L rng is (f @ key_line L i privkey))"

definition gen_keys :: "('sk, 'pk, 'sig, 'agg) lib \<Rightarrow> (nat \<Rightarrow> bytes) \<Rightarrow> string option" where
  "gen_keys L rng = gen_keys_loop L rng [0..<1000] []"

text \<open>
  \<^verbatim>\<open>BufRead::lines\<close> on a text: the parts between newlines, without an empty last one, each
  without a carriage return at its end.
\<close>

definition strip_cr :: "string \<Rightarrow> string" where
  "strip_cr line = (if line \<noteq> [] \<and> last line = CHR 0x0D then butlast line else line)"

definition file_lines :: "string \<Rightarrow> string list" where
  "file_lines content =
     (let parts = split_on (CHR 0x0A) content
      in map strip_cr (butlast parts) @ (if last parts = [] then [] else [last parts]))"

subsection \<open>What is written can be read\<close>

text \<open>The hexadecimal encoding uses no other characters.\<close>

definition hex_alphabet :: "('sk, 'pk, 'sig, 'agg) lib \<Rightarrow> bool" where
  "hex_alphabet L \<longleftrightarrow> (\<forall>bs. set (hex_encode_prefixed L bs) \<subseteq> set ''0123456789abcdefx'')"

lemma of_char_digit: "d < 10 \<Longrightarrow> of_char (char_of (48 + d) :: char) = (48 + d :: nat)"
  by (simp add: of_char_of)

lemma parse_digits_decimal:
  "n < 2 ^ 64 \<Longrightarrow> parse_digits (decimal n @ cs) 0 = parse_digits cs n"
proof (induction n arbitrary: cs rule: decimal.induct)
  case (1 n)
  have d: "digit_of (char_of (48 + n mod 10)) = Some (n mod 10)"
    by (simp add: digit_of_def of_char_digit)
  show ?case
  proof (cases "n < 10")
    case True
    then show ?thesis using d by (simp add: decimal.simps [of n])
  next
    case False
    with 1 have "parse_digits (decimal (n div 10) @ char_of (48 + n mod 10) # cs) 0 =
        parse_digits (char_of (48 + n mod 10) # cs) (n div 10)" by simp
    with d False "1.prems" show ?thesis by (simp add: decimal.simps [of n])
  qed
qed

lemma set_decimal: "set (decimal n) \<subseteq> set ''0123456789''"
proof (induction n rule: decimal.induct)
  case (1 n)
  have "list_all (\<lambda>d. char_of (48 + d :: nat) \<in> set ''0123456789'') [0..<10]" by code_simp
  then have "char_of (48 + n mod 10) \<in> set ''0123456789''" by (simp add: list_all_iff)
  with 1 show ?case by (auto simp: decimal.simps [of n])
qed

lemma decimal_not_Nil [simp]: "decimal n \<noteq> []"
  by (simp add: decimal.simps [of n])

lemma parse_u64_decimal:
  assumes "n < 2 ^ 64"
  shows "parse_u64 (decimal n) = Inr (word_of_nat n)"
proof -
  obtain c cs where dec: "decimal n = c # cs" by (cases "decimal n") auto
  have "c \<noteq> CHR ''+''" using set_decimal [of n] dec by auto
  then show ?thesis
    using parse_digits_decimal [OF assms, of "[]"] by (simp add: parse_u64_def dec)
qed

definition key_row :: "('sk, 'pk, 'sig, 'agg) lib \<Rightarrow> nat \<Rightarrow> 'sk \<Rightarrow> string" where
  "key_row L i privkey = butlast (key_line L i privkey)"

text \<open>The entry a reader of the file should see for validator \<open>i\<close>.\<close>

definition key_info :: "('sk, 'pk, 'sig, 'agg) lib \<Rightarrow> nat \<Rightarrow> 'sk \<Rightarrow> 'pk ValidatorInfo" where
  "key_info L i privkey =
     \<lparr>info_index = word_of_nat i, info_bls_pub_key = sk_to_pk L privkey, info_stake = 0,
      info_socket = host_name i, info_exists = True\<rparr>"

lemma key_row_eq:
  "key_row L i privkey =
     decimal i @ '','' @ hex_encode_prefixed L (sk_to_bytes L privkey) @ '','' @
     hex_encode_prefixed L (pk_to_bytes L (sk_to_pk L privkey)) @ '','' @ host_name i"
  "key_line L i privkey = key_row L i privkey @ [CHR 0x0A]"
  by (simp_all add: key_row_def key_line_def butlast_append)

lemma no_separator:
  assumes "hex_alphabet L" "c \<in> set [CHR '','', CHR 0x0A, CHR 0x0D]"
  shows "c \<notin> set (hex_encode_prefixed L bs)" "c \<notin> set (decimal n)" "c \<notin> set (host_name n)"
proof -
  from assms(1) have h: "set (hex_encode_prefixed L bs) \<subseteq> set ''0123456789abcdefx''"
    by (simp only: hex_alphabet_def)
  from assms(2) h show "c \<notin> set (hex_encode_prefixed L bs)" by auto
  from assms(2) set_decimal [of n] show "c \<notin> set (decimal n)" by auto
  with assms(2) show "c \<notin> set (host_name n)" by (auto simp: host_name_def)
qed

lemma split_key_row:
  assumes "hex_alphabet L"
  shows "split_on (CHR '','') (key_row L i privkey) =
    [decimal i, hex_encode_prefixed L (sk_to_bytes L privkey),
     hex_encode_prefixed L (pk_to_bytes L (sk_to_pk L privkey)), host_name i]"
  by (simp add: key_row_eq(1) split_on_snoc split_on_last no_separator [OF assms])

lemma read_key_row:
  assumes "hex_roundtrip L" "pk_bytes_roundtrip L" "hex_alphabet L" "i < 2 ^ 64"
  shows "read_line L (key_row L i privkey) = Ok (key_info L i privkey)"
  using assms(1,2)
  by (simp add: read_line_def split_key_row [OF assms(3)] parse_u64_decimal [OF assms(4)] hex_roundtrip_def
      pk_bytes_roundtrip_def key_info_def)

text \<open>A text of lines, each ended by a newline and without a carriage return.\<close>

lemma split_on_lines:
  assumes "\<forall>l\<in>set ls. c \<notin> set l"
  shows "split_on c (concat (map (\<lambda>l. l @ [c]) ls)) = ls @ [[]]"
  using assms by (induction ls) (simp_all add: split_on_snoc)

lemma file_lines_of:
  assumes "\<forall>l\<in>set ls. CHR 0x0A \<notin> set l \<and> CHR 0x0D \<notin> set l"
  shows "file_lines (concat (map (\<lambda>l. l @ [CHR 0x0A]) ls)) = ls"
proof -
  have "strip_cr l = l" if "l \<in> set ls" for l
    using assms that last_in_set [of l] by (fastforce simp: strip_cr_def)
  then have "map strip_cr ls = ls" by (simp add: map_idI)
  with split_on_lines [of ls "CHR 0x0A"] assms show ?thesis by (simp add: file_lines_def)
qed

lemma gen_keys_loop_Some:
  assumes "gen_keys_loop L rng is f = Some content"
  shows "\<exists>sk. content = f @ concat (map (\<lambda>i. key_line L i (sk i)) is)"
proof -
  have "content = f @ concat (map (\<lambda>i. key_line L i (the (random_bls_secret L (rng i)))) is)"
    using assms
  proof (induction "is" arbitrary: f)
    case (Cons i "is")
    then obtain k where k: "random_bls_secret L (rng i) = Some k"
      and "gen_keys_loop L rng is (f @ key_line L i k) = Some content"
      by (auto split: option.splits)
    from Cons.IH [OF this(2)] k show ?case by simp
  qed simp
  then show ?thesis by (intro exI [of _ "\<lambda>i. the (random_bls_secret L (rng i))"])
qed

lemma read_generated:
  assumes "hex_roundtrip L" "pk_bytes_roundtrip L" "hex_alphabet L" "gen_keys L rng = Some content"
  shows "\<exists>sk. file_lines content = map (\<lambda>i. key_row L i (sk i)) [0..<1000] \<and>
    read_from_file L path (Inr (map Inr (file_lines content))) =
      Ok \<lparr>fr_path = path, fr_validators = map (\<lambda>i. key_info L i (sk i)) [0..<1000]\<rparr>"
proof -
  from assms(4) obtain sk where
    "content = concat (map (\<lambda>i. key_line L i (sk i)) [0..<1000])"
    unfolding gen_keys_def by (metis gen_keys_loop_Some append_Nil)
  then have "content = concat (map (\<lambda>l. l @ [CHR 0x0A]) (map (\<lambda>i. key_row L i (sk i)) [0..<1000]))"
    by (simp add: key_row_eq(2) comp_def)
  moreover have "\<forall>l\<in>set (map (\<lambda>i. key_row L i (sk i)) [0..<1000]). CHR 0x0A \<notin> set l \<and> CHR 0x0D \<notin> set l"
    by (auto simp: key_row_eq(1) no_separator [OF assms(3)])
  ultimately have "file_lines content = map (\<lambda>i. key_row L i (sk i)) [0..<1000]"
    using file_lines_of by metis
  moreover have "list_all2 (\<lambda>line v. read_line L line = Ok v)
      (map (\<lambda>i. key_row L i (sk i)) [0..<1000]) (map (\<lambda>i. key_info L i (sk i)) [0..<1000])"
    by (auto simp: list_all2_conv_all_nth read_key_row [OF assms(1-3)])
  from read_lines_all [OF this, of "[]"]
  have "read_lines L (map Inr (map (\<lambda>i. key_row L i (sk i)) [0..<1000])) [] =
      Ok (map (\<lambda>i. key_info L i (sk i)) [0..<1000])" by simp
  ultimately show ?thesis
    by (intro exI [of _ sk] conjI) (simp_all only: read_from_file_def sum.case map_ok.simps)
qed

section \<open>\<^verbatim>\<open>SmartContractRegistry\<close>\<close>

text \<open>
  What the contract's node answers to the two calls (third-party: alloy's RPC client): the
  count as a 256-bit integer and the validator at an index.
\<close>

record SolValidator =
  sol_index :: "256 word"
  sol_blsPubKey :: bytes
  sol_stake :: "256 word"
  sol_socket :: string
  sol_exists :: bool

record ValidatorRegistryContract =
  rpc_getValidatorCount :: "Report + 256 word"
  rpc_getValidatorByIndex :: "u64 \<Rightarrow> Report + SolValidator"

record SmartContractRegistry =
  contract_instance :: ValidatorRegistryContract

text \<open>
  \<open>provider\<close> gives the contract at an address as the node behind a URL answers for it. Creating the
  registry makes no call yet, so it cannot fail.
\<close>

definition SmartContractRegistry_new ::
  "(string \<Rightarrow> bytes \<Rightarrow> ValidatorRegistryContract) \<Rightarrow> string \<Rightarrow> bytes \<Rightarrow> SmartContractRegistry" where
  "SmartContractRegistry_new provider execution_client_url registry_address =
     \<lparr>contract_instance = provider execution_client_url registry_address\<rparr>"

text \<open>\<^verbatim>\<open>Uint::to::<u64>\<close> panics when the value does not fit.\<close>

definition u256_to_u64 :: "256 word \<Rightarrow> u64 option" where
  "u256_to_u64 w = (if unat w < 2 ^ 64 then Some (word_of_nat (unat w)) else None)"

definition get_validator_count :: "SmartContractRegistry \<Rightarrow> (Report, u64) res" where
  "get_validator_count self =
     (case rpc_getValidatorCount (contract_instance self) of
        Inl e \<Rightarrow> Err e
      | Inr result \<Rightarrow> (case u256_to_u64 result of None \<Rightarrow> Panic | Some c \<Rightarrow> Ok c))"

text \<open>\<^verbatim>\<open>TryFrom<Validator> for ValidatorInfo\<close>.\<close>

definition try_from_validator ::
  "('sk, 'pk, 'sig, 'agg) lib \<Rightarrow> SolValidator \<Rightarrow> (Report, 'pk ValidatorInfo) res" where
  "try_from_validator L validator =
     (case pk_from_bytes L (sol_blsPubKey validator) of
        Inl e \<Rightarrow> Err (InvalidBlsPublicKey e)
      | Inr pubkey \<Rightarrow>
          (case u256_to_u64 (sol_index validator) of
             None \<Rightarrow> Panic
           | Some index \<Rightarrow>
               (case u256_to_u64 (sol_stake validator) of
                  None \<Rightarrow> Panic
                | Some stake \<Rightarrow>
                    Ok \<lparr>info_index = index, info_bls_pub_key = pubkey, info_stake = stake,
                        info_socket = sol_socket validator, info_exists = sol_exists validator\<rparr>)))"

definition get_validator_by_index ::
  "('sk, 'pk, 'sig, 'agg) lib \<Rightarrow> SmartContractRegistry \<Rightarrow> u64 \<Rightarrow> (Report, 'pk ValidatorInfo) res" where
  "get_validator_by_index L self index =
     (case rpc_getValidatorByIndex (contract_instance self) index of
        Inl e \<Rightarrow> Err e
      | Inr val \<Rightarrow> try_from_validator L val)"

text \<open>\<^verbatim>\<open>for index in 0..count\<close>: an error skips the index, a panic does not.\<close>

fun collect_validators ::
  "('sk, 'pk, 'sig, 'agg) lib \<Rightarrow> SmartContractRegistry \<Rightarrow> nat list \<Rightarrow> 'pk ValidatorInfo list \<Rightarrow>
     (Report, 'pk ValidatorInfo list) res" where
  "collect_validators L self [] found = Ok found"
| "collect_validators L self (index # is) found =
     (case get_validator_by_index L self (word_of_nat index) of
        Ok validator \<Rightarrow> collect_validators L self is (found @ [validator])
      | Err e \<Rightarrow> collect_validators L self is found
      | Panic \<Rightarrow> Panic)"

definition get_all_validators ::
  "('sk, 'pk, 'sig, 'agg) lib \<Rightarrow> SmartContractRegistry \<Rightarrow> (Report, 'pk ValidatorInfo list) res" where
  "get_all_validators L self =
     (case get_validator_count self of
        Err e \<Rightarrow> Err e
      | Panic \<Rightarrow> Panic
      | Ok num \<Rightarrow> collect_validators L self [0..<unat num] [])"

text \<open>The validators found are those of the indices the contract answers for.\<close>

lemma collect_validators_Ok:
  assumes "collect_validators L self is found = Ok vs"
  shows "vs = found @ List.map_filter
    (\<lambda>i. case get_validator_by_index L self (word_of_nat i) of Ok v \<Rightarrow> Some v | _ \<Rightarrow> None) is"
  using assms
proof (induction "is" arbitrary: found)
  case (Cons i "is")
  show ?case
  proof (cases "get_validator_by_index L self (word_of_nat i)")
    case (Ok v)
    with Cons.prems have "collect_validators L self is (found @ [v]) = Ok vs" by simp
    from Cons.IH [OF this] Ok show ?thesis by (simp add: map_filter_simps)
  qed (use Cons in \<open>simp_all add: map_filter_simps\<close>)
qed (simp add: map_filter_simps)

lemma length_map_filter_le: "length (List.map_filter f xs) \<le> length xs"
  by (induction xs) (auto simp: map_filter_simps split: option.split)

interpretation contract: registry get_validator_count "get_all_validators L" "\<lambda>_. True"
  for L :: "('sk, 'pk, 'sig, 'agg) lib"
proof unfold_locales
  fix r and vs :: "'pk ValidatorInfo list" assume "get_all_validators L r = Ok vs"
  then obtain n where "get_validator_count r = Ok n" "collect_validators L r [0..<unat n] [] = Ok vs"
    by (auto simp: get_all_validators_def split: res.splits)
  with collect_validators_Ok [of L r "[0..<unat n]" "[]" vs] length_map_filter_le
  show "\<exists>n. get_validator_count r = Ok n \<and> length vs \<le> unat n"
    by (metis append_Nil diff_zero length_upt)
qed

end
