(* ===== verification/ClientSubscribe.thy ===== *)
theory ClientSubscribe
  imports ClientRead Fifo Channel "HOL-Library.Sublist"
begin

text \<open>
  The subscriptions of the client: \<^verbatim>\<open>subscribe\<close> collects the publishers' addresses, connects
  to all of them in a background task and forwards their records through a bounded channel;
  \<^verbatim>\<open>subscribe_certified\<close> groups the records of that stream by message and emits a certificate
  whenever a group has the size of a quorum.
\<close>

section \<open>\<^verbatim>\<open>subscribe\<close>: finding the publishers\<close>

type_synonym sub_completion = "nat \<times> SocketAddr \<times> reply"

fun sub_future_value :: "sub_completion \<Rightarrow> (nat \<times> SocketAddr \<times> bytes) option" where
  "sub_future_value (i, addr, Replied bs) = Some (i, addr, bs)"
| "sub_future_value (i, addr, ReqFailed e) = None"
| "sub_future_value (i, addr, TimedOut) = None"

text \<open>The loop over the responses; the state is \<^verbatim>\<open>validator_publisher_sockets\<close>.\<close>

fun subscribe_step ::
  "'sig json \<Rightarrow> nat \<times> SocketAddr \<times> bytes \<Rightarrow> (SocketAddr \<rightharpoonup> nat) \<Rightarrow> (SocketAddr \<rightharpoonup> nat) step" where
  "subscribe_step J (index, remote_addr, bytes) publishers =
     (case subscribe_response_from_slice J bytes of
        None \<Rightarrow> Next publishers
      | Some sub_response \<Rightarrow>
          Next (publishers((fst remote_addr, sr_port sub_response) \<mapsto> index)))"

text \<open>
  The foreground part: serialise the request and collect the publishers. It has no error
  branch; \<open>Panic\<close> is the failed serialisation.
\<close>

definition client_subscribe ::
  "'sig json \<Rightarrow> Namespace \<Rightarrow> sub_completion list \<Rightarrow> (ClientError, SocketAddr \<rightharpoonup> nat) res" where
  "client_subscribe J namespace completions =
     (case Request_serialize J (Subscribe namespace) of
        None \<Rightarrow> Panic
      | Some serialized_req \<Rightarrow>
          (case run_loop (subscribe_step J) (map sub_future_value completions) Map.empty of
             None \<Rightarrow> Panic
           | Some publishers \<Rightarrow> Ok publishers))"

text \<open>The publisher of a reply that parses.\<close>

definition publisher_of :: "'sig json \<Rightarrow> nat \<times> SocketAddr \<times> bytes \<Rightarrow> (SocketAddr \<times> nat) option" where
  "publisher_of J r =
     (case r of (i, addr, bs) \<Rightarrow>
        map_option (\<lambda>s. ((fst addr, sr_port s), i)) (subscribe_response_from_slice J bs))"

definition publishers_of :: "'sig json \<Rightarrow> sub_completion list \<Rightarrow> SocketAddr \<rightharpoonup> nat" where
  "publishers_of J cs =
     map_of (rev (List.map_filter (publisher_of J) (before_failure (map sub_future_value cs))))"

lemma map_add_rev_Cons:
  "m ++ map_of (rev ((k, v) # xs)) = m(k \<mapsto> v) ++ map_of (rev xs)"
proof -
  have "m ++ map_of (rev ((k, v) # xs)) = m ++ (map_of [(k, v)] ++ map_of (rev xs))" by simp
  also have "\<dots> = (m ++ map_of [(k, v)]) ++ map_of (rev xs)" by (rule map_add_assoc)
  finally show ?thesis by simp
qed

lemma subscribe_loop:
  "run_loop (subscribe_step J) (map Some rs) m =
     Some (m ++ map_of (rev (List.map_filter (publisher_of J) rs)))"
proof (induction rs arbitrary: m)
  case (Cons r rs)
  obtain i addr bs where r: "r = (i, addr, bs)" by (cases r) auto
  show ?case
    by (cases "subscribe_response_from_slice J bs")
      (simp_all add: r Cons.IH publisher_of_def map_filter_simps map_add_rev_Cons fun_upd_def del: rev.simps)
qed (simp add: map_filter_simps)

lemma client_subscribe_eq:
  assumes "request_to_vec J (Subscribe ns) \<noteq> None"
  shows "client_subscribe J ns cs = Ok (publishers_of J cs)"
proof -
  have "run_loop (subscribe_step J) (map sub_future_value cs) Map.empty = Some (publishers_of J cs)"
    using subscribe_loop [of J "before_failure (map sub_future_value cs)" Map.empty]
    by (simp add: run_loop_before_failure publishers_of_def)
  with assms show ?thesis by (auto simp: client_subscribe_def dato_defs)
qed

section \<open>\<^verbatim>\<open>subscribe\<close>: the background task\<close>

text \<open>
  Connecting to the publishers, in the order \<open>addrs\<close> in which the hash map is iterated.
  \<open>connect\<close> and \<open>sub\<close> say which attempts fail. The value is the list of calls made and
  whether the task goes on to forward.
\<close>

datatype sub_call = SubConnect SocketAddr | SubTopic string

fun connect_publishers ::
  "(SocketAddr \<Rightarrow> bool) \<Rightarrow> (SocketAddr \<Rightarrow> bool) \<Rightarrow> string \<Rightarrow> SocketAddr list \<Rightarrow> sub_call list \<times> bool" where
  "connect_publishers connect sub topic [] = ([], True)"
| "connect_publishers connect sub topic (addr # addrs) =
     (if \<not> connect addr then ([SubConnect addr], False)
      else if \<not> sub addr then ([SubConnect addr, SubTopic topic], False)
      else (case connect_publishers connect sub topic addrs of
              (calls, ok) \<Rightarrow> (SubConnect addr # SubTopic topic # calls, ok)))"

lemma connect_publishers_ok:
  "snd (connect_publishers connect sub topic addrs) \<longleftrightarrow> (\<forall>a\<in>set addrs. connect a \<and> sub a)"
  by (induction addrs) (auto split: prod.split)

text \<open>
  What happens to the channel between task and consumer: a message arrives from a publisher,
  the consumer takes a record from its stream, or drops the stream.
\<close>

datatype sub_event = Published bytes | Polled | Dropped

record ('sig, 'q) forward_state =
  fs_queue :: 'q
  fs_closed :: bool
  fs_stopped :: bool
  fs_received :: "'sig Record list"

text \<open>
  \<^verbatim>\<open>while let Some(pub_msg) = sub_socket.next().await\<close>, over the events in their order. The
  task stops when it finds the channel closed and drops a record when it is full.
\<close>

fun forward_step ::
  "'sig json \<Rightarrow> ('sig Record, 'q) mpsc \<Rightarrow> sub_event \<Rightarrow> ('sig, 'q) forward_state \<Rightarrow>
     ('sig, 'q) forward_state" where
  "forward_step J Q (Published payload) s =
     (if fs_stopped s then s
      else
        (case record_from_slice J payload of
           None \<Rightarrow> s
         | Some record \<Rightarrow>
             if fs_closed s then s\<lparr>fs_stopped := True\<rparr>
             else
               (case mpsc_try_send Q (fs_queue s) record of
                  None \<Rightarrow> s
                | Some q \<Rightarrow> s\<lparr>fs_queue := q\<rparr>)))"
| "forward_step J Q Polled s =
     (if fs_closed s then s
      else
        (case mpsc_poll_recv Q (fs_queue s) False of
           (Ready (Some record), q) \<Rightarrow>
             s\<lparr>fs_queue := q, fs_received := fs_received s @ [record]\<rparr>
         | (_, q) \<Rightarrow> s\<lparr>fs_queue := q\<rparr>))"
| "forward_step J Q Dropped s = s\<lparr>fs_closed := True\<rparr>"

definition forward_init :: "('sig Record, 'q) mpsc \<Rightarrow> ('sig, 'q) forward_state" where
  "forward_init Q =
     \<lparr>fs_queue = mpsc_channel Q 512, fs_closed = False, fs_stopped = False, fs_received = []\<rparr>"

definition forward ::
  "'sig json \<Rightarrow> ('sig Record, 'q) mpsc \<Rightarrow> sub_event list \<Rightarrow> ('sig, 'q) forward_state" where
  "forward J Q events = fold (forward_step J Q) events (forward_init Q)"

text \<open>The records among the messages published, in order.\<close>

fun published :: "'sig json \<Rightarrow> sub_event list \<Rightarrow> 'sig Record list" where
  "published J [] = []"
| "published J (Published payload # es) =
     (case record_from_slice J payload of None \<Rightarrow> published J es | Some r \<Rightarrow> r # published J es)"
| "published J (_ # es) = published J es"

lemma published_append: "published J (es @ es') = published J es @ published J es'"
  by (induction J es rule: published.induct) (auto split: option.split)

lemma forward_snoc: "forward J Q (es @ [e]) = forward_step J Q e (forward J Q es)"
  by (simp add: forward_def)

text \<open>
  What the consumer has taken and what waits in the channel together are a part of what was
  published, in order; all of it, if there were never more than 512 records.
\<close>

lemma forward_step_poll:
  assumes "mpsc_laws Q"
    and s': "s' = forward_step J Q Polled s"
  shows "fs_received s' @ mpsc_contents Q (fs_queue s') = fs_received s @ mpsc_contents Q (fs_queue s)"
    "mpsc_capacity Q (fs_queue s') = mpsc_capacity Q (fs_queue s)"
    "fs_stopped s' = fs_stopped s" "fs_closed s' = fs_closed s"
proof -
  let ?q = "fs_queue s"
  obtain v q where vq: "mpsc_poll_recv Q ?q False = (v, q)" by fastforce
  note r = mpsc_recv [OF assms(1), of ?q, unfolded vq]
  show "fs_received s' @ mpsc_contents Q (fs_queue s') = fs_received s @ mpsc_contents Q (fs_queue s)"
    "mpsc_capacity Q (fs_queue s') = mpsc_capacity Q (fs_queue s)"
    "fs_stopped s' = fs_stopped s" "fs_closed s' = fs_closed s"
    using r by (cases "mpsc_contents Q ?q"; simp add: s' vq)+
qed

lemma forward_inv:
  assumes Q: "mpsc_laws Q"
  shows "subseq (fs_received (forward J Q es) @ mpsc_contents Q (fs_queue (forward J Q es)))
      (published J es) \<and>
    mpsc_capacity Q (fs_queue (forward J Q es)) = 512"
proof (induction es rule: rev_induct)
  case Nil
  show ?case by (simp add: forward_def forward_init_def mpsc_new [OF Q])
next
  case (snoc e es)
  let ?s = "forward J Q es"
  show ?case
  proof (cases e)
    case (Published payload)
    then show ?thesis
      using snoc.IH mpsc_send(2) [OF Q, of "fs_queue ?s"]
      by (auto simp: forward_snoc published_append subseq_append_iff split: option.split
          simp flip: append_assoc intro: list_emb_append_mono subseq_order.trans)
  next
    case Polled
    then show ?thesis
      using snoc.IH forward_step_poll [OF Q refl, of J ?s] by (simp add: forward_snoc published_append)
  qed (use snoc.IH in \<open>simp add: forward_snoc published_append\<close>)
qed

lemma forward_complete:
  assumes Q: "mpsc_laws Q" and "length (published J es) \<le> 512" "Dropped \<notin> set es"
  shows "fs_received (forward J Q es) @ mpsc_contents Q (fs_queue (forward J Q es)) = published J es \<and>
    \<not> fs_closed (forward J Q es) \<and> \<not> fs_stopped (forward J Q es)"
  using assms(2,3)
proof (induction es rule: rev_induct)
  case Nil
  show ?case by (simp add: forward_def forward_init_def mpsc_new [OF Q])
next
  case (snoc e es)
  let ?s = "forward J Q es"
  from snoc have IH: "fs_received ?s @ mpsc_contents Q (fs_queue ?s) = published J es"
    "\<not> fs_closed ?s" "\<not> fs_stopped ?s"
    by (auto simp: published_append)
  show ?case
  proof (cases e)
    case (Published payload)
    show ?thesis
    proof (cases "record_from_slice J payload")
      case (Some r)
      have "length (mpsc_contents Q (fs_queue ?s)) < 512"
        using snoc.prems Published Some IH(1) [symmetric] by (simp add: published_append)
      then have "mpsc_try_send Q (fs_queue ?s) r \<noteq> None"
        using mpsc_send(1) [OF Q, of "fs_queue ?s" r] forward_inv [OF Q, of J es] by auto
      then obtain q where "mpsc_try_send Q (fs_queue ?s) r = Some q" by blast
      with Published Some IH mpsc_send(2) [OF Q this] show ?thesis
        by (simp add: forward_snoc published_append flip: append_assoc)
    qed (use Published IH in \<open>simp add: forward_snoc published_append\<close>)
  next
    case Polled
    then show ?thesis
      using IH forward_step_poll [OF Q refl, of J ?s] by (simp add: forward_snoc published_append)
  qed (use snoc.prems in simp)
qed

section \<open>\<^verbatim>\<open>subscribe_certified\<close>\<close>

text \<open>
  The body of the background task: the record joins the records with its message digest, and
  when these are as many as a quorum, they make a certificate. \<open>None\<close> is a panic. The
  \<^verbatim>\<open>unwrap\<close> after the insertion is a branch.
\<close>

definition certify_step ::
  "('sk, 'pk, 'sig, 'agg) lib \<Rightarrow> (B256, 'sig Record list, 'm) fifo \<Rightarrow> nat \<Rightarrow> Namespace \<Rightarrow>
     'sig Record \<Rightarrow> 'm \<Rightarrow> ('m \<times> 'agg CertifiedRecord option) option" where
  "certify_step L F validators_count namespace record records_by_id =
     (let id = Record_message_digest L record namespace;
          grouped =
            (case fifo_get F records_by_id id of
               Some records \<Rightarrow>
                 Some (fifo_update F records_by_id id (\<lambda>rs. rs @ [record]), records @ [record])
             | None \<Rightarrow>
                 (let records_by_id = fifo_insert F records_by_id id [record]
                  in map_option (Pair records_by_id) (fifo_get F records_by_id id)))
      in case grouped of
           None \<Rightarrow> None
         | Some (records_by_id, records) \<Rightarrow>
             if has_reached_quorum validators_count (length records) then
               map_option (\<lambda>c. (records_by_id, Some c)) (from_records_unchecked L records)
             else Some (records_by_id, None))"

text \<open>
  The task, over the records of the stream, each with the outcome of sending a certificate at
  that point; a failed \<^verbatim>\<open>send\<close> ends it. (\<^verbatim>\<open>send\<close> waits when the channel is full.) The
  value is the list of certificates sent, and whether the task panicked.
\<close>

fun certify_stream ::
  "('sk, 'pk, 'sig, 'agg) lib \<Rightarrow> (B256, 'sig Record list, 'm) fifo \<Rightarrow> nat \<Rightarrow> Namespace \<Rightarrow>
     ('sig Record \<times> bool) list \<Rightarrow> 'm \<Rightarrow> 'agg CertifiedRecord list \<times> bool" where
  "certify_stream L F n namespace [] records_by_id = ([], False)"
| "certify_stream L F n namespace ((record, delivered) # stream) records_by_id =
     (case certify_step L F n namespace record records_by_id of
        None \<Rightarrow> ([], True)
      | Some (records_by_id, None) \<Rightarrow> certify_stream L F n namespace stream records_by_id
      | Some (records_by_id, Some certified) \<Rightarrow>
          if \<not> delivered then ([], False)
          else
            (case certify_stream L F n namespace stream records_by_id of
               (cs, panicked) \<Rightarrow> (certified # cs, panicked)))"

definition client_subscribe_certified ::
  "('sk, 'pk, 'sig, 'agg) lib \<Rightarrow> (B256, 'sig Record list, 'm) fifo \<Rightarrow> 'pk Client \<Rightarrow> Namespace \<Rightarrow>
     ('sig Record \<times> bool) list \<Rightarrow> 'agg CertifiedRecord list \<times> bool" where
  "client_subscribe_certified L F self namespace stream =
     certify_stream L F (validator_count self) namespace stream (fifo_with_capacity F 1024)"

subsection \<open>What the map holds\<close>

text \<open>The records received so far that carry a message with the digest \<open>i\<close>.\<close>

definition group_of ::
  "('sk, 'pk, 'sig, 'agg) lib \<Rightarrow> Namespace \<Rightarrow> 'sig Record list \<Rightarrow> B256 \<Rightarrow> 'sig Record list" where
  "group_of L ns seen i = filter (\<lambda>r. Record_message_digest L r ns = i) seen"

lemma group_of_snoc:
  "group_of L ns (seen @ [r]) i =
     group_of L ns seen i @ (if Record_message_digest L r ns = i then [r] else [])"
  by (simp add: group_of_def)

text \<open>
  A group in the map is the end of the group received: its beginning can be missing only
  because the entry was evicted meanwhile.
\<close>

definition groups_ok ::
  "('sk, 'pk, 'sig, 'agg) lib \<Rightarrow> (B256, 'sig Record list, 'm) fifo \<Rightarrow> Namespace \<Rightarrow>
     'sig Record list \<Rightarrow> 'm \<Rightarrow> bool" where
  "groups_ok L F ns seen m \<longleftrightarrow>
     fifo_ok F m \<and> fifo_capacity F m = 1024 \<and>
     (\<forall>i rs. fifo_get F m i = Some rs \<longrightarrow> rs \<noteq> [] \<and> suffix rs (group_of L ns seen i))"

text \<open>Up to 1024 different messages, nothing is missing.\<close>

definition groups_exact ::
  "('sk, 'pk, 'sig, 'agg) lib \<Rightarrow> (B256, 'sig Record list, 'm) fifo \<Rightarrow> Namespace \<Rightarrow>
     'sig Record list \<Rightarrow> 'm \<Rightarrow> bool" where
  "groups_exact L F ns seen m \<longleftrightarrow>
     fifo_ok F m \<and> fifo_capacity F m = 1024 \<and>
     (\<forall>i. fifo_get F m i = (case group_of L ns seen i of [] \<Rightarrow> None | rs \<Rightarrow> Some rs))"

lemma groups_init:
  assumes "fifo_laws F"
  shows "groups_ok L F ns [] (fifo_with_capacity F 1024)"
    "groups_exact L F ns [] (fifo_with_capacity F 1024)"
  by (simp_all add: groups_ok_def groups_exact_def fifo_new [OF assms] group_of_def)

text \<open>The group the record joins, as the step sees it.\<close>

definition joined ::
  "('sk, 'pk, 'sig, 'agg) lib \<Rightarrow> (B256, 'sig Record list, 'm) fifo \<Rightarrow> Namespace \<Rightarrow>
     'sig Record \<Rightarrow> 'm \<Rightarrow> 'sig Record list" where
  "joined L F ns r m =
     (case fifo_get F m (Record_message_digest L r ns) of None \<Rightarrow> [r] | Some rs \<Rightarrow> rs @ [r])"

lemma joined_not_Nil [simp]: "joined L F ns r m \<noteq> []"
  by (simp add: joined_def split: option.split)

definition regrouped ::
  "('sk, 'pk, 'sig, 'agg) lib \<Rightarrow> (B256, 'sig Record list, 'm) fifo \<Rightarrow> Namespace \<Rightarrow>
     'sig Record \<Rightarrow> 'm \<Rightarrow> 'm" where
  "regrouped L F ns r m =
     (let i = Record_message_digest L r ns in
      case fifo_get F m i of
        None \<Rightarrow> fifo_insert F m i [r]
      | Some _ \<Rightarrow> fifo_update F m i (\<lambda>rs. rs @ [r]))"

lemma certify_step_eq:
  assumes "fifo_laws F" "fifo_ok F m" "fifo_capacity F m = 1024"
  shows "certify_step L F n ns r m =
    Some (regrouped L F ns r m,
      if has_reached_quorum n (length (joined L F ns r m))
      then from_records_unchecked L (joined L F ns r m) else None)"
proof -
  have "\<exists>c. from_records_unchecked L (joined L F ns r m) = Some c"
    by (cases "joined L F ns r m") simp_all
  then show ?thesis
    using fifo_inserted(3) [OF assms(1,2), of "Record_message_digest L r ns" "[r]"] assms(3)
    by (auto simp: certify_step_def Let_def joined_def regrouped_def split: option.splits)
qed

lemma regrouped_get:
  assumes F: "fifo_laws F" and m: "fifo_ok F m" "fifo_capacity F m = 1024"
    and i: "i = Record_message_digest L r ns"
  shows "fifo_ok F (regrouped L F ns r m)" "fifo_capacity F (regrouped L F ns r m) = 1024"
    and "fifo_get F (regrouped L F ns r m) i = Some (joined L F ns r m)"
    and "k \<noteq> i \<Longrightarrow> fifo_get F (regrouped L F ns r m) k = Some rs \<Longrightarrow> fifo_get F m k = Some rs"
    and "k \<noteq> i \<Longrightarrow> fifo_get F m i \<noteq> None \<or> length (fifo_iter F m) < 1024 \<Longrightarrow>
      fifo_get F (regrouped L F ns r m) k = fifo_get F m k"
proof -
  note ins = fifo_inserted(1-3) [OF F m(1), of i "[r]"] fifo_inserted(4,5) [OF F m(1), of _ i "[r]"]
  note upd = fifo_updated [OF F m(1), of i]
  have d: "Record_message_digest L r ns = i" by (simp add: i)
  have reg: "regrouped L F ns r m = (case fifo_get F m i of None \<Rightarrow> fifo_insert F m i [r]
      | Some _ \<Rightarrow> fifo_update F m i (\<lambda>rs. rs @ [r]))"
    and join: "joined L F ns r m = (case fifo_get F m i of None \<Rightarrow> [r] | Some rs \<Rightarrow> rs @ [r])"
    by (simp_all add: regrouped_def joined_def d)
  show "fifo_ok F (regrouped L F ns r m)" "fifo_capacity F (regrouped L F ns r m) = 1024"
    "fifo_get F (regrouped L F ns r m) i = Some (joined L F ns r m)"
    using m ins(1-3) upd by (simp_all add: reg join split: option.split)
  show "fifo_get F m k = Some rs" if "k \<noteq> i" "fifo_get F (regrouped L F ns r m) k = Some rs"
    using that ins(4) upd(3) by (cases "fifo_get F m i") (auto simp: reg)
  show "fifo_get F (regrouped L F ns r m) k = fifo_get F m k"
    if "k \<noteq> i" "fifo_get F m i \<noteq> None \<or> length (fifo_iter F m) < 1024"
    using that m(2) ins(5) upd(3) by (cases "fifo_get F m i") (auto simp: reg)
qed

lemma groups_ok_step:
  assumes F: "fifo_laws F" and g: "groups_ok L F ns seen m"
  shows "groups_ok L F ns (seen @ [r]) (regrouped L F ns r m)"
    "suffix (joined L F ns r m) (group_of L ns (seen @ [r]) (Record_message_digest L r ns))"
proof -
  let ?i = "Record_message_digest L r ns"
  have m: "fifo_ok F m" "fifo_capacity F m = 1024" using g by (simp_all add: groups_ok_def)
  have inv: "rs \<noteq> [] \<and> suffix rs (group_of L ns seen k)" if "fifo_get F m k = Some rs" for k rs
    using g that unfolding groups_ok_def by blast
  show suf: "suffix (joined L F ns r m) (group_of L ns (seen @ [r]) ?i)"
    by (cases "fifo_get F m ?i") (simp_all add: joined_def group_of_snoc suffixI inv)
  note get = regrouped_get(3,4) [OF F m refl, where L = L and ns = ns and r = r]
  have "rs \<noteq> [] \<and> suffix rs (group_of L ns (seen @ [r]) k)"
    if "fifo_get F (regrouped L F ns r m) k = Some rs" for k rs
  proof (cases "k = ?i")
    case True
    with that suf get(1) show ?thesis by auto
  next
    case False
    with inv [OF get(2) [OF False that]] show ?thesis by (simp add: group_of_snoc)
  qed
  with regrouped_get(1,2) [OF F m refl, where L = L and ns = ns and r = r]
  show "groups_ok L F ns (seen @ [r]) (regrouped L F ns r m)"
    unfolding groups_ok_def by blast
qed

text \<open>The messages whose groups are in the map are those received.\<close>

lemma groups_exact_size:
  assumes F: "fifo_laws F" and g: "groups_exact L F ns seen m"
  shows "length (fifo_iter F m) = card ((\<lambda>r. Record_message_digest L r ns) ` set seen)"
proof -
  have m: "fifo_ok F m" using g by (simp add: groups_exact_def)
  have e1: "k \<in> fst ` set (fifo_iter F m) \<longleftrightarrow> (\<exists>v. fifo_get F m k = Some v)" for k
    using fifo_entries(3) [OF F m] by force
  have e2: "(\<exists>v. fifo_get F m k = Some v) \<longleftrightarrow> group_of L ns seen k \<noteq> []" for k
  proof -
    have "fifo_get F m k = (case group_of L ns seen k of [] \<Rightarrow> None | rs \<Rightarrow> Some rs)"
      using g unfolding groups_exact_def by blast
    then show ?thesis by (cases "group_of L ns seen k") simp_all
  qed
  have e3: "group_of L ns seen k \<noteq> [] \<longleftrightarrow> k \<in> (\<lambda>r. Record_message_digest L r ns) ` set seen" for k
    by (auto simp: group_of_def filter_empty_conv)
  have "fst ` set (fifo_iter F m) = (\<lambda>r. Record_message_digest L r ns) ` set seen"
    by (rule set_eqI) (simp only: e1 e2 e3)
  then show ?thesis
    using distinct_card [OF fifo_entries(2) [OF F m]] by simp
qed

lemma groups_exact_step:
  assumes F: "fifo_laws F" and g: "groups_exact L F ns seen m"
    and few: "card ((\<lambda>r. Record_message_digest L r ns) ` set (seen @ [r])) \<le> 1024"
  shows "groups_exact L F ns (seen @ [r]) (regrouped L F ns r m)"
    "joined L F ns r m = group_of L ns (seen @ [r]) (Record_message_digest L r ns)"
proof -
  let ?d = "\<lambda>r. Record_message_digest L r ns"
  have m: "fifo_ok F m" "fifo_capacity F m = 1024" using g by (simp_all add: groups_exact_def)
  have get: "fifo_get F m i = (case group_of L ns seen i of [] \<Rightarrow> None | rs \<Rightarrow> Some rs)" for i
    using g unfolding groups_exact_def by blast
  show j: "joined L F ns r m = group_of L ns (seen @ [r]) (?d r)"
    by (simp add: joined_def get group_of_snoc split: list.split)
  have "fifo_get F m (?d r) \<noteq> None \<or> length (fifo_iter F m) < 1024"
  proof (cases "?d r \<in> ?d ` set seen")
    case True
    then show ?thesis by (auto simp: get group_of_def filter_empty_conv split: list.split)
  next
    case False
    then show ?thesis using few by (simp add: groups_exact_size [OF F g])
  qed
  then have "fifo_get F (regrouped L F ns r m) k = (case group_of L ns (seen @ [r]) k of [] \<Rightarrow> None | rs \<Rightarrow> Some rs)" for k
    using regrouped_get(3,5) [OF F m refl, where L = L and ns = ns and r = r] j get by (cases "k = ?d r") (auto simp: group_of_snoc split: list.split)
  then show "groups_exact L F ns (seen @ [r]) (regrouped L F ns r m)"
    using regrouped_get(1,2) [OF F m refl, where L = L and ns = ns and r = r] by (simp add: groups_exact_def)
qed

subsection \<open>The certificates\<close>

text \<open>
  Every certificate is made of as many records as a quorum, all received, all carrying a
  message with one digest, in the order they were received.
\<close>

definition grounded ::
  "('sk, 'pk, 'sig, 'agg) lib \<Rightarrow> nat \<Rightarrow> Namespace \<Rightarrow> 'sig Record list \<Rightarrow> 'agg CertifiedRecord \<Rightarrow> bool" where
  "grounded L n ns seen c \<longleftrightarrow>
     (\<exists>i rs. rs \<noteq> [] \<and> sublist rs (group_of L ns seen i) \<and> has_reached_quorum n (length rs) \<and>
        from_records_unchecked L rs = Some c)"

lemma sublist_group_of: "sublist rs (group_of L ns seen i) \<Longrightarrow> sublist rs (group_of L ns (seen @ later) i)"
  unfolding group_of_def filter_append using sublist_appendI sublist_order.order_trans by blast

lemma grounded_mono: "grounded L n ns seen c \<Longrightarrow> grounded L n ns (seen @ later) c"
  unfolding grounded_def using sublist_group_of by blast

lemma certify_stream_grounded:
  assumes F: "fifo_laws F" and g: "groups_ok L F ns seen m"
  shows "\<exists>cs. certify_stream L F n ns stream m = (cs, False) \<and>
    (\<forall>c\<in>set cs. grounded L n ns (seen @ map fst stream) c)"
  using g
proof (induction stream arbitrary: seen m)
  case (Cons x stream)
  obtain r d where x: "x = (r, d)" by (cases x)
  have m: "fifo_ok F m" "fifo_capacity F m = 1024" using Cons.prems by (simp_all add: groups_ok_def)
  note step = groups_ok_step [where r = r, OF F Cons.prems]
  have "seen @ map fst (x # stream) = (seen @ [r]) @ map fst stream" by (simp add: x)
  with Cons.IH [OF step(1)] obtain cs where
    cs: "certify_stream L F n ns stream (regrouped L F ns r m) = (cs, False)"
    "\<forall>c\<in>set cs. grounded L n ns (seen @ map fst (x # stream)) c" by metis
  have "grounded L n ns (seen @ map fst (x # stream)) c"
    if "has_reached_quorum n (length (joined L F ns r m))" "from_records_unchecked L (joined L F ns r m) = Some c" for c
  proof -
    have "grounded L n ns (seen @ [r]) c"
      unfolding grounded_def
      by (rule exI [of _ "Record_message_digest L r ns"], rule exI [of _ "joined L F ns r m"])
        (simp add: that suffix_imp_sublist [OF step(2)])
    from grounded_mono [OF this, of "map fst stream"] show ?thesis by (simp add: x)
  qed
  with cs show ?case
    by (auto simp: x certify_step_eq [OF F m] split: option.splits)
qed simp

text \<open>
  What a task does whose map never overflows, without the map: a certificate of the whole
  group for every record that finds its group at or above the quorum.
\<close>

fun certificates ::
  "('sk, 'pk, 'sig, 'agg) lib \<Rightarrow> nat \<Rightarrow> Namespace \<Rightarrow> 'sig Record list \<Rightarrow> 'sig Record list \<Rightarrow>
     'agg CertifiedRecord list" where
  "certificates L n ns seen [] = []"
| "certificates L n ns seen (r # rs) =
     (let group = group_of L ns (seen @ [r]) (Record_message_digest L r ns)
      in (case from_records_unchecked L group of
            Some c \<Rightarrow> if has_reached_quorum n (length group) then [c] else []
          | None \<Rightarrow> []) @ certificates L n ns (seen @ [r]) rs)"

lemma certify_stream_exact:
  assumes F: "fifo_laws F" and g: "groups_exact L F ns seen m"
    and few: "card ((\<lambda>r. Record_message_digest L r ns) ` set (seen @ rs)) \<le> 1024"
  shows "certify_stream L F n ns (map (\<lambda>r. (r, True)) rs) m = (certificates L n ns seen rs, False)"
  using g few
proof (induction rs arbitrary: seen m)
  case (Cons r rs)
  have m: "fifo_ok F m" "fifo_capacity F m = 1024" using Cons.prems by (simp_all add: groups_exact_def)
  have "card ((\<lambda>r. Record_message_digest L r ns) ` set (seen @ [r])) \<le> 1024"
    using Cons.prems(2) by (rule order.trans [rotated]) (rule card_mono; auto)
  note step = groups_exact_step [OF F Cons.prems(1) this]
  have "certify_stream L F n ns (map (\<lambda>r. (r, True)) rs) (regrouped L F ns r m) =
      (certificates L n ns (seen @ [r]) rs, False)"
    using Cons.prems(2) by (intro Cons.IH [OF step(1)]) simp
  then show ?case
    by (auto simp: certify_step_eq [OF F m] step(2) Let_def split: option.splits)
qed simp

end
