(* ===== verification/HttpApi.thy ===== *)
theory HttpApi
  imports ClientSubscribe
begin

text \<open>
  The REST interface of the client, \<^verbatim>\<open>src/client/api.rs\<close>: the routes, and the handlers, which
  turn the parameters of a request into a call of the client and its result into a response.
  Decoding a request and encoding a response are axum's; a handler starts from the decoded
  parameters and ends with the value to encode.
\<close>

section \<open>Routes\<close>

definition WRITE_PATH :: string where "WRITE_PATH = ''/api/v1/write''"
definition READ_PATH :: string where "READ_PATH = ''/api/v1/read''"
definition READ_CERTIFIED_PATH :: string where "READ_CERTIFIED_PATH = ''/api/v1/read_certified''"
definition READ_MESSAGE_PATH :: string where "READ_MESSAGE_PATH = ''/api/v1/read_message''"
definition SUBSCRIBE_PATH :: string where "SUBSCRIBE_PATH = ''/api/v1/subscribe''"
definition SUBSCRIBE_CERTIFIED_PATH :: string where
  "SUBSCRIBE_CERTIFIED_PATH = ''/api/v1/subscribe_certified''"

datatype http_method = POST | GET

datatype handler =
    HWrite | HRead | HReadCertified | HReadMessage | HSubscribe | HSubscribeCertified

definition router :: "(string \<times> http_method \<times> handler) list" where
  "router =
     [(WRITE_PATH, POST, HWrite),
      (READ_PATH, GET, HRead),
      (READ_CERTIFIED_PATH, GET, HReadCertified),
      (READ_MESSAGE_PATH, GET, HReadMessage),
      (SUBSCRIBE_PATH, GET, HSubscribe),
      (SUBSCRIBE_CERTIFIED_PATH, GET, HSubscribeCertified)]"

text \<open>
  \<^verbatim>\<open>run_api\<close>: the routes with the client as their state, served on a port of all addresses; \<open>bind\<close>
  is the outcome of binding it. The handle of the serving task is the server itself.
\<close>

record 'pk ApiServer =
  server_routes :: "(string \<times> http_method \<times> handler) list"
  server_state :: "'pk Client"
  server_port :: "16 word"

definition run_api :: "(16 word \<Rightarrow> 'e option) \<Rightarrow> 'pk Client \<Rightarrow> 16 word \<Rightarrow> ('e, 'pk ApiServer) res" where
  "run_api bind self port =
     (case bind port of
        Some e \<Rightarrow> Err e
      | None \<Rightarrow> Ok \<lparr>server_routes = router, server_state = self, server_port = port\<rparr>)"

section \<open>Handlers\<close>

record WriteRequest =
  wr_namespace :: string
  wr_message :: bytes

record ReadParams =
  rp_namespace :: string
  rp_start :: u64
  rp_end :: u64

record ReadMessageParams =
  rmp_namespace :: string
  rmp_msg_id :: B256

record NamespaceParams =
  np_namespace :: string

text \<open>A JSON response, a bare status code, or a panic of the handler's task.\<close>

datatype 'a http_response = Json 'a | Status nat | Panicked

text \<open>\<^verbatim>\<open>Bytes::from(s.as_bytes().to_owned())\<close>.\<close>

definition as_bytes :: "string \<Rightarrow> bytes" where
  "as_bytes s = map of_char s"

definition INTERNAL_SERVER_ERROR :: nat where
  "INTERNAL_SERVER_ERROR = 500"

text \<open>\<^verbatim>\<open>.map(Json).map_err(|_| StatusCode::INTERNAL_SERVER_ERROR)\<close>.\<close>

fun respond_json :: "('e, 'a) res \<Rightarrow> 'a http_response" where
  "respond_json (Ok a) = Json a"
| "respond_json (Err e) = Status INTERNAL_SERVER_ERROR"
| "respond_json Panic = Panicked"

definition api_write ::
  "profile \<Rightarrow> ('sk, 'pk, 'sig, 'agg) lib \<Rightarrow> 'sig json \<Rightarrow> 'pk Client \<Rightarrow> WriteRequest \<Rightarrow>
     completion list \<Rightarrow> 'agg CertifiedRecord http_response" where
  "api_write p L J client request completions =
     (let namespace = as_bytes (wr_namespace request)
      in respond_json (client_write p L J client namespace (Message (wr_message request)) completions))"

definition api_read ::
  "('sk, 'pk, 'sig, 'agg) lib \<Rightarrow> 'sig json \<Rightarrow> 'pk Client \<Rightarrow> ReadParams \<Rightarrow> completion list \<Rightarrow>
     (nat \<Rightarrow> nat list) \<Rightarrow> 'sig Log http_response" where
  "api_read L J client params completions order =
     (let namespace = as_bytes (rp_namespace params)
      in respond_json
           (client_read L J client namespace (ts_from_u64 (rp_start params))
             (ts_from_u64 (rp_end params)) completions order))"

definition api_read_certified ::
  "profile \<Rightarrow> ('sk, 'pk, 'sig, 'agg) lib \<Rightarrow> 'sig json \<Rightarrow> 'pk Client \<Rightarrow> ReadParams \<Rightarrow>
     completion list \<Rightarrow> (nat \<Rightarrow> nat list) \<Rightarrow> (nat \<Rightarrow> completion list) \<Rightarrow> 'agg CertifiedLog http_response" where
  "api_read_certified p L J client params completions order rounds =
     (let namespace = as_bytes (rp_namespace params)
      in respond_json
           (client_read_certified p L J client namespace (ts_from_u64 (rp_start params))
             (ts_from_u64 (rp_end params)) completions order rounds))"

definition api_read_message ::
  "profile \<Rightarrow> ('sk, 'pk, 'sig, 'agg) lib \<Rightarrow> 'sig json \<Rightarrow> 'pk Client \<Rightarrow> ReadMessageParams \<Rightarrow>
     completion list \<Rightarrow> 'agg CertifiedReadMessageResponse http_response" where
  "api_read_message p L J client params completions =
     (let namespace = as_bytes (rmp_namespace params)
      in respond_json (client_read_message p L J client namespace (rmp_msg_id params) completions))"

text \<open>
  The two event streams. \<open>to_string\<close> is \<^verbatim>\<open>serde_json::to_string\<close> (third-party); an item
  that does not serialise becomes an error item. A subscription that fails panics.
\<close>

record sse_event =
  ev_data :: string
  ev_event :: string
  ev_retry_ms :: nat

definition to_event :: "('a \<Rightarrow> string option) \<Rightarrow> 'a \<Rightarrow> unit + sse_event" where
  "to_event to_string record =
     (case to_string record of
        Some json \<Rightarrow> Inr \<lparr>ev_data = json, ev_event = ''record'', ev_retry_ms = 50\<rparr>
      | None \<Rightarrow> Inl ())"

text \<open>
  \<open>received\<close> stands for the records the consumer takes from the stream of the subscription to
  the publishers found.
\<close>

definition api_subscribe ::
  "'sig json \<Rightarrow> ('sig Record \<Rightarrow> string option) \<Rightarrow> NamespaceParams \<Rightarrow> sub_completion list \<Rightarrow>
     ((SocketAddr \<rightharpoonup> nat) \<Rightarrow> 'sig Record list) \<Rightarrow> (unit + sse_event) list http_response" where
  "api_subscribe J to_string params completions received =
     (let namespace = as_bytes (np_namespace params) in
      case client_subscribe J namespace completions of
        Ok publishers \<Rightarrow> Json (map (to_event to_string) (received publishers))
      | Err e \<Rightarrow> Panicked
      | Panic \<Rightarrow> Panicked)"

definition api_subscribe_certified ::
  "('sk, 'pk, 'sig, 'agg) lib \<Rightarrow> 'sig json \<Rightarrow> (B256, 'sig Record list, 'm) fifo \<Rightarrow> 'pk Client \<Rightarrow>
     ('agg CertifiedRecord \<Rightarrow> string option) \<Rightarrow> NamespaceParams \<Rightarrow> sub_completion list \<Rightarrow>
     ((SocketAddr \<rightharpoonup> nat) \<Rightarrow> ('sig Record \<times> bool) list) \<Rightarrow> (unit + sse_event) list http_response" where
  "api_subscribe_certified L J F client to_string params completions received =
     (let namespace = as_bytes (np_namespace params) in
      case client_subscribe J namespace completions of
        Ok publishers \<Rightarrow>
          (case client_subscribe_certified L F client namespace (received publishers) of
             (certified, panicked) \<Rightarrow> Json (map (to_event to_string) certified))
      | Err e \<Rightarrow> Panicked
      | Panic \<Rightarrow> Panicked)"

lemma respond_json_cases:
  "respond_json r = Json a \<longleftrightarrow> r = Ok a"
  "respond_json r = Status n \<longleftrightarrow> (\<exists>e. r = Err e) \<and> n = 500"
  "respond_json r = Panicked \<longleftrightarrow> r = Panic"
  by (cases r; auto simp: INTERNAL_SERVER_ERROR_def)+

lemma router_paths: "distinct (map (\<lambda>(p, m, h). (p, m)) router)" "distinct (map fst router)"
  by (simp_all add: router_def WRITE_PATH_def READ_PATH_def READ_CERTIFIED_PATH_def
      READ_MESSAGE_PATH_def SUBSCRIBE_PATH_def SUBSCRIBE_CERTIFIED_PATH_def)

end
