(* ===== verification/Bootstrap.thy ===== *)
theory Bootstrap
  imports Registry ValidatorNode HttpApi
begin

text \<open>
  The binaries: \<^verbatim>\<open>bin/client.rs\<close> chooses a registry, connects to every validator it lists and
  serves the API; \<^verbatim>\<open>bin/validator.rs\<close> decodes the secret key and starts a validator. What the
  client knows afterwards is proved over the contract \<open>registry\<close>.
\<close>

section \<open>\<^verbatim>\<open>bin/client.rs\<close>\<close>

record CliOpts =
  execution_client_url :: "string option"
  registry_address :: "bytes option"
  registry_path :: "string option"
  api_port :: "16 word"

text \<open>
  \<^verbatim>\<open>CliOpts::test()\<close>, where parsing a path cannot fail.
\<close>

definition CliOpts_test :: CliOpts where
  "CliOpts_test =
     \<lparr>execution_client_url = None, registry_address = None, registry_path = Some ''registry.txt'',
      api_port = 0\<rparr>"

text \<open>
  The choice of the registry: \<open>Inl\<close> is the file's, \<open>Inr\<close> the contract's. \<open>files\<close> opens a
  path, \<open>node\<close> is the contract at an address as a node answers for it.
\<close>

definition choose_registry ::
  "('sk, 'pk, 'sig, 'agg) lib \<Rightarrow> (string \<Rightarrow> Report + (Report + string) list) \<Rightarrow>
     (string \<Rightarrow> bytes \<Rightarrow> ValidatorRegistryContract) \<Rightarrow> CliOpts \<Rightarrow>
     (Report, 'pk FilesystemRegistry + SmartContractRegistry) res" where
  "choose_registry L files node opts =
     (case registry_path opts of
        Some path \<Rightarrow> map_ok Inl (read_from_file L path (files path))
      | None \<Rightarrow>
          (case registry_address opts of
             Some registry_addr \<Rightarrow>
               (case execution_client_url opts of
                  None \<Rightarrow> Err MissingElUrl
                | Some el_url \<Rightarrow> Ok (Inr (SmartContractRegistry_new node el_url registry_addr)))
           | None \<Rightarrow> Err MissingRegistry))"

fun dyn_all_validators ::
  "('sk, 'pk, 'sig, 'agg) lib \<Rightarrow> 'pk FilesystemRegistry + SmartContractRegistry \<Rightarrow>
     (Report, 'pk ValidatorInfo list) res" where
  "dyn_all_validators L (Inl r) = fs_all_validators r"
| "dyn_all_validators L (Inr r) = get_all_validators L r"

fun dyn_validator_count ::
  "'pk FilesystemRegistry + SmartContractRegistry \<Rightarrow> (Report, u64) res" where
  "dyn_validator_count (Inl r) = fs_validator_count r"
| "dyn_validator_count (Inr r) = get_validator_count r"

text \<open>The loop over the validators: the first connection that fails ends the program.\<close>

fun connect_all ::
  "(string \<Rightarrow> ReqError + SocketAddr list) \<Rightarrow> (SocketAddr \<Rightarrow> ReqError option) \<Rightarrow>
     'pk ValidatorInfo list \<Rightarrow> 'pk Client \<Rightarrow> (Report, 'pk Client) res" where
  "connect_all lookup connect [] client = Ok client"
| "connect_all lookup connect (validator # vs) client =
     (case connect_validator lookup connect client (identity validator) (info_socket validator) of
        Ok client \<Rightarrow> connect_all lookup connect vs client
      | Err e \<Rightarrow> Err (ConnectError e)
      | Panic \<Rightarrow> Panic)"

text \<open>
  \<^verbatim>\<open>main\<close> up to the running API: \<open>bind\<close> is the result of \<^verbatim>\<open>run_api\<close> binding its port.
\<close>

definition client_main ::
  "('sk, 'pk, 'sig, 'agg) lib \<Rightarrow> (string \<Rightarrow> Report + (Report + string) list) \<Rightarrow>
     (string \<Rightarrow> bytes \<Rightarrow> ValidatorRegistryContract) \<Rightarrow> (string \<Rightarrow> ReqError + SocketAddr list) \<Rightarrow>
     (SocketAddr \<Rightarrow> ReqError option) \<Rightarrow> (16 word \<Rightarrow> Report option) \<Rightarrow> CliOpts \<Rightarrow>
     (Report, 'pk Client) res" where
  "client_main L files node lookup connect bind opts =
     (case choose_registry L files node opts of
        Err e \<Rightarrow> Err e
      | Panic \<Rightarrow> Panic
      | Ok reg \<Rightarrow>
          (case dyn_all_validators L reg of
             Err e \<Rightarrow> Err e
           | Panic \<Rightarrow> Panic
           | Ok vs \<Rightarrow>
               (case connect_all lookup connect vs Client_new of
                  Err e \<Rightarrow> Err e
                | Panic \<Rightarrow> Panic
                | Ok client \<Rightarrow>
                    map_ok server_state (run_api bind client (api_port opts)))))"

text \<open>The validators of a client, as the list of what it was connected to.\<close>

definition info_key :: "'pk ValidatorInfo \<Rightarrow> nat \<times> 'pk" where
  "info_key v = (unat (info_index v), info_bls_pub_key v)"

lemma connect_all_step:
  assumes "connect_all lookup connect (v # vs) c = Ok c'"
  shows "\<exists>c1. connect_validator lookup connect c (identity v) (info_socket v) = Ok c1 \<and>
    validators c1 = (validators c)(fst (info_key v) \<mapsto> snd (info_key v)) \<and>
    connect_all lookup connect vs c1 = Ok c'"
  using assms connect_validator_Ok(1)
  by (fastforce simp: identity_def info_key_def split: res.splits)

lemma connect_all_Ok:
  assumes "connect_all lookup connect vs c = Ok c'"
  shows "validators c' = validators c ++ map_of (rev (map info_key vs))"
    and "client_ok c \<Longrightarrow> client_ok c'"
proof -
  have "validators c' = validators c ++ map_of (rev (map info_key vs)) \<and> (client_ok c \<longrightarrow> client_ok c')"
    using assms
  proof (induction vs arbitrary: c)
    case (Cons v vs)
    from connect_all_step [OF Cons.prems] obtain c1 where
      c1: "connect_validator lookup connect c (identity v) (info_socket v) = Ok c1"
        "validators c1 = (validators c)(fst (info_key v) \<mapsto> snd (info_key v))"
      and rest: "connect_all lookup connect vs c1 = Ok c'" by blast
    have "m ++ map_of (rev (map info_key vs) @ [info_key v]) =
        m(fst (info_key v) \<mapsto> snd (info_key v)) ++ map_of (rev (map info_key vs))" for m
      by (cases "info_key v") (simp add: map_add_assoc)
    with Cons.IH [OF rest] c1 client_ok_connect [OF _ c1(1)] show ?case
      by (simp add: fun_upd_def)
  qed simp
  then show "validators c' = validators c ++ map_of (rev (map info_key vs))"
    and "client_ok c \<Longrightarrow> client_ok c'" by simp_all
qed

lemma connect_all_dom:
  assumes "connect_all lookup connect vs Client_new = Ok c"
  shows "dom (validators c) = (\<lambda>v. unat (info_index v)) ` set vs"
  using connect_all_Ok(1) [OF assms]
  by (simp add: Client_new_def dom_map_of_conv_image_fst image_image info_key_def)

text \<open>A registry with the indices \<open>0, \<dots>, n - 1\<close> gives a client whose operations fit it.\<close>

lemma connect_all_dense:
  assumes "connect_all lookup connect vs Client_new = Ok c"
    and "map (\<lambda>v. unat (info_index v)) vs = [0..<length vs]"
  shows "dense c" "validator_count c = length vs" "client_ok c"
proof -
  have d: "dom (validators c) = {..<length vs}"
    using connect_all_dom [OF assms(1)] assms(2) by (metis atLeast_upt set_map)
  then show n: "validator_count c = length vs" by (simp add: validator_count_def)
  with d show "dense c" by (simp add: dense_def)
  show "client_ok c" using connect_all_Ok(2) [OF assms(1) client_ok_new] .
qed

context registry
begin

text \<open>A client never knows more validators than its registry counts.\<close>

lemma client_bounded:
  assumes "ok r" "all_validators r = Ok vs" "connect_all lookup connect vs Client_new = Ok c"
  shows "\<exists>n. validator_count_of r = Ok n \<and> validator_count c \<le> unat n"
proof -
  have "validator_count c \<le> length vs"
    unfolding validator_count_def connect_all_dom [OF assms(3)]
    by (rule order.trans [OF card_image_le card_length]) simp
  with listed [OF assms(1,2)] show ?thesis by auto
qed

end

section \<open>\<^verbatim>\<open>bin/validator.rs\<close>\<close>

datatype BackendType = InMemory | Filesystem

record RunOpts =
  run_port :: "16 word"
  run_secret_key :: string
  run_backend :: BackendType

record RegisterOpts =
  reg_pubkey :: string

datatype SubCommand = Run RunOpts | Register RegisterOpts

record ValidatorCliOpts =
  cmd :: SubCommand

text \<open>
  \<^verbatim>\<open>main\<close>, up to the point where the validator is awaited: \<open>None\<close> is a command that runs no
  validator. The filesystem backend is \<^verbatim>\<open>todo!()\<close>, a panic.
\<close>

definition validator_main ::
  "('sk, 'pk, 'sig, 'agg) lib \<Rightarrow> (SocketAddr \<Rightarrow> Report + SocketAddr) \<Rightarrow>
     (SocketAddr \<Rightarrow> Report + SocketAddr) \<Rightarrow> ValidatorCliOpts \<Rightarrow>
     (Report, ('m InMemoryStore, 'sk) Validator option) res" where
  "validator_main L bind_rep bind_pub opts =
     (case cmd opts of
        Run run_opts \<Rightarrow>
          (case hex_decode L (run_secret_key run_opts) of
             None \<Rightarrow> Err HexError
           | Some decoded \<Rightarrow>
               (case sk_from_bytes L decoded of
                  Inl e \<Rightarrow> Err (InvalidSecretKey e)
                | Inr sk \<Rightarrow>
                    (case run_backend run_opts of
                       InMemory \<Rightarrow> map_ok Some (new_in_memory bind_rep bind_pub sk (run_port run_opts))
                     | Filesystem \<Rightarrow> Panic)))
      | Register register_opts \<Rightarrow> Ok None)"

end
