(* ===== verification/Contract.thy ===== *)
theory Contract
  imports Registry
begin

text \<open>
  The on-chain registry \<^verbatim>\<open>smart-contracts/src/Registry.sol\<close>, as far as the client depends on it:
  storage, the three transactions and the two calls of \<^verbatim>\<open>SmartContractRegistry\<close>. A storage
  slot never written reads as zero. \<open>None\<close> is a reverted transaction, which leaves the storage
  as it was; arithmetic is checked. Here transactions are atomic steps; the theory \<open>ContractBalance\<close>
  adds the ether of the contract and the calls made by the receiver of a withdrawn stake.
\<close>

section \<open>Storage and transactions\<close>

type_synonym address = "160 word"
type_synonym u256 = "256 word"

record ValidatorRegistry =
  sc_validators :: "address \<Rightarrow> SolValidator"
  sc_indexToPubKey :: "u256 \<Rightarrow> bytes"
  sc_blsPubKeyToValidator :: "bytes \<Rightarrow> address"
  sc_validatorAddresses :: "address list"
  sc_minimumStake :: u256
  sc_validatorCount :: u256

definition no_validator :: SolValidator where
  "no_validator =
     \<lparr>sol_index = 0, sol_blsPubKey = [], sol_stake = 0, sol_socket = [], sol_exists = False\<rparr>"

definition constructor :: "u256 \<Rightarrow> ValidatorRegistry" where
  "constructor minimumStake =
     \<lparr>sc_validators = (\<lambda>_. no_validator), sc_indexToPubKey = (\<lambda>_. []),
      sc_blsPubKeyToValidator = (\<lambda>_. 0), sc_validatorAddresses = [],
      sc_minimumStake = minimumStake, sc_validatorCount = 0\<rparr>"

definition registerValidator ::
  "address \<Rightarrow> u256 \<Rightarrow> bytes \<Rightarrow> string \<Rightarrow> u256 \<Rightarrow> ValidatorRegistry \<Rightarrow> ValidatorRegistry option" where
  "registerValidator sender msg_value blsPubKey socket stake s =
     (if sol_exists (sc_validators s sender) then None
      else if stake < sc_minimumStake s then None
      else if msg_value \<noteq> stake then None
      else if sc_validatorCount s = - 1 then None
      else Some (s\<lparr>
        sc_validators := (sc_validators s)(sender :=
          \<lparr>sol_index = sc_validatorCount s, sol_blsPubKey = blsPubKey, sol_stake = stake,
           sol_socket = socket, sol_exists = True\<rparr>),
        sc_indexToPubKey := (sc_indexToPubKey s)(sc_validatorCount s := blsPubKey),
        sc_blsPubKeyToValidator := (sc_blsPubKeyToValidator s)(blsPubKey := sender),
        sc_validatorAddresses := sc_validatorAddresses s @ [sender],
        sc_validatorCount := sc_validatorCount s + 1\<rparr>))"

definition depositStake :: "address \<Rightarrow> u256 \<Rightarrow> ValidatorRegistry \<Rightarrow> ValidatorRegistry option" where
  "depositStake sender msg_value s =
     (let v = sc_validators s sender in
      if \<not> sol_exists v then None
      else if 2 ^ 256 \<le> unat (sol_stake v) + unat msg_value then None
      else Some (s\<lparr>sc_validators :=
        (sc_validators s)(sender := v\<lparr>sol_stake := sol_stake v + msg_value\<rparr>)\<rparr>))"

text \<open>The loop of \<^verbatim>\<open>removeValidator\<close>: the last address takes the place of the removed one.\<close>

definition remove_address :: "address \<Rightarrow> address list \<Rightarrow> address list" where
  "remove_address a addrs =
     (case takeWhile (\<lambda>b. b \<noteq> a) addrs of
        before \<Rightarrow>
          if length before = length addrs then addrs
          else butlast (addrs[length before := last addrs]))"

definition removeValidator :: "address \<Rightarrow> ValidatorRegistry \<Rightarrow> ValidatorRegistry option" where
  "removeValidator a s =
     (let v = sc_validators s a in
      if \<not> sol_exists v then None
      else Some (s\<lparr>
        sc_validators := (sc_validators s)(a := no_validator),
        sc_indexToPubKey := (sc_indexToPubKey s)(sol_index v := []),
        sc_blsPubKeyToValidator := (sc_blsPubKeyToValidator s)(sol_blsPubKey v := 0),
        sc_validatorAddresses := remove_address a (sc_validatorAddresses s)\<rparr>))"

text \<open>\<open>success\<close> is the outcome of sending the stake back.\<close>

definition withdrawAllStake :: "address \<Rightarrow> bool \<Rightarrow> ValidatorRegistry \<Rightarrow> ValidatorRegistry option" where
  "withdrawAllStake sender success s =
     (let v = sc_validators s sender in
      if \<not> sol_exists v then None
      else if \<not> success then None
      else removeValidator sender
        (s\<lparr>sc_validators := (sc_validators s)(sender := v\<lparr>sol_stake := 0\<rparr>)\<rparr>))"

definition getValidatorByIndex :: "ValidatorRegistry \<Rightarrow> u256 \<Rightarrow> SolValidator option" where
  "getValidatorByIndex s index =
     (let pubKey = sc_indexToPubKey s index;
          validatorAddress = sc_blsPubKeyToValidator s pubKey
      in if \<not> sol_exists (sc_validators s validatorAddress) then None
         else Some (sc_validators s validatorAddress))"

definition getValidatorCount :: "ValidatorRegistry \<Rightarrow> u256" where
  "getValidatorCount s = sc_validatorCount s"

text \<open>What a node that serves this storage answers to the client; \<open>e\<close> is its error for a revert.\<close>

definition instance_of :: "Report \<Rightarrow> ValidatorRegistry \<Rightarrow> ValidatorRegistryContract" where
  "instance_of e s =
     \<lparr>rpc_getValidatorCount = Inr (getValidatorCount s),
      rpc_getValidatorByIndex = (\<lambda>i.
        case getValidatorByIndex s (ucast i) of None \<Rightarrow> Inl e | Some v \<Rightarrow> Inr v)\<rparr>"

definition node_of :: "Report \<Rightarrow> ValidatorRegistry \<Rightarrow> SmartContractRegistry" where
  "node_of e s = \<lparr>contract_instance = instance_of e s\<rparr>"

section \<open>Reachable storage\<close>

inductive transaction :: "ValidatorRegistry \<Rightarrow> ValidatorRegistry \<Rightarrow> bool" where
  register: "registerValidator a x key sock stake s = Some s' \<Longrightarrow> transaction s s'"
| deposit: "depositStake a x s = Some s' \<Longrightarrow> transaction s s'"
| withdraw: "withdrawAllStake a ok s = Some s' \<Longrightarrow> transaction s s'"

inductive deployed :: "ValidatorRegistry \<Rightarrow> bool" where
  created: "deployed (constructor m)"
| transacted: "deployed s \<Longrightarrow> transaction s s' \<Longrightarrow> deployed s'"

inductive_cases transactionE: "transaction s s'"

text \<open>
  The invariant: the address list holds exactly the registered validators, once each; their
  indices are below the count and different.
\<close>

definition storage_ok :: "ValidatorRegistry \<Rightarrow> bool" where
  "storage_ok s \<longleftrightarrow>
     distinct (sc_validatorAddresses s) \<and>
     set (sc_validatorAddresses s) = {a. sol_exists (sc_validators s a)} \<and>
     (\<forall>a. sol_exists (sc_validators s a) \<longrightarrow> sol_index (sc_validators s a) < sc_validatorCount s) \<and>
     (\<forall>a b. sol_exists (sc_validators s a) \<longrightarrow> sol_exists (sc_validators s b) \<longrightarrow>
        sol_index (sc_validators s a) = sol_index (sc_validators s b) \<longrightarrow> a = b)"

lemma remove_address_mset:
  assumes "distinct addrs" "a \<in> set addrs"
  shows "distinct (remove_address a addrs)" "set (remove_address a addrs) = set addrs - {a}"
proof -
  from assms(2) obtain xs ys where split: "addrs = xs @ a # ys" "a \<notin> set xs"
    by (metis split_list_first)
  have tw: "takeWhile (\<lambda>b. b \<noteq> a) addrs = xs"
    using split by (auto simp: takeWhile_append)
  have eq: "remove_address a addrs = (if ys = [] then xs else xs @ last ys # butlast ys)"
    using tw split(1) by (cases ys rule: rev_cases) (auto simp: remove_address_def butlast_append)
  let ?r = "if ys = [] then xs else xs @ last ys # butlast ys"
  have "distinct ?r" "set ?r = set addrs - {a}"
    using assms(1) split by (cases ys rule: rev_cases; auto)+
  then show "distinct (remove_address a addrs)" "set (remove_address a addrs) = set addrs - {a}"
    by (simp_all only: eq)
qed

lemma storage_ok_register:
  assumes "storage_ok s" "registerValidator a x key sock stake s = Some s'"
  shows "storage_ok s'"
proof -
  from assms(2) have new: "\<not> sol_exists (sc_validators s a)" and c: "sc_validatorCount s \<noteq> - 1"
    and s': "sc_validators s' = (sc_validators s)(a := \<lparr>sol_index = sc_validatorCount s,
        sol_blsPubKey = key, sol_stake = stake, sol_socket = sock, sol_exists = True\<rparr>)"
      "sc_validatorAddresses s' = sc_validatorAddresses s @ [a]"
      "sc_validatorCount s' = sc_validatorCount s + 1"
    by (auto simp: registerValidator_def split: if_splits)
  have lt: "sc_validatorCount s < sc_validatorCount s + 1"
  proof -
    have "1 + sc_validatorCount s \<noteq> 0"
      using c max_word_wrap [of "sc_validatorCount s"] by (auto simp: add.commute)
    from unatSuc [OF this] show ?thesis by (simp add: word_less_nat_alt add.commute)
  qed
  then show ?thesis
    using assms(1) new unfolding storage_ok_def s'
    by (auto intro: less_trans)
qed

lemma storage_ok_remove:
  assumes "storage_ok s" "removeValidator a s = Some s'"
  shows "storage_ok s'" "sc_validatorCount s' = sc_validatorCount s"
proof -
  from assms(2) have ex: "sol_exists (sc_validators s a)"
    and s': "sc_validators s' = (sc_validators s)(a := no_validator)"
      "sc_validatorAddresses s' = remove_address a (sc_validatorAddresses s)"
      "sc_validatorCount s' = sc_validatorCount s"
    by (auto simp: removeValidator_def Let_def split: if_splits)
  have "a \<in> set (sc_validatorAddresses s)" using assms(1) ex by (simp add: storage_ok_def)
  with remove_address_mset [OF _ this] assms(1) show "storage_ok s'"
    unfolding storage_ok_def s' by (auto simp: no_validator_def)
  show "sc_validatorCount s' = sc_validatorCount s" by (rule s')
qed

lemma storage_ok_withdraw:
  assumes "storage_ok s" "withdrawAllStake a ok s = Some s'"
  shows "storage_ok s'" "sc_validatorCount s' = sc_validatorCount s"
proof -
  let ?s = "s\<lparr>sc_validators := (sc_validators s)(a := (sc_validators s a)\<lparr>sol_stake := 0\<rparr>)\<rparr>"
  from assms(2) have rm: "removeValidator a ?s = Some s'"
    by (auto simp: withdrawAllStake_def Let_def split: if_splits)
  have "storage_ok ?s" using assms(1) by (auto simp: storage_ok_def)
  from storage_ok_remove [OF this rm] show "storage_ok s'" "sc_validatorCount s' = sc_validatorCount s" by simp_all
qed

lemma storage_ok_deposit:
  assumes "storage_ok s" "depositStake a x s = Some s'"
  shows "storage_ok s'" "sc_validatorCount s' = sc_validatorCount s"
  using assms by (auto simp: depositStake_def storage_ok_def Let_def split: if_splits)

lemma storage_ok_deployed: "deployed s \<Longrightarrow> storage_ok s"
proof (induction rule: deployed.induct)
  case (created m)
  show ?case by (simp add: storage_ok_def constructor_def no_validator_def)
next
  case (transacted s s')
  from transacted.hyps(2) show ?case
    using transacted.IH
    by (auto elim!: transactionE dest: storage_ok_register storage_ok_deposit storage_ok_withdraw)
qed

end
