(* ===== verification/System.thy ===== *)
theory System
  imports PollLoop ClientRead Bootstrap Contract
begin

text \<open>
  Clients and validators together: the answer of a validator to a request of a client, and what
  a client makes of the answers of honest validators.
\<close>

section \<open>Answers\<close>

text \<open>
  What the client's future for a validator yields when the network delivers: the response of
  \<^verbatim>\<open>poll\<close> to the serialised request, or a timeout when there is none.
\<close>

definition answer ::
  "('sk, 'pk, 'sig, 'agg) lib \<Rightarrow> 'sig json \<Rightarrow> ('s, 'sig) DataStore \<Rightarrow> int \<Rightarrow>
     ('s, 'sk) Validator \<Rightarrow> Request \<Rightarrow> reply" where
  "answer L J D clock v req =
     (case Request_serialize J req of
        None \<Rightarrow> TimedOut
      | Some bytes \<Rightarrow>
          (case serve L J D [Incoming bytes clock] v of
             Some (v', [response], pubs) \<Rightarrow> Replied response
           | _ \<Rightarrow> TimedOut))"

lemma answer_eq:
  assumes "json_faithful J"
  shows "answer L J D clock v req =
    (case handle_request L J D clock v req of
       Some (v', Some bs, pub) \<Rightarrow> Replied bs
     | _ \<Rightarrow> TimedOut)"
proof -
  obtain bs where "request_to_vec J req = Some bs" "request_from_slice J bs = Some req"
    using assms unfolding json_faithful_def codec_def by blast
  then show ?thesis by (simp add: answer_def dato_defs split: option.split)
qed

lemma answer_write:
  assumes "json_faithful J" "validator_write L D clock v ns m = Some (r, v')"
  shows "\<exists>bs. answer L J D clock v (Write ns m) = Replied bs \<and> record_from_slice J bs = Some r"
proof -
  obtain bs where bs: "record_to_vec J r = Some bs" "record_from_slice J bs = Some r"
    using assms(1) unfolding json_faithful_def codec_def by blast
  then show ?thesis by (simp add: answer_eq [OF assms(1)] assms(2))
qed

lemma answer_read_message:
  assumes "json_faithful J" "validator_read_message L D clock v ns i = Some resp"
  shows "\<exists>bs. answer L J D clock v (ReadMessage ns i) = Replied bs \<and>
    message_response_from_slice J bs = Some resp"
proof -
  obtain bs where bs: "message_response_to_vec J resp = Some bs" "message_response_from_slice J bs = Some resp"
    using assms(1) unfolding json_faithful_def codec_def by blast
  then show ?thesis by (simp add: answer_eq [OF assms(1)] assms(2))
qed

text \<open>All validators answer, in any order.\<close>

lemma replies_map_Replied: "replies (map (\<lambda>i. (i, Replied (f i))) is) = map (\<lambda>i. (i, f i)) is"
  by (induction "is") simp_all

lemma select_map_all:
  "\<forall>i\<in>set is. g i (f i) = Some (h i) \<Longrightarrow> select g (map (\<lambda>i. (i, f i)) is) = map (\<lambda>i. (i, h i)) is"
  by (induction "is") simp_all

lemma select_map_none: "\<forall>i\<in>set is. g i (f i) = None \<Longrightarrow> select g (map (\<lambda>i. (i, f i)) is) = []"
  by (induction "is") simp_all

section \<open>Honest validators and a client\<close>

text \<open>
  When the first \<open>quorum_threshold n\<close> of the answers are votes with times between \<open>lo\<close> and \<open>hi\<close>,
  the certificate's time is too.
\<close>

lemma certify_range:
  assumes "agg_unchecked_total L" "distinct (map fst votes)" "fst ` set votes \<subseteq> {..<n}"
    and "n \<noteq> 0" "n \<noteq> 4" "has_reached_quorum n (length votes)"
    and "\<forall>(i, r)\<in>set votes. lo \<le> r_timestamp r \<and> r_timestamp r \<le> hi" "ts_nat hi < 2 ^ 127"
  shows "\<exists>cert t. certify p L n m votes = Ok cert \<and> cr_message cert = m \<and>
    certified_timestamp p cert = Some (t, cert) \<and> lo \<le> t \<and> t \<le> hi"
proof -
  have "votes \<noteq> []" using assms(4,6) quorum_threshold_least by fastforce
  then obtain q where q: "aggregate L (sigs votes) = Some q"
    using aggregate_total [OF assms(1), of "sigs votes"] by auto
  have "\<forall>v\<in>set (stamps votes). lo \<le> snd v \<and> snd v \<le> hi" using assms(7) by (auto simp: stamps_def)
  with median_quorum_range [of "stamps votes" n lo hi p] assms obtain t where
    "median_timestamp p (vote_array n (stamps votes)) = Some t" "lo \<le> t" "t \<le> hi" by auto
  with q show ?thesis by (auto simp: certify_def dato_defs Let_def sorted_sort_id)
qed

lemma honest_write:
  assumes "bls_correct L" "json_faithful J"
    and "\<forall>i\<in>set order. validators c i = Some (sk_to_pk L (v_secret_key (v i))) \<and>
      (\<exists>t. ts_now (clock i) = Some t \<and> lo \<le> t \<and> t \<le> hi)"
  shows "\<exists>r. select (write_vote L J c ns m) (replies (map (\<lambda>i. (i, answer L J D (clock i) (v i) (Write ns m))) order)) =
      map (\<lambda>i. (i, r i)) order \<and> (\<forall>i\<in>set order. lo \<le> r_timestamp (r i) \<and> r_timestamp (r i) \<le> hi)"
proof -
  have each: "\<exists>bs r. answer L J D (clock i) (v i) (Write ns m) = Replied bs \<and>
      write_vote L J c ns m i bs = Some r \<and> lo \<le> r_timestamp r \<and> r_timestamp r \<le> hi" if i: "i \<in> set order" for i
  proof -
    obtain r v' where w: "validator_write L D (clock i) (v i) ns m = Some (r, v')"
      using assms(3) i by (auto simp: validator_write_def Let_def)
    note auth = validator_write_authentic [OF assms(1) w]
    obtain bs where "answer L J D (clock i) (v i) (Write ns m) = Replied bs" "record_from_slice J bs = Some r"
      using answer_write [OF assms(2) w] by blast
    moreover have "lo \<le> r_timestamp r \<and> r_timestamp r \<le> hi" using assms(3) i auth(3) by auto
    ultimately show ?thesis
      using assms(3) i auth(1,2) by (intro exI [of _ bs] exI [of _ r]) (simp add: write_vote_Some authentic_def)
  qed
  then obtain bs r where br: "\<forall>i\<in>set order. answer L J D (clock i) (v i) (Write ns m) = Replied (bs i) \<and>
      write_vote L J c ns m i (bs i) = Some (r i) \<and> lo \<le> r_timestamp (r i) \<and> r_timestamp (r i) \<le> hi"
    by metis
  then have "map (\<lambda>i. (i, answer L J D (clock i) (v i) (Write ns m))) order = map (\<lambda>i. (i, Replied (bs i))) order"
    by simp
  then have "replies (map (\<lambda>i. (i, answer L J D (clock i) (v i) (Write ns m))) order) = map (\<lambda>i. (i, bs i)) order"
    by (simp only: replies_map_Replied)
  with select_map_all [of order "write_vote L J c ns m" bs r] br show ?thesis by auto
qed

text \<open>A validator that has served a write answers a query for the message with its record.\<close>

lemma honest_read_message:
  assumes "bls_correct L" "json_faithful J" "node_ok (store_ok L F) (store_content F) L v"
    and "validator_write L (in_memory L F) clock v ns m = Some (r, v')"
    and "validators c i = Some (sk_to_pk L (v_secret_key v))"
  shows "\<exists>bs. answer L J (in_memory L F) clock' v' (ReadMessage ns (Message_digest L m ns)) = Replied bs \<and>
    available_vote L J c ns (Message_digest L m ns) i bs = Some r \<and> unavailable_vote L J c i bs = None"
proof -
  note auth = validator_write_authentic [OF assms(1,4)]
  have "validator_read_message L (in_memory L F) clock' v' ns (Message_digest L m ns) = Some (Available r)"
    using mem.read_message_after_write [OF assms(3,1,4), of clock'] auth(2) by (simp add: Record_message_digest_eq)
  from answer_read_message [OF assms(2) this] obtain bs where
    bs: "answer L J (in_memory L F) clock' v' (ReadMessage ns (Message_digest L m ns)) = Replied bs"
    "message_response_from_slice J bs = Some (Available r)" by blast
  have "available_vote L J c ns (Message_digest L m ns) i bs = Some r"
    using bs(2) auth(1,2) assms(5) by (simp add: available_vote_Some authentic_def)
  with bs(1) vote_exclusive show ?thesis by blast
qed

section \<open>Unanimous answers\<close>

text \<open>
  When the validators that answer are a quorum and all say the same, so does \<^verbatim>\<open>read_message\<close>, in
  whatever order they answer: the loop may stop early, but not before a quorum has answered.
\<close>

lemma unanimous_prefix:
  assumes "distinct order" "\<forall>k\<in>set order. k < n" "has_reached_quorum n (length order)"
    and "map (\<lambda>k. (k, bs k)) order = used @ rest" "rest = [] \<or> has_reached_quorum n (length used) \<or> n \<le> length used"
  shows "\<exists>o'. used = map (\<lambda>k. (k, bs k)) o' \<and> set o' \<subseteq> set order \<and> has_reached_quorum n (length o')"
proof -
  define o' where "o' = take (length used) order"
  have used: "used = map (\<lambda>k. (k, bs k)) o'"
    using arg_cong [OF assms(4), of "take (length used)"] by (simp add: o'_def take_map)
  have "length order = card (set order)" using distinct_card [OF assms(1)] by simp
  also have "\<dots> \<le> n" using card_mono [of "{..<n}" "set order"] assms(2) by auto
  finally have "length order \<le> n" .
  moreover have "length order = length used + length rest" using arg_cong [OF assms(4), of length] by simp
  ultimately have "has_reached_quorum n (length used) \<or> length used = length order"
    using assms(5) by (cases rest) auto
  then have "has_reached_quorum n (length used)" using assms(3) by auto
  moreover have "length o' = length used" using arg_cong [OF used, of length] by simp
  moreover have "set o' \<subseteq> set order" by (simp add: o'_def set_take_subset)
  ultimately show ?thesis using used by metis
qed

lemma read_message_unanimous:
  assumes agg: "agg_unchecked_total L" and req: "request_to_vec J (ReadMessage ns i) \<noteq> None"
    and n: "validator_count c \<noteq> 0"
    and order: "distinct order" "\<forall>k\<in>set order. validators c k \<noteq> None \<and> k < validator_count c"
    and quorum: "has_reached_quorum (validator_count c) (length order)"
  shows "\<forall>k\<in>set order. available_vote L J c ns i k (bs k) = Some (r k) \<and> unavailable_vote L J c k (bs k) = None \<Longrightarrow>
      \<exists>cert. client_read_message Release L J c ns i (map (\<lambda>k. (k, Replied (bs k))) order) = Ok (CertAvailable cert)"
    and "\<forall>k\<in>set order. unavailable_vote L J c k (bs k) = Some (u k) \<and> available_vote L J c ns i k (bs k) = None \<Longrightarrow>
      \<exists>cert. client_read_message Release L J c ns i (map (\<lambda>k. (k, Replied (bs k))) order) = Ok (CertUnavailable cert)"
proof -
  let ?n = "validator_count c" and ?cs = "map (\<lambda>k. (k, Replied (bs k))) order"
  let ?A = "select (available_vote L J c ns i)" and ?U = "select (unavailable_vote L J c)"
  have np: "client_read_message Release L J c ns i ?cs \<noteq> Panic"
    by (rule client_read_message_no_panic [OF agg req n]) (use order(2) in \<open>auto simp: replies_map_Replied\<close>)
  from client_read_message_result [OF np, unfolded Let_def replies_map_Replied] obtain used rest msg where
    split: "map (\<lambda>k. (k, bs k)) order = used @ rest"
    and res: "client_read_message Release L J c ns i ?cs = read_outcome Release L ?n i msg (?A used) (?U used)"
    and fin: "rest = [] \<or> has_reached_quorum ?n (length (?A used)) \<or> has_reached_quorum ?n (length (?U used)) \<or>
      ?n \<le> length (?A used) + length (?U used)" by blast
  have no: "\<not> has_reached_quorum ?n 0" using n quorum_threshold_least [of ?n 0] by auto
  have used: "\<exists>o'. used = map (\<lambda>k. (k, bs k)) o' \<and> set o' \<subseteq> set order \<and> has_reached_quorum ?n (length o')"
    if "rest = [] \<or> has_reached_quorum ?n (length used) \<or> ?n \<le> length used"
    by (rule unanimous_prefix [OF order(1) _ quorum split that]) (use order(2) in simp)
  have pre: "used = map (\<lambda>k. (k, bs k)) (take (length used) order)" "set (take (length used) order) \<subseteq> set order"
    using arg_cong [OF split, of "take (length used)"] by (simp_all add: take_map set_take_subset)
  show "\<exists>cert. client_read_message Release L J c ns i ?cs = Ok (CertAvailable cert)"
    if v: "\<forall>k\<in>set order. available_vote L J c ns i k (bs k) = Some (r k) \<and> unavailable_vote L J c k (bs k) = None"
  proof -
    have av: "?A (map (\<lambda>k. (k, bs k)) o') = map (\<lambda>k. (k, r k)) o'" and uv: "?U (map (\<lambda>k. (k, bs k)) o') = []"
      if "set o' \<subseteq> set order" for o'
      by (rule select_map_all; use v that in blast) (rule select_map_none; use v that in blast)
    have "length (?A used) = length used" "?U used = []"
      using av [OF pre(2)] uv [OF pre(2)] pre(1) by (metis length_map)+
    with fin no used obtain o' where o': "used = map (\<lambda>k. (k, bs k)) o'" "set o' \<subseteq> set order"
      "has_reached_quorum ?n (length o')" by auto
    show ?thesis using np o'(3) unfolding res o'(1) av [OF o'(2)] uv [OF o'(2)]
      by (auto simp: read_outcome_def split: option.splits)
  qed
  show "\<exists>cert. client_read_message Release L J c ns i ?cs = Ok (CertUnavailable cert)"
    if v: "\<forall>k\<in>set order. unavailable_vote L J c k (bs k) = Some (u k) \<and> available_vote L J c ns i k (bs k) = None"
  proof -
    have uv: "?U (map (\<lambda>k. (k, bs k)) o') = map (\<lambda>k. (k, u k)) o'" and av: "?A (map (\<lambda>k. (k, bs k)) o') = []"
      if "set o' \<subseteq> set order" for o'
      by (rule select_map_all; use v that in blast) (rule select_map_none; use v that in blast)
    have "length (?U used) = length used" "?A used = []"
      using av [OF pre(2)] uv [OF pre(2)] pre(1) by (metis length_map)+
    with fin no used obtain o' where o': "used = map (\<lambda>k. (k, bs k)) o'" "set o' \<subseteq> set order"
      "has_reached_quorum ?n (length o')" by auto
    show ?thesis using np no o'(3) unfolding res o'(1) av [OF o'(2)] uv [OF o'(2)]
      by (auto simp: read_outcome_def split: option.splits)
  qed
qed

end
