(* ===== verification/DataProperties.thy ===== *)
theory DataProperties
  imports Quorum
begin

text \<open>
  Properties of the quorum rule, the certified timestamp, the digests and the encodings.
\<close>

section \<open>Quorums\<close>

text \<open>
  Quorum intersection. For every number of validators but 0 and 4, two sets of validators
  that each reach the quorum have a validator in common.
\<close>

theorem quorum_intersection:
  assumes "n \<noteq> 0" "n \<noteq> 4" "A \<subseteq> {..<n}" "B \<subseteq> {..<n}"
    and "has_reached_quorum n (card A)" "has_reached_quorum n (card B)"
  shows "A \<inter> B \<noteq> {}"
proof
  assume "A \<inter> B = {}"
  moreover have "finite A" "finite B" using assms(3,4) finite_subset by blast+
  ultimately have "card A + card B = card (A \<union> B)" by (simp add: card_Un_disjoint)
  also have "\<dots> \<le> n" using card_mono [of "{..<n}" "A \<union> B"] assms(3,4) by simp
  finally show False
    using quorum_majority [OF assms(1,2)] quorum_threshold_least [OF assms(5)]
      quorum_threshold_least [OF assms(6)] by linarith
qed

theorem quorum_intersection_witness: "{0, 1, 2, 3} \<inter> {3, 4, 5, 6 :: nat} \<noteq> {}"
  by (rule quorum_intersection [of 7]) (auto simp: has_reached_quorum_def)

text \<open>
  With four validators two suffice, so two disjoint quorums exist, and the timestamp
  certified from two equal votes is half of the time both voted for, under both profiles.
\<close>

theorem quorum_of_four:
  "has_reached_quorum 4 (card {0, 1 :: nat}) \<and> has_reached_quorum 4 (card {2, 3 :: nat}) \<and>
   {0, 1} \<inter> {2, 3 :: nat} = {} \<and>
   median_timestamp p (vote_array 4 [(0, t), (1, t)]) = Some (Timestamp (ts_value t div 2))"
proof -
  have arr: "mset (vote_array 4 [(0, t), (1, t)]) = mset [ts_default, ts_default, t, t]"
    by (simp add: mset_vote_array numeral_2_eq_2)
  have "sort [ts_default, ts_default, t, t] = [ts_default, ts_default, t, t]"
    by (simp add: sorted_sort_id)
  moreover have "ts_nat ts_default + ts_nat t < 2 ^ 128"
    using ts_nat_bound [of t] by (simp add: ts_default_def ts_nat_def)
  ultimately have "median_timestamp p [ts_default, ts_default, t, t] = Some (Timestamp (ts_value t div 2))"
    by (simp add: median_timestamp_even Let_def numeral_2_eq_2 [symmetric])
      (simp add: ts_default_def)
  with median_timestamp_mset_cong [OF arr] show ?thesis
    by (simp add: has_reached_quorum_def)
qed

text \<open>
  The documented bound, two thirds of the validators, is what the code computes exactly
  when the number of validators is below three or divisible by three; otherwise a quorum can
  be smaller.
\<close>

theorem quorum_two_thirds:
  "(\<forall>v\<le>n. has_reached_quorum n v \<longrightarrow> 2 * n \<le> 3 * v) \<longleftrightarrow> n < 3 \<or> 3 dvd n"
proof
  assume "\<forall>v\<le>n. has_reached_quorum n v \<longrightarrow> 2 * n \<le> 3 * v"
  with quorum_threshold_le [of n] have "2 * n \<le> 3 * quorum_threshold n" by simp
  then show "n < 3 \<or> 3 dvd n" by (auto simp: quorum_threshold_def split: if_splits) presburger
next
  assume n: "n < 3 \<or> 3 dvd n"
  have "2 * n \<le> 3 * quorum_threshold n" using n by (auto simp: quorum_threshold_def)
  then show "\<forall>v\<le>n. has_reached_quorum n v \<longrightarrow> 2 * n \<le> 3 * v"
    using quorum_threshold_least by (meson mult_le_mono2 order.trans)
qed

theorem quorum_two_thirds_witness: "\<not> has_reached_quorum 6 3 \<and> has_reached_quorum 6 4"
  using quorum_two_thirds [of 6] by (auto simp: has_reached_quorum_def)

text \<open>
  Below \<open>2^63\<close> validators the computation on \<^verbatim>\<open>usize\<close> does not wrap and decides the
  quorum as over the natural numbers.
\<close>

theorem quorum_usize_exact:
  assumes "unat n < 2 ^ 63"
  shows "has_reached_quorum_usize n v \<longleftrightarrow> has_reached_quorum (unat n) (unat v)"
  by (rule has_reached_quorum_usize_nat [OF assms])

theorem quorum_usize_exact_witness: "has_reached_quorum_usize 1000 666 \<longleftrightarrow> has_reached_quorum 1000 666"
  using quorum_usize_exact [of 1000 666] by simp

section \<open>The certified timestamp\<close>

lemma length_filter_less_nth:
  assumes "sorted s" "k < length s"
  shows "length (filter (\<lambda>t. t < s ! k) s) \<le> k"
    and "length (filter (\<lambda>t. s ! k < t) s) \<le> length s - 1 - k"
proof -
  have "{i. i < length s \<and> s ! i < s ! k} \<subseteq> {..<k}"
    using assms by (auto simp: not_less [symmetric] intro: sorted_nth_mono)
      (meson leD leI sorted_nth_mono)
  from card_mono [OF _ this] show "length (filter (\<lambda>t. t < s ! k) s) \<le> k"
    by (simp add: length_filter_conv_card)
  have "{i. i < length s \<and> s ! k < s ! i} \<subseteq> {Suc k..<length s}"
    using assms by auto (meson Suc_leI leD leI sorted_nth_mono)
  from card_mono [OF _ this] show "length (filter (\<lambda>t. s ! k < t) s) \<le> length s - 1 - k"
    by (simp add: length_filter_conv_card)
qed

lemma few_below:
  fixes m :: "'a :: linorder"
  assumes "sorted s" "s \<noteq> []" "m \<le> s ! (length s div 2)"
  shows "2 * length (filter (\<lambda>t. t < m) s) \<le> length s"
proof -
  have "length (filter (\<lambda>t. t < m) s) \<le> length (filter (\<lambda>t. t < s ! (length s div 2)) s)"
    unfolding length_filter_conv_card by (rule card_mono) (use assms(3) in auto)
  also have "\<dots> \<le> length s div 2" using assms(1,2) by (intro length_filter_less_nth) auto
  finally show ?thesis by linarith
qed

lemma few_above:
  fixes m :: "'a :: linorder"
  assumes "sorted s" "s \<noteq> []" "s ! ((length s - 1) div 2) \<le> m"
  shows "2 * length (filter (\<lambda>t. m < t) s) \<le> length s"
proof -
  let ?k = "(length s - 1) div 2"
  have "?k < length s" using assms(2) by (cases s) auto
  have "length (filter (\<lambda>t. m < t) s) \<le> length (filter (\<lambda>t. s ! ?k < t) s)"
    unfolding length_filter_conv_card by (rule card_mono) (use assms(3) in auto)
  also have "\<dots> \<le> length s - 1 - ?k"
    using assms(1) \<open>?k < length s\<close> by (intro length_filter_less_nth)
  finally show ?thesis by linarith
qed

text \<open>The median lies between the two middle elements.\<close>

lemma median_between:
  assumes "median_timestamp p ts = Some m" "\<forall>t\<in>set ts. ts_nat t < 2 ^ 127" "ts \<noteq> []"
  shows "sort ts ! ((length ts - 1) div 2) \<le> m" "m \<le> sort ts ! (length ts div 2)"
proof -
  let ?n = "length ts"
  let ?a = "sort ts ! (?n div 2 - 1)" and ?b = "sort ts ! (?n div 2)"
  have n: "?n div 2 < ?n" "?n div 2 - 1 < ?n" using assms(3) by (cases ts; simp)+
  have "sort ts ! ((?n - 1) div 2) \<le> m \<and> m \<le> sort ts ! (?n div 2)"
  proof (cases "even ?n")
    case True
    have half: "(?n - 1) div 2 = ?n div 2 - 1" using True by presburger
    have lt: "ts_nat ?a < 2 ^ 127" "ts_nat ?b < 2 ^ 127"
      using assms(2) n nth_mem [of _ "sort ts"] by auto
    have ab: "ts_nat ?a \<le> ts_nat ?b"
      using n by (simp flip: ts_le_nat) (rule sorted_nth_mono; simp)
    have "m = Timestamp ((ts_value ?a + ts_value ?b) div 2)"
      using assms(1) by (simp add: median_timestamp_even [OF True assms(3)] Let_def split: if_splits)
    then have "ts_nat m = (ts_nat ?a + ts_nat ?b) div 2"
      using lt by (simp add: ts_nat_half_sum)
    moreover have "x \<le> y \<Longrightarrow> x \<le> (x + y) div 2 \<and> (x + y) div 2 \<le> y" for x y :: nat by presburger
    ultimately show ?thesis using ab unfolding half ts_le_nat by simp
  next
    case False
    then have "(?n - 1) div 2 = ?n div 2" by presburger
    with False assms(1) show ?thesis by (simp add: median_timestamp_odd)
  qed
  then show "sort ts ! ((length ts - 1) div 2) \<le> m" "m \<le> sort ts ! (length ts div 2)" by simp_all
qed

text \<open>
  C30: \<^verbatim>\<open>certified_timestamp\<close> returns a median of the timestamps of the certificate: it exists
  for every non-empty array of times below \<open>2^127\<close> under both profiles, at most half of the
  entries lie below it and at most half above; the certificate keeps its message, signature and
  multiset of timestamps, which end up sorted, and asking again gives the same answer.
\<close>

theorem certified_timestamp_median:
  assumes "cr_timestamps c \<noteq> []" "\<forall>t\<in>set (cr_timestamps c). ts_nat t < 2 ^ 127"
  shows "\<exists>m. certified_timestamp p c = Some (m, c\<lparr>cr_timestamps := sort (cr_timestamps c)\<rparr>) \<and>
    2 * length (filter (\<lambda>t. t < m) (cr_timestamps c)) \<le> length (cr_timestamps c) \<and>
    2 * length (filter (\<lambda>t. m < t) (cr_timestamps c)) \<le> length (cr_timestamps c) \<and>
    certified_timestamp p (c\<lparr>cr_timestamps := sort (cr_timestamps c)\<rparr>) =
      Some (m, c\<lparr>cr_timestamps := sort (cr_timestamps c)\<rparr>)"
proof -
  let ?ts = "cr_timestamps c" let ?n = "length (cr_timestamps c)"
  obtain hi where hi: "ts_nat hi < 2 ^ 127" "\<forall>t\<in>set ?ts. t \<le> hi"
    using assms Max_in [of "set ?ts"] Max_ge [of "set ?ts"] by (metis List.finite_set set_empty)
  then have "length (filter (\<lambda>t. hi < t) ?ts) = 0" by (simp add: filter_empty_conv leD)
  moreover have half: "?n div 2 < ?n" "(?n - 1) div 2 < ?n" using assms(1) by (cases ?ts; simp)+
  ultimately obtain m where m: "median_timestamp p ?ts = Some m"
    using median_timestamp_total [OF assms(1) _ hi(1)] by auto
  note between = median_between [OF m assms(2,1)]
  have "sort ?ts \<noteq> []" using assms(1) by (metis length_0_conv length_sort)
  then have "2 * length (filter (\<lambda>t. t < m) (sort ?ts)) \<le> ?n" "2 * length (filter (\<lambda>t. m < t) (sort ?ts)) \<le> ?n"
    using few_below [of "sort ?ts" m] few_above [of "sort ?ts" m] between by simp_all
  then have "2 * length (filter (\<lambda>t. t < m) ?ts) \<le> ?n" "2 * length (filter (\<lambda>t. m < t) ?ts) \<le> ?n"
    by (simp_all add: length_filter_mset)
  with m show ?thesis
    by (intro exI [of _ m]) (simp add: dato_defs Let_def sorted_sort_id)
qed

definition sample_certificate :: "unit CertifiedRecord" where
  "sample_certificate =
     \<lparr>cr_timestamps = [Timestamp 30, Timestamp 10, Timestamp 20], cr_message = Message [1],
      cr_quorum_signature = ()\<rparr>"

theorem certified_timestamp_median_witness:
  "\<exists>m. certified_timestamp Dev sample_certificate =
     Some (m, sample_certificate\<lparr>cr_timestamps := [Timestamp 10, Timestamp 20, Timestamp 30]\<rparr>)"
  using certified_timestamp_median [of sample_certificate Dev]
  by (auto simp: sample_certificate_def ts_nat_def)

text \<open>
  \<^verbatim>\<open>certified_timestamp\<close> panics on an empty certificate under both profiles, and on sums
  above \<open>2^128\<close> under \<^verbatim>\<open>dev\<close>; under \<^verbatim>\<open>release\<close> an empty array is the only cause.
\<close>

theorem certified_timestamp_panics:
  "(certified_timestamp Release c = None \<longleftrightarrow> cr_timestamps c = []) \<and>
   (certified_timestamp Dev c = None \<longleftrightarrow>
      cr_timestamps c = [] \<or>
      even (length (cr_timestamps c)) \<and>
      2 ^ 128 \<le> ts_nat (sort (cr_timestamps c) ! (length (cr_timestamps c) div 2 - 1)) +
        ts_nat (sort (cr_timestamps c) ! (length (cr_timestamps c) div 2)))"
proof (cases "cr_timestamps c = []")
  case False
  then show ?thesis
    by (cases "even (length (cr_timestamps c))")
      (auto simp: dato_defs Let_def median_timestamp_even median_timestamp_odd)
qed (simp add: dato_defs)

text \<open>
  C18: for every number of validators but 0 and 4, the timestamp certified from a quorum of
  votes lies within the range of the votes, although the array holds zeros for the validators
  that did not vote.
\<close>

theorem quorum_median_in_range:
  assumes "distinct (map fst votes)" "fst ` set votes \<subseteq> {..<n}" "n \<noteq> 0" "n \<noteq> 4"
    and "has_reached_quorum n (length votes)"
    and "\<forall>v\<in>set votes. lo \<le> snd v \<and> snd v \<le> hi" "ts_nat hi < 2 ^ 127"
  shows "\<exists>m. certified_timestamp p
      \<lparr>cr_timestamps = vote_array n votes, cr_message = msg, cr_quorum_signature = q\<rparr> =
      Some (m, \<lparr>cr_timestamps = sort (vote_array n votes), cr_message = msg, cr_quorum_signature = q\<rparr>) \<and>
    lo \<le> m \<and> m \<le> hi"
  using median_quorum_range [OF assms, of p] by (auto simp: dato_defs Let_def)

theorem quorum_median_in_range_witness:
  "\<exists>m. certified_timestamp Dev
      \<lparr>cr_timestamps = vote_array 3 [(2, Timestamp 9), (0, Timestamp 5)], cr_message = Message [],
       cr_quorum_signature = ()\<rparr> =
      Some (m, \<lparr>cr_timestamps = sort (vote_array 3 [(2, Timestamp 9), (0, Timestamp 5)]),
        cr_message = Message [], cr_quorum_signature = ()\<rparr>) \<and>
    Timestamp 5 \<le> m \<and> m \<le> Timestamp 9"
  by (rule quorum_median_in_range) (simp_all add: has_reached_quorum_def ts_nat_def)

text \<open>
  Votes above \<open>hi\<close> that are fewer than half of all validators (rounded up) cannot move the
  certified timestamp above \<open>hi\<close>, whatever the others voted and however many did not vote.
\<close>

theorem byzantine_upper_bound:
  assumes "distinct (map fst votes)" "fst ` set votes \<subseteq> {..<n}"
    and "length (filter (\<lambda>v. hi < snd v) votes) + n div 2 < n"
    and "certified_timestamp p \<lparr>cr_timestamps = vote_array n votes, cr_message = msg,
      cr_quorum_signature = q\<rparr> = Some (m, c)"
  shows "m \<le> hi"
proof -
  have "median_timestamp p (vote_array n votes) = Some m"
    using assms(4) by (auto simp: dato_defs Let_def)
  then show ?thesis
    by (rule median_timestamp_le) (simp add: vote_array_above [OF assms(1,2)] assms(3))
qed

theorem byzantine_upper_bound_witness:
  "\<exists>m c. certified_timestamp Dev \<lparr>cr_timestamps = vote_array 3 [(0, Timestamp 900), (1, Timestamp 5)],
      cr_message = Message [], cr_quorum_signature = ()\<rparr> = Some (m, c) \<and> m \<le> Timestamp 5"
proof -
  let ?votes = "[(0, Timestamp 900), (1, Timestamp 5)] :: (nat \<times> Timestamp) list"
  let ?c = "\<lparr>cr_timestamps = vote_array 3 ?votes, cr_message = Message [], cr_quorum_signature = ()\<rparr>"
  obtain m c where mc: "certified_timestamp Dev ?c = Some (m, c)"
    by (auto simp: dato_defs median_timestamp_odd Let_def)
  from byzantine_upper_bound [OF _ _ _ mc] have "m \<le> Timestamp 5" by simp
  with mc show ?thesis by blast
qed

text \<open>
  Downwards there is no such margin: with 3, 5 or 7 validators and a minimal quorum of
  votes, one single vote for time zero makes the certified timestamp zero, whatever the other
  voters saw.
\<close>

theorem byzantine_zero_vote:
  assumes "n \<in> {3, 5, 7}" "distinct (map fst votes)" "fst ` set votes \<subseteq> {..<n}"
    and "length votes = quorum_threshold n" "\<exists>v\<in>set votes. snd v = ts_default"
  shows "has_reached_quorum n (length votes) \<and>
    certified_timestamp p \<lparr>cr_timestamps = vote_array n votes, cr_message = msg, cr_quorum_signature = q\<rparr> =
      Some (ts_default, \<lparr>cr_timestamps = sort (vote_array n votes), cr_message = msg, cr_quorum_signature = q\<rparr>)"
proof -
  let ?arr = "vote_array n votes"
  have odd: "odd n" "quorum_threshold n - 1 + n div 2 < n" using assms(1) by (auto simp: quorum_threshold_def)
  have "length (filter (\<lambda>v. ts_default < snd v) votes) < length votes"
  proof -
    from assms(5) obtain v where "v \<in> set votes" "snd v = ts_default" by blast
    then show ?thesis by (intro length_filter_less [of v]) simp_all
  qed
  then have "length (filter (\<lambda>t. ts_default < t) ?arr) + n div 2 < n"
    using odd(2) assms(4) by (simp add: vote_array_above [OF assms(2,3)])
  then have "sort ?arr ! (n div 2) \<le> ts_default" by (intro sort_nth_le) simp
  then have "sort ?arr ! (n div 2) = ts_default" by (simp add: order.antisym)
  then show ?thesis
    using odd(1) assms(4) by (simp add: dato_defs median_timestamp_odd Let_def)
qed

theorem byzantine_zero_vote_witness:
  "\<exists>c. certified_timestamp Release
      \<lparr>cr_timestamps = vote_array 7 [(0, Timestamp 70), (3, Timestamp 71), (5, ts_default), (6, Timestamp 72)],
       cr_message = Message [], cr_quorum_signature = ()\<rparr> = Some (ts_default, c)"
proof -
  have votes: "distinct (map fst [(0 :: nat, Timestamp 70), (3, Timestamp 71), (5, ts_default), (6, Timestamp 72)])"
    "fst ` set [(0, Timestamp 70), (3, Timestamp 71), (5, ts_default), (6, Timestamp 72)] \<subseteq> {..<7 :: nat}"
    "length [(0 :: nat, Timestamp 70), (3, Timestamp 71), (5, ts_default), (6, Timestamp 72)] = quorum_threshold 7"
    by (auto simp: quorum_threshold_def)
  from byzantine_zero_vote [OF _ votes] show ?thesis by fastforce
qed

section \<open>Digests\<close>

text \<open>
  For a fixed namespace a digest binds what it is made of, up to a collision of the hash:
  the record digest the timestamp and the message, the message digest the message, the digest
  of an unavailable message the identifier and the timestamp.
\<close>

theorem digests_bind:
  assumes "no_collision L (record_preimage ns (r_timestamp r) (r_message r))
      (record_preimage ns (r_timestamp r') (r_message r'))"
    and "no_collision L (message_preimage ns m) (message_preimage ns m')"
    and "no_collision L (unavailable_preimage (um_msg_id u) (um_timestamp u))
      (unavailable_preimage (um_msg_id u') (um_timestamp u'))"
  shows "(Record_digest L r ns = Record_digest L r' ns \<longleftrightarrow>
      r_timestamp r = r_timestamp r' \<and> r_message r = r_message r') \<and>
    (Message_digest L m ns = Message_digest L m' ns \<longleftrightarrow> m = m') \<and>
    (UnavailableMessage_digest L u = UnavailableMessage_digest L u' \<longleftrightarrow>
      um_msg_id u = um_msg_id u' \<and> um_timestamp u = um_timestamp u')"
  using assms unfolding no_collision_def Record_digest_def Message_digest_def UnavailableMessage_digest_def
  by (metis record_preimage_inject message_preimage_inject unavailable_preimage_inject)

theorem digests_bind_witness:
  "Message_digest toy_lib (Message [1]) [7] \<noteq> Message_digest toy_lib (Message [2]) [7]"
  using digests_bind [OF toy_no_collision toy_no_collision toy_no_collision,
      of "\<lparr>r_timestamp = ts_default, r_message = Message [], r_signature = (0, [])\<rparr>" "[7]"
        "\<lparr>r_timestamp = ts_default, r_message = Message [], r_signature = (0, [])\<rparr>" "Message [1]" "Message [2]"
        "\<lparr>um_timestamp = ts_default, um_msg_id = [], um_signature = (0, [])\<rparr>"
        "\<lparr>um_timestamp = ts_default, um_msg_id = [], um_signature = (0, [])\<rparr>"]
  by simp

text \<open>
  Across namespaces the record digest binds nothing, because its parts are concatenated
  without separators: the signature of a record in the namespace \<open>ns @ to_le_bytes t' @ x\<close> is
  also the signature of a record in the namespace \<open>ns\<close> with the freely chosen timestamp \<open>t'\<close>.
\<close>

theorem record_digest_ambiguous:
  "Record_digest L \<lparr>r_timestamp = t, r_message = m, r_signature = s\<rparr> (ns @ to_le_bytes (ts_value t') @ x) =
   Record_digest L \<lparr>r_timestamp = t', r_message = Message (x @ to_le_bytes (ts_value t) @ msg_bytes m),
     r_signature = s\<rparr> ns"
  by (simp add: Record_digest_def record_preimage_def)

text \<open>
  Nor do digests tell the two kinds of statement apart: the digest that says the message
  \<open>i\<close> is unavailable at time \<open>t\<close> is the digest of the record of an empty message at time \<open>t\<close> in
  the namespace \<open>i\<close>, and that of a message in the namespace made of \<open>i\<close> followed by \<open>t\<close>.
\<close>

theorem unavailable_digest_ambiguous:
  "UnavailableMessage_digest L \<lparr>um_timestamp = t, um_msg_id = i, um_signature = s\<rparr> =
     Record_digest L \<lparr>r_timestamp = t, r_message = Message [], r_signature = s\<rparr> i \<and>
   UnavailableMessage_digest L \<lparr>um_timestamp = t, um_msg_id = i, um_signature = s\<rparr> =
     Message_digest L (Message []) (i @ to_le_bytes (ts_value t))"
  by (simp add: UnavailableMessage_digest_def Record_digest_def Message_digest_def
      unavailable_preimage_def record_preimage_def message_preimage_def)

section \<open>Encodings\<close>

text \<open>
  The little-endian encoding of a timestamp has sixteen bytes and decodes to it, so
  different timestamps have different encodings.
\<close>

theorem le_bytes_correct:
  "length (to_le_bytes v) = 16 \<and> from_le_bytes (to_le_bytes v) = v \<and>
   (to_le_bytes v = to_le_bytes w \<longleftrightarrow> v = w)"
  by (simp add: le_bytes_roundtrip)

text \<open>
  The two serde modules write signatures that they read back, an aggregate as the aggregate
  of its signature; what is not hex, or not a signature, is an error and not a panic.
\<close>

theorem serde_bls_correct:
  assumes "hex_roundtrip L" "sig_bytes_roundtrip L"
  shows "serde_bls_deserialize L (serde_bls_serialize L sig) = Inr sig \<and>
    serde_bls_aggregate_deserialize L (serde_bls_aggregate_serialize L agg) =
      Inr (agg_from_signature L (agg_to_signature L agg)) \<and>
    (serde_bls_deserialize L str = Inl DeHex \<longleftrightarrow> hex_decode L str = None) \<and>
    (serde_bls_aggregate_deserialize L str = Inl DeHex \<longleftrightarrow> hex_decode L str = None)"
  using serde_bls_inverse [OF assms] serde_bls_aggregate_inverse [OF assms]
  by (auto simp: serde_bls_deserialize_def serde_bls_aggregate_deserialize_def
      split: option.splits sum.splits)

theorem serde_bls_correct_witness:
  "serde_bls_deserialize toy_lib (serde_bls_serialize toy_lib (3, [1, 2])) = Inr (3, [1, 2])"
  using serde_bls_correct [OF toy_hex_roundtrip toy_sig_roundtrip] by blast

text \<open>
  \<^verbatim>\<open>duration_since\<close> gives the time between the timestamp and now, less the age of the
  instant, whenever that is not negative and the times fit 64 bits, under both profiles. A
  timestamp ahead of the clock panics under \<^verbatim>\<open>dev\<close>.
\<close>

theorem duration_since_correct:
  assumes "0 \<le> clock" "nat (clock div 1000000) < 2 ^ 64" "ts_nat t < 2 ^ 64"
  shows "(elapsed \<le> (nat (clock div 1000000) - ts_nat t) * 1000000 \<and> ts_nat t \<le> nat (clock div 1000000) \<longrightarrow>
      ts_duration_since p clock elapsed t =
        Some ((nat (clock div 1000000) - ts_nat t) * 1000000 - elapsed)) \<and>
    (nat (clock div 1000000) < ts_nat t \<longrightarrow> ts_duration_since Dev clock elapsed t = None)"
proof -
  let ?since = "ucast (word_of_int (clock div 1000000) :: u128) :: u64" and ?own = "ucast (ts_value t) :: u64"
  have ms: "0 \<le> clock div 1000000" "clock div 1000000 < 2 ^ 64"
    using assms(1,2) by (simp_all add: pos_imp_zdiv_nonneg_iff nat_less_iff)
  then have "take_bit 64 (clock div 1000000) = clock div 1000000" by (simp add: take_bit_int_eq_self)
  then have since: "unat ?since = nat (clock div 1000000)"
    by (simp add: unsigned_ucast_eq unsigned_of_int take_bit_nat_eq flip: nat_take_bit_eq)
  have own: "unat ?own = ts_nat t"
    using assms(3) by (simp add: ts_nat_def unsigned_ucast_eq take_bit_nat_eq_self)
  have "unat (?since - ?own) = unat ?since - unat ?own" if "?own \<le> ?since"
    using that by (simp add: unat_sub)
  then show ?thesis
    using assms(1) since own
    by (auto simp: ts_duration_since_def Let_def word_less_nat_alt word_le_nat_alt)
qed

theorem duration_since_correct_witness:
  "ts_duration_since Dev 5000000000 0 (Timestamp 3000) = Some 2000000000"
  using duration_since_correct [of 5000000000 "Timestamp 3000" 0 Dev] by (simp add: ts_nat_def)

end
