(* ===== verification/RegistryProperties.thy ===== *)
theory RegistryProperties
  imports Bootstrap Contract
begin

text \<open>
  Properties of the registries, of the key generator, and of a client started from them.
\<close>

section \<open>Files\<close>

lemma toy_hex_alphabet: "hex_alphabet toy_lib"
  using set_toy_hex by (fastforce simp: hex_alphabet_def toy_lib_def)

lemma toy_gen_keys: "gen_keys_loop toy_lib rng is f \<noteq> None"
  by (induction "is" arbitrary: f) (simp_all add: random_bls_secret_def toy_lib_def)

lemma connect_all_total:
  assumes "\<forall>v\<in>set vs. \<exists>a as. lookup (info_socket v) = Inr (a # as)" "\<forall>a. connect a = None"
  shows "\<exists>c'. connect_all lookup connect vs c = Ok c'"
  using assms(1) by (induction vs arbitrary: c) (auto simp: connect_validator_def assms(2))

lemma client_of_generated:
  assumes "read_from_file L path (files path) =
      Ok \<lparr>fr_path = path, fr_validators = map (\<lambda>i. key_info L i (sk i)) [0..<1000]\<rparr>"
    and "registry_path opts = Some path"
    and "\<forall>i. \<exists>a as. lookup (host_name i) = Inr (a # as)" "\<forall>a. connect a = None"
    and "bind (api_port opts) = None"
  shows "\<exists>c. client_main L files node lookup connect bind opts = Ok c \<and>
    dense c \<and> validator_count c = 1000 \<and> client_ok c \<and>
    (\<forall>i<1000. validators c i = Some (sk_to_pk L (sk i)))"
proof -
  let ?vs = "map (\<lambda>i. key_info L i (sk i)) [0..<1000]"
  have "\<forall>v\<in>set ?vs. \<exists>a as. lookup (info_socket v) = Inr (a # as)"
    using assms(3) by (simp add: key_info_def)
  from connect_all_total [OF this assms(4)] obtain c where
    c: "connect_all lookup connect ?vs Client_new = Ok c" by blast
  have key: "info_key (key_info L i (sk i)) = (i, sk_to_pk L (sk i))" if "i < 1000" for i
    using that by (simp add: info_key_def key_info_def unsigned_of_nat take_bit_nat_eq_self)
  have keys: "map info_key ?vs = map (\<lambda>i. (i, sk_to_pk L (sk i))) [0..<1000]"
    by (simp only: map_map) (rule map_cong; simp add: key)
  have "map (\<lambda>v. unat (info_index v)) ?vs = map (\<lambda>i. i) [0..<1000]"
    by (simp only: map_map) (rule map_cong; use key in \<open>simp add: info_key_def\<close>)
  then have idx: "map (\<lambda>v. unat (info_index v)) ?vs = [0..<length ?vs]" by (simp only: map_ident length_map length_upt diff_zero)
  note dense = connect_all_dense [OF c idx]
  have "validators c i = Some (sk_to_pk L (sk i))" if "i < 1000" for i
  proof -
    have "validators c = map_of (rev (map (\<lambda>i. (i, sk_to_pk L (sk i))) [0..<1000]))"
      using connect_all_Ok(1) [OF c] by (simp only: keys Client_new_def) simp
    moreover have "distinct (map fst (rev (map (\<lambda>i. (i, sk_to_pk L (sk i))) [0..<1000])))"
      by (simp only: rev_map [symmetric] map_map comp_def fst_conv map_ident distinct_rev distinct_upt)
    ultimately show ?thesis
      using that by (simp add: map_of_eq_Some_iff del: upt_rec_numeral)
  qed
  moreover have "client_main L files node lookup connect bind opts = Ok c"
    by (simp add: client_main_def run_api_def choose_registry_def assms(2,5) assms(1) fs_all_validators_def c del: upt_rec_numeral)
  moreover have "validator_count c = 1000" using dense(2) by (simp only: length_map length_upt diff_zero)
  ultimately show ?thesis using dense(1,3) by blast
qed

text \<open>
  The file written by the key generator starts a client: if every host name of the file
  resolves and accepts the connection, \<^verbatim>\<open>main\<close> reaches the API with a client that knows 1000
  validators with the indices 0 to 999, each with the public key of the secret key in its line.
\<close>

theorem client_from_generated_keys:
  assumes "hex_roundtrip L" "pk_bytes_roundtrip L" "hex_alphabet L"
    and "gen_keys L rng = Some content" "registry_path opts = Some path"
    and "files path = Inr (map Inr (file_lines content))"
    and "\<forall>i. \<exists>a as. lookup (host_name i) = Inr (a # as)" "\<forall>a. connect a = None"
    and "bind (api_port opts) = None"
  shows "\<exists>c sk. client_main L files node lookup connect bind opts = Ok c \<and>
    dense c \<and> validator_count c = 1000 \<and> client_ok c \<and>
    (\<forall>i<1000. validators c i = Some (sk_to_pk L (sk i)))"
proof -
  obtain sk where "read_from_file L path (files path) =
      Ok \<lparr>fr_path = path, fr_validators = map (\<lambda>i. key_info L i (sk i)) [0..<1000]\<rparr>"
    using read_generated [OF assms(1-4)] assms(6) by metis
  from client_of_generated [where files = files and bind = bind and sk = sk and lookup = lookup and connect = connect, OF this assms(5,7-9)] show ?thesis by blast
qed

theorem client_from_generated_keys_witness:
  "\<exists>c sk. client_main toy_lib (\<lambda>_. Inr (map Inr (file_lines (the (gen_keys toy_lib (\<lambda>_. []))))))
      (\<lambda>_ _. instance_of MissingRegistry (constructor 0)) (\<lambda>_. Inr [(any_addr, 1)]) (\<lambda>_. None) (\<lambda>_. None)
      CliOpts_test = Ok c \<and>
    dense c \<and> validator_count c = 1000 \<and> client_ok c \<and>
    (\<forall>i<1000. validators c i = Some (sk_to_pk toy_lib (sk i)))"
proof (rule client_from_generated_keys
    [OF toy_hex_roundtrip toy_pk_roundtrip toy_hex_alphabet _ _ refl])
  show "gen_keys toy_lib (\<lambda>_. []) = Some (the (gen_keys toy_lib (\<lambda>_. [])))"
    using toy_gen_keys unfolding gen_keys_def by auto
  show "registry_path CliOpts_test = Some ''registry.txt''" by (simp add: CliOpts_test_def)
qed auto

text \<open>
  A line in the format the documentation of \<^verbatim>\<open>read_from_file\<close> gives, with the columns
  index, private key, public key, stake and socket, is read with the stake as the socket; the
  socket column is ignored.
\<close>

theorem documented_columns_misread:
  assumes "\<forall>part\<in>set [i, privkey, pubkey, stake, socket]. CHR '','' \<notin> set part"
    and "parse_u64 i = Inr index" "hex_decode L pubkey = Some decoded" "pk_from_bytes L decoded = Inr pk"
  shows "read_line L (i @ '','' @ privkey @ '','' @ pubkey @ '','' @ stake @ '','' @ socket) =
    Ok \<lparr>info_index = index, info_bls_pub_key = pk, info_stake = 0, info_socket = stake, info_exists = True\<rparr>"
  using assms by (simp add: read_line_def split_on_snoc split_on_last)

theorem documented_columns_misread_witness:
  "\<exists>v. read_line toy_lib (''7'' @ '','' @ ''0x09'' @ '','' @ ''0x0101'' @ '','' @ ''32'' @ '','' @ ''host:1'') = Ok v \<and>
    info_socket v = ''32''"
proof -
  have "hex_decode toy_lib ''0x0101'' = Some [1, 1]" by (simp add: toy_lib_def Let_def)
  moreover have "pk_from_bytes toy_lib [1, 1] = Inr 2" by (simp add: toy_lib_def)
  moreover have "parse_u64 ''7'' = Inr 7" by (simp add: parse_u64_def digit_of_def)
  ultimately show ?thesis
    using documented_columns_misread [of "''7''" "''0x09''" "''0x0101''" "''32''" "''host:1''" 7 toy_lib "[1, 1]" 2]
    by simp
qed

text \<open>
  A line of a registry file whose first field is no number is an error; one with too few
  fields panics: with one or two fields always, with three when the key in the third decodes.
\<close>

theorem short_lines_panic:
  assumes "\<forall>part\<in>set [i, privkey, pubkey]. CHR '','' \<notin> set part"
  shows "(\<forall>e. parse_u64 i = Inl e \<longrightarrow> read_line L i = Err (ParseError e)) \<and>
    (\<forall>index. parse_u64 i = Inr index \<longrightarrow>
       read_line L i = Panic \<and> read_line L (i @ '','' @ privkey) = Panic \<and>
       (read_line L (i @ '','' @ privkey @ '','' @ pubkey) = Panic \<longleftrightarrow>
          (\<exists>decoded pk. hex_decode L pubkey = Some decoded \<and> pk_from_bytes L decoded = Inr pk)))"
  using assms by (auto simp: read_line_def split_on_snoc split_on_last Let_def split: option.splits sum.splits)

theorem short_lines_panic_witness:
  "read_line toy_lib ''7,0x09'' = (Panic :: (Report, nat ValidatorInfo) res) \<and>
   read_line toy_lib [] = (Err (ParseError EmptyInput) :: (Report, nat ValidatorInfo) res)"
proof -
  have "parse_u64 ''7'' = Inr 7" "parse_u64 [] = Inl EmptyInput"
    by (simp_all add: parse_u64_def digit_of_def)
  then show ?thesis
    using short_lines_panic [of "''7''" "''0x09''" "[]" toy_lib]
      short_lines_panic [of "[]" "[]" "[]" toy_lib] by simp
qed

text \<open>
  \<^verbatim>\<open>u64\<close> parsing reads back every printed number below \<open>2^64\<close> and reports an overflow
  for every other.
\<close>

theorem parse_u64_print:
  "parse_u64 (decimal n) = (if n < 2 ^ 64 then Inr (word_of_nat n) else Inl PosOverflow)"
proof (cases "n < 2 ^ 64")
  case False
  have over: "parse_digits (decimal n @ cs) 0 = Inl PosOverflow" if "2 ^ 64 \<le> n" for n cs
    using that
  proof (induction n arbitrary: cs rule: decimal.induct)
    case (1 n)
    have d: "digit_of (char_of (48 + n mod 10)) = Some (n mod 10)"
      by (simp add: digit_of_def of_char_digit)
    have dec: "decimal n = decimal (n div 10) @ [char_of (48 + n mod 10)]"
      using "1.prems" by (subst decimal.simps) simp
    show ?case
    proof (cases "2 ^ 64 \<le> n div 10")
      case True
      with 1 show ?thesis by (simp add: dec)
    next
      case False
      then have "parse_digits (decimal n @ cs) 0 = parse_digits (char_of (48 + n mod 10) # cs) (n div 10)"
        using parse_digits_decimal [of "n div 10"] by (simp add: dec)
      with d "1.prems" show ?thesis by simp
    qed
  qed
  obtain c cs where dec: "decimal n = c # cs" by (cases "decimal n") auto
  have "c \<noteq> CHR ''+''" using set_decimal [of n] dec by auto
  then show ?thesis
    using over [of n "[]"] False by (simp add: parse_u64_def dec)
qed (simp add: parse_u64_decimal)

section \<open>The contract\<close>

text \<open>
  In every storage the contract can reach, the address list holds exactly the registered
  validators, once each, their indices are different and below the count, and there are at most
  as many of them as the count.
\<close>

theorem contract_storage:
  assumes "deployed s"
  shows "distinct (sc_validatorAddresses s) \<and>
    set (sc_validatorAddresses s) = {a. sol_exists (sc_validators s a)} \<and>
    (\<forall>a. sol_exists (sc_validators s a) \<longrightarrow> sol_index (sc_validators s a) < sc_validatorCount s) \<and>
    inj_on (\<lambda>a. sol_index (sc_validators s a)) (set (sc_validatorAddresses s)) \<and>
    length (sc_validatorAddresses s) \<le> unat (getValidatorCount s)"
proof -
  let ?A = "set (sc_validatorAddresses s)" and ?i = "\<lambda>a. unat (sol_index (sc_validators s a))"
  have ok: "storage_ok s" by (rule storage_ok_deployed [OF assms])
  have dist: "distinct (sc_validatorAddresses s)" and A: "?A = {a. sol_exists (sc_validators s a)}"
    and below: "\<And>a. sol_exists (sc_validators s a) \<Longrightarrow> sol_index (sc_validators s a) < sc_validatorCount s"
    and eq: "\<And>a b. sol_exists (sc_validators s a) \<Longrightarrow> sol_exists (sc_validators s b) \<Longrightarrow>
      sol_index (sc_validators s a) = sol_index (sc_validators s b) \<Longrightarrow> a = b"
    using ok unfolding storage_ok_def by blast+
  have inj: "inj_on (\<lambda>a. sol_index (sc_validators s a)) ?A"
    unfolding A by (rule inj_onI) (simp add: eq)
  then have "inj_on ?i ?A" by (simp add: inj_on_def flip: word_unat_eq_iff)
  moreover have "?i ` ?A \<subseteq> {..<unat (sc_validatorCount s)}"
    unfolding A using below by (auto simp: word_less_nat_alt)
  ultimately have "card ?A \<le> unat (sc_validatorCount s)"
    by (metis card_inj_on_le card_lessThan finite_lessThan)
  then show ?thesis
    using dist A below inj distinct_card [OF dist] by (simp add: getValidatorCount_def)
qed

theorem contract_storage_witness:
  "length (sc_validatorAddresses (constructor 5)) \<le> unat (getValidatorCount (constructor 5))"
  using contract_storage [OF created] by blast

text \<open>
  A client started from either registry knows at most as many validators as the registry
  counts.
\<close>

theorem client_bounded_by_registry:
  assumes "dyn_all_validators L reg = Ok vs" "connect_all lookup connect vs Client_new = Ok c"
    and "length vs < 2 ^ 64"
  shows "\<exists>n. dyn_validator_count reg = Ok n \<and> validator_count c \<le> unat n"
proof (cases reg)
  case (Inl r)
  with assms fs.client_bounded [of r vs lookup connect c] show ?thesis
    by (simp add: fs_ok_def fs_all_validators_def)
next
  case (Inr r)
  with assms contract.client_bounded [of L r vs lookup connect c] show ?thesis by simp
qed

theorem client_bounded_by_registry_witness:
  "\<exists>n. dyn_validator_count (Inr (node_of MissingRegistry (constructor 5)) ::
      nat FilesystemRegistry + SmartContractRegistry) = Ok n \<and>
    validator_count (Client_new :: nat Client) \<le> unat n"
  by (rule client_bounded_by_registry [of toy_lib _ "[]" "\<lambda>_. Inl IoInvalidInput" "\<lambda>_. None"])
    (simp_all add: get_all_validators_def get_validator_count_def node_of_def instance_of_def getValidatorCount_def
      constructor_def u256_to_u64_def)

text \<open>
  The contract does not check that a public key is new. When two accounts register the same
  key, the index of the first leads to the second: both indices answer with the validator of
  the second account, whose index field differs from the index asked for.
\<close>

theorem duplicate_key_overwrites:
  assumes "deployed s" "sc_validatorCount s = k" "a \<noteq> b"
    and "registerValidator a x key sock1 x s = Some s1" "registerValidator b y key sock2 y s1 = Some s2"
  shows "\<exists>v. getValidatorByIndex s2 k = Some v \<and> getValidatorByIndex s2 (k + 1) = Some v \<and>
    sol_index v = k + 1 \<and> sol_socket v = sock2"
  using assms(2-5) by (auto simp: registerValidator_def getValidatorByIndex_def split: if_splits)

theorem duplicate_key_overwrites_witness:
  "\<exists>s2 v. getValidatorByIndex s2 0 = Some v \<and> sol_index v = 1 \<and> sol_socket v = ''b:1''"
proof -
  obtain s1 where s1: "registerValidator 1 9 [5] ''a:1'' 9 (constructor 5) = Some s1"
    by (simp add: registerValidator_def constructor_def no_validator_def)
  then obtain s2 where s2: "registerValidator 2 9 [5] ''b:1'' 9 s1 = Some s2"
    by (auto simp: registerValidator_def constructor_def no_validator_def)
  from duplicate_key_overwrites [OF created _ _ s1 s2, of 0] show ?thesis
    by (auto simp: constructor_def)
qed

end
