(* ===== verification/ValidatorProperties.thy ===== *)
theory ValidatorProperties
  imports PollLoop
begin

text \<open>
  Properties of the store, the validator and its event loop, and what the digests allow an
  attacker to make an honest validator sign.
\<close>

text \<open>A validator for examples.\<close>

definition sample_validator :: "((nat \<times> (B256 \<times> toy_sig Record) list) InMemoryStore, nat) Validator" where
  "sample_validator =
     \<lparr>v_store = with_capacity 4096, v_secret_key = 3, v_local_addr = Some (any_addr, 12450),
      v_active_subscriptions = {}, v_pub_addr = Some (any_addr, 9)\<rparr>"

lemma sample_validator_new:
  "new_in_memory (\<lambda>_. Inr (any_addr, 12450)) (\<lambda>_. Inr (any_addr, 9)) 3 12450 =
     (Ok sample_validator :: (unit, _) res)"
  by (simp add: new_in_memory_def Validator_new_def sample_validator_def)

lemma sample_validator_ok: "node_ok (store_ok toy_lib queue_fifo) (store_content queue_fifo) toy_lib sample_validator"
  by (rule new_in_memory_node_ok [OF queue_fifo_laws sample_validator_new])

lemma sample_write:
  "\<exists>r v'. validator_write toy_lib D 5000000 sample_validator ns m = Some (r, v')"
  by (simp add: validator_write_def ts_now_def Let_def)

abbreviation sample_message :: bytes where
  "sample_message \<equiv> the (request_to_vec toy_json (Write [7] (Message [1])))"

lemma sample_request:
  "request_from_slice toy_json (the (request_to_vec toy_json (Write [7] (Message [1])))) =
     Some (Write [7] (Message [1]))"
  using toy_json_faithful by (auto simp: json_faithful_def codec_def toy_json_def)

text \<open>Serving that request, with and without a subscriber.\<close>

lemma sample_handle:
  assumes "v \<in> {sample_validator, validator_subscribe sample_validator [7]}"
  shows "\<exists>r v' b. validator_write toy_lib D 5000000 v [7] (Message [1]) = Some (r, v') \<and>
    handle_request toy_lib toy_json D 5000000 v (Write [7] (Message [1])) =
      Some (v', Some b, if v = sample_validator then None else Some ([7], b))"
proof -
  obtain r v' where w: "validator_write toy_lib D 5000000 v [7] (Message [1]) = Some (r, v')"
    by (simp add: validator_write_def ts_now_def Let_def)
  obtain b where b: "record_to_vec toy_json r = Some b"
    using toy_json_faithful unfolding json_faithful_def codec_def by blast
  have subs: "v_active_subscriptions sample_validator = {}"
    "v_active_subscriptions (validator_subscribe sample_validator [7]) = {[7]}"
    by (simp_all add: validator_subscribe_def sample_validator_def)
  have "[7] \<in> v_active_subscriptions v \<longleftrightarrow> v \<noteq> sample_validator"
    using assms subs by (metis empty_iff insert_iff)
  then have "[7] \<in> v_active_subscriptions v' \<longleftrightarrow> v \<noteq> sample_validator"
    by (simp only: validator_write_frame(4) [OF w])
  with w b show ?thesis by auto
qed

section \<open>The store\<close>



text \<open>
  C34: what a store answers after any run of writes was written in that run, to the namespace
  asked for: a message under its digest, a range with the bounds asked for, never more records
  than the capacity; writes to other namespaces change no answer.
\<close>

theorem store_answers_from_writes:
  assumes "fifo_laws F" "0 < c"
    and s: "s = ds_writes (in_memory L F) ws (with_capacity c)"
  shows "(\<forall>i r. read_message F s ns i = Some r \<longrightarrow> (ns, r) \<in> set ws \<and> Record_message_digest L r ns = i) \<and>
    (\<forall>a b r. r \<in> set (log_records (read_range F s ns a b)) \<longrightarrow>
       (ns, r) \<in> set ws \<and> a \<le> r_timestamp r \<and> r_timestamp r \<le> b) \<and>
    (\<forall>a b. length (log_records (read_range F s ns a b)) \<le> c) \<and>
    (\<forall>ns' r i. ns' \<noteq> ns \<longrightarrow> read_message F (write_one L F s ns' r) ns i = read_message F s ns i)"
proof (intro conjI allI impI)
  have ok: "store_ok L F (with_capacity c)" by (rule store_ok_new [OF assms(1,2)])
  have oks: "store_ok L F s" unfolding s by (rule store_ok_writes [OF ok])
  show "(ns, r) \<in> set ws" "Record_message_digest L r ns = i" if "read_message F s ns i = Some r" for i r
    using mem.read_message_from_writes [OF ok, of ns ws i r] that by (simp_all add: in_memory_def s)
  show "(ns, r) \<in> set ws" "a \<le> r_timestamp r" "r_timestamp r \<le> b"
    if "r \<in> set (log_records (read_range F s ns a b))" for a b r
    using mem.read_range_from_writes [OF ok, of ns r ws a b] that by (simp_all add: in_memory_def s)
  show "length (log_records (read_range F s ns a b)) \<le> c" for a b
    using length_range_le [OF oks, of ns a b] by (simp add: s cap_writes) (simp add: with_capacity_def)
  show "read_message F (write_one L F s ns' r) ns i = read_message F s ns i" if "ns' \<noteq> ns" for ns' r i
    using mem.read_other [OF oks, of ns ns' r i] that by (simp add: in_memory_def)
qed

theorem store_answers_from_writes_witness:
  "read_message queue_fifo (ds_writes (in_memory toy_lib queue_fifo)
      [([7], \<lparr>r_timestamp = Timestamp 5, r_message = Message [1], r_signature = (3, [])\<rparr>)] (with_capacity 4096)) [8] [7, 1] = None"
proof -
  let ?r = "\<lparr>r_timestamp = Timestamp 5, r_message = Message [1], r_signature = (3, [])\<rparr> :: toy_sig Record"
  have "([8] :: bytes, r) \<notin> set [([7], ?r)]" for r by simp
  then show ?thesis
    using store_answers_from_writes [OF queue_fifo_laws _ refl, of 4096 toy_lib "[([7], ?r)]" "[8]"]
    by (metis option.exhaust zero_less_numeral)
qed

section \<open>The validator\<close>





section \<open>The event loop\<close>



text \<open>
  The queue of publications lives for one call of \<^verbatim>\<open>poll\<close> only. When polling it fails
  spuriously after a burst, \<^verbatim>\<open>poll\<close> returns with every response sent and nothing published,
  and the next call starts with an empty queue: subscribers never see these records.
\<close>

theorem spurious_failure_loses_publications:
  assumes "mpsc_laws Q" "list_all is_incoming reqs" "serve L J D reqs v = Some (v', resps, pubs)"
  shows "poll L J D Q lossy (reqs @ Idle True # ticks) v = PollPending v' (map Respond resps) \<and>
    poll L J D Q lossy (Idle False # ticks) v' = PollPending v' []"
proof -
  let ?q = "mpsc_channel Q 512"
  note new = mpsc_new [OF assms(1)]
  from poll_loop_burst [OF assms, of ?q lossy "Idle True # ticks" "[]"] obtain q' where
    q': "poll L J D Q lossy (reqs @ Idle True # ticks) v =
      poll_loop L J D Q lossy (Idle True # ticks) v' q' (map Respond resps)"
    by (auto simp: new poll_def)
  obtain q'' where "mpsc_poll_recv Q q' True = (Pending, q'')"
    using mpsc_recv(4) [OF assms(1), of q'] by (cases "mpsc_poll_recv Q q' True") simp
  moreover obtain q0 where "mpsc_poll_recv Q ?q False = (Pending, q0)"
    using mpsc_recv(3) [OF assms(1), of ?q] new by (cases "mpsc_poll_recv Q ?q False") simp
  ultimately show ?thesis using q' by (simp add: poll_def)
qed

theorem spurious_failure_loses_publications_witness:
  "\<exists>v' b. poll toy_lib toy_json (in_memory toy_lib queue_fifo) list_mpsc (\<lambda>_. ''t'')
     [Incoming sample_message 5000000, Idle True] (validator_subscribe sample_validator [7]) = PollPending v' [Respond b]"
proof -
  have ne: "validator_subscribe sample_validator [7] \<noteq> sample_validator"
    by (simp add: validator_subscribe_def sample_validator_def)
  then obtain v' b where "serve toy_lib toy_json (in_memory toy_lib queue_fifo) [Incoming sample_message 5000000]
      (validator_subscribe sample_validator [7]) = Some (v', [b], [([7], b)])"
    using sample_handle [of "validator_subscribe sample_validator [7]" "in_memory toy_lib queue_fifo"]
    by (auto simp: sample_request simp del: handle_request.simps)
  from spurious_failure_loses_publications [OF list_mpsc_laws _ this, of "\<lambda>_. ''t''" "[]"]
  show ?thesis by (auto simp: is_incoming_def)
qed

lemma poll_loop_no_panic:
  assumes "clocks_ok ticks" "v_pub_addr v \<noteq> None"
  shows "poll_loop L J D Q lossy ticks v q out \<noteq> PollPanic"
  using assms
proof (induction ticks arbitrary: v q out rule: clocks_ok.induct)
  case (2 msg clock ticks)
  show ?case
  proof (cases "request_from_slice J msg")
    case None
    with "2" show ?thesis by simp
  next
    case (Some req)
    have "0 \<le> clock" using "2.prems"(1) by simp
    from handle_request_total [OF this "2.prems"(2), of L J D req] obtain w resp pub
      where h: "handle_request L J D clock v req = Some (w, resp, pub)" by blast
    then have "v_pub_addr w \<noteq> None" using "2.prems"(2) handle_request_frame(2) [OF h] by simp
    with "2.IH" "2.prems"(1) h Some show ?thesis by simp
  qed
next
  case (3 b ticks)
  then show ?case by (auto split: prod.split Poll.split option.split)
qed simp

text \<open>
  C25: no input makes a validator panic: for any bytes in any order, with any store, channel
  and JSON library, a validator created by \<^verbatim>\<open>new_in_memory\<close> whose clock is not before the
  epoch gets through \<^verbatim>\<open>poll\<close>.
\<close>

theorem validator_never_panics:
  assumes "new_in_memory bind_rep bind_pub sk port = Ok v" "clocks_ok ticks"
  shows "poll L J D Q lossy ticks v \<noteq> PollPanic"
  unfolding poll_def by (rule poll_loop_no_panic [OF assms(2) new_in_memory_Ok(3) [OF assms(1)]])

theorem validator_never_panics_witness:
  "poll toy_lib toy_json (in_memory toy_lib queue_fifo) list_mpsc (\<lambda>_. [])
     [Incoming sample_message 5000000, Incoming [1, 2, 3] 0, Idle False] sample_validator \<noteq> PollPanic"
  by (rule validator_never_panics [OF sample_validator_new]) simp

lemma serve_key:
  "serve L J D ticks v = Some (v', resps, pubs) \<Longrightarrow> v_secret_key v' = v_secret_key v"
proof (induction ticks arbitrary: v resps pubs rule: clocks_ok.induct)
  case (2 msg clock ticks)
  show ?case
  proof (cases "request_from_slice J msg")
    case None
    with "2" show ?thesis by simp
  next
    case (Some req)
    with "2.prems" obtain w resp pub resps' pubs' where
      "handle_request L J D clock v req = Some (w, resp, pub)"
      and "serve L J D ticks w = Some (v', resps', pubs')"
      by (auto split: option.splits prod.splits)
    with "2.IH" handle_request_frame(1) show ?thesis by metis
  qed
qed auto

lemma poll_key:
  "poll L J D Q lossy ticks v = PollPending v' out \<Longrightarrow> v_secret_key v' = v_secret_key v"
proof -
  assume "poll L J D Q lossy ticks v = PollPending v' out"
  from poll_loop_serves [OF this [unfolded poll_def]] obtain used resps pubs
    where "serve L J D used v = Some (v', resps, pubs)" by blast
  then show ?thesis by (rule serve_key)
qed



section \<open>What an honest validator can be made to sign\<close>

text \<open>
  A client that writes to the namespace made of \<open>ns\<close> and the bytes of a time \<open>t\<close> gets from
  an honest validator a signature that makes a record of the namespace \<open>ns\<close> with the time \<open>t\<close>
  verify: certified times of a namespace can be forged in the past or future.
\<close>

theorem timestamp_forgery:
  assumes "bls_correct L"
    and "validator_write L D clock v (ns @ to_le_bytes (ts_value t)) m = Some (r, v')"
  shows "authentic L (sk_to_pk L (v_secret_key v)) ns
    \<lparr>r_timestamp = t, r_message = Message (to_le_bytes (ts_value (r_timestamp r)) @ msg_bytes m),
     r_signature = r_signature r\<rparr>"
  using validator_write_authentic(1,2) [OF assms]
  by (simp add: authentic_def Record_digest_def record_preimage_def)

theorem timestamp_forgery_witness:
  "\<exists>r. authentic toy_lib 3 [7] r \<and> r_timestamp r = Timestamp 999"
proof -
  obtain r v' where
    "validator_write toy_lib (in_memory toy_lib queue_fifo) 5000000 sample_validator
       ([7] @ to_le_bytes (ts_value (Timestamp 999))) (Message [1]) = Some (r, v')"
    using sample_write by blast
  from timestamp_forgery [OF toy_bls_correct this] show ?thesis
    by (auto simp: sample_validator_def toy_lib_def intro!: exI)
qed

text \<open>
  A client that writes the empty message to the namespace whose bytes are a message
  identifier \<open>i\<close> gets from an honest validator a signature that verifies as the statement that
  the message \<open>i\<close> is unavailable, even while the validator holds that message.
\<close>

theorem unavailability_forgery:
  assumes "bls_correct L" "validator_write L D clock v i (Message []) = Some (r, v')"
  shows "verify_signature L (r_signature r) (sk_to_pk L (v_secret_key v))
    (UnavailableMessage_digest L
      \<lparr>um_timestamp = r_timestamp r, um_msg_id = i, um_signature = r_signature r\<rparr>)"
  using validator_write_authentic(1,2) [OF assms]
  by (simp add: authentic_def Record_digest_def record_preimage_def UnavailableMessage_digest_def
      unavailable_preimage_def)

theorem unavailability_forgery_witness:
  "\<exists>u. um_msg_id u = [7, 1] \<and> verify_signature toy_lib (um_signature u) 3 (UnavailableMessage_digest toy_lib u)"
proof -
  obtain r v' where
    "validator_write toy_lib (in_memory toy_lib queue_fifo) 5000000 sample_validator [7, 1] (Message []) = Some (r, v')"
    using sample_write by blast
  from unavailability_forgery [OF toy_bls_correct this] show ?thesis
    by (intro exI [of _ "\<lparr>um_timestamp = r_timestamp r, um_msg_id = [7, 1], um_signature = r_signature r\<rparr>"])
      (simp add: sample_validator_def toy_lib_def)
qed

end
