(* ===== verification/ClientProperties.thy ===== *)
theory ClientProperties
  imports ClientSubscribe
begin

text \<open>
  Properties of \<^verbatim>\<open>Client::write\<close>: what a returned certificate is worth, when the operation
  succeeds, fails or panics, and what the certificate does not say.
\<close>

section \<open>A client and replies for examples\<close>

definition sample_client :: "nat Client" where
  "sample_client =
     \<lparr>validators = [0 \<mapsto> 10, 1 \<mapsto> 11, 2 \<mapsto> 12],
      validator_sockets = [0 \<mapsto> ([127, 0, 0, 1], 1), 1 \<mapsto> ([127, 0, 0, 1], 2), 2 \<mapsto> ([127, 0, 0, 1], 3)]\<rparr>"

definition sample_record :: "nat \<Rightarrow> Timestamp \<Rightarrow> toy_sig Record" where
  "sample_record i t =
     \<lparr>r_timestamp = t, r_message = Message [1],
      r_signature = (10 + i, record_preimage [7] t (Message [1]))\<rparr>"

definition sample_reply :: "nat \<Rightarrow> Timestamp \<Rightarrow> completion" where
  "sample_reply i t = (i, Replied (pack_record (sample_record i t)))"

lemma sample_client_count [simp]: "validator_count sample_client = 3"
  by (simp add: validator_count_def sample_client_def)

lemma sample_client_dense: "dense sample_client"
  unfolding dense_def sample_client_count by (auto simp: sample_client_def)

lemma sample_client_order:
  "completion_order sample_client [(0, x), (1, y), (2, z)]" "completion_order sample_client [(2, x), (0, y), (1, z)]"
  by (auto simp: completion_order_def sample_client_def)

lemma sample_verify:
  "verify_signature toy_lib (r_signature (sample_record i t)) (10 + i) (Record_digest toy_lib (sample_record i t) [7])"
  by (simp add: verify_signature_def sample_record_def Record_digest_def toy_lib_def)

lemma sample_known: "i < 3 \<Longrightarrow> validators sample_client i = Some (10 + i)"
proof -
  assume "i < 3"
  then have "i = 0 \<or> i = 1 \<or> i = 2" by linarith
  then show ?thesis by (auto simp: sample_client_def)
qed

lemma sample_vote:
  "i < 3 \<Longrightarrow> write_vote toy_lib toy_json sample_client [7] (Message [1]) i (pack_record (sample_record i t)) =
     Some (sample_record i t)"
  using sample_known [of i] sample_verify [of i t]
  by (simp add: write_vote_Some toy_json_def) (simp add: sample_record_def)

lemma toy_request [simp]: "\<exists>bs. request_to_vec toy_json req = Some bs"
  using toy_json_faithful unfolding json_faithful_def codec_def by blast

section \<open>Votes\<close>

text \<open>What a list of votes for \<open>write\<close> or \<open>read_message\<close> taken from the completions amounts to.\<close>

lemma select_from_completions:
  assumes "replies cs = used @ rest" "distinct (map fst cs)"
  shows "distinct (map fst (select f used))"
    and "(i, v) \<in> set (select f used) \<Longrightarrow> \<exists>bs. (i, Replied bs) \<in> set cs \<and> f i bs = Some v"
proof -
  have "distinct (map fst used)" using distinct_replies [OF assms(2)] assms(1) by simp
  then show "distinct (map fst (select f used))" by (rule distinct_select)
  show "\<exists>bs. (i, Replied bs) \<in> set cs \<and> f i bs = Some v" if "(i, v) \<in> set (select f used)"
    using set_select [OF that] assms(1) set_replies [of i _ cs] by (metis Un_iff set_append)
qed

text \<open>In a client with the indices \<open>0, \<dots>, n - 1\<close>, whoever replies is known and in range.\<close>

lemma dense_known:
  assumes "dense c" "client_ok c" "completion_order c cs"
  shows "\<forall>(i, bs) \<in> set (replies cs). validators c i \<noteq> None \<and> i < validator_count c"
proof (clarify)
  fix i bs assume "(i, bs) \<in> set (replies cs)"
  then have "(i, Replied bs) \<in> set cs" by (rule set_replies)
  then have "i \<in> fst ` set cs" by force
  then have "i \<in> dom (validators c)" using assms(2,3) by (simp add: completion_order_def client_ok_def)
  then show "validators c i \<noteq> None \<and> i < validator_count c"
    using assms(1) unfolding dense_def by blast
qed

text \<open>The sorted array: a zero for every validator without a vote, then the votes' times.\<close>

lemma sort_vote_array:
  assumes "distinct (map fst votes)" "fst ` set votes \<subseteq> {..<n}"
  shows "sort (vote_array n votes) = replicate (n - length votes) ts_default @ sort (map snd votes)"
proof (rule properties_for_sort)
  show "sorted (replicate (n - length votes) ts_default @ sort (map snd votes))"
    by (auto simp: sorted_append sorted_replicate)
  show "mset (replicate (n - length votes) ts_default @ sort (map snd votes)) = mset (vote_array n votes)"
    by (simp add: mset_vote_array [OF assms])
qed

section \<open>\<^verbatim>\<open>write\<close>\<close>

text \<open>
  C12: for a client whose validators have the indices 0 to n - 1, \<^verbatim>\<open>write\<close> is the function of
  the replies that \<open>write_spec\<close> states: cut the replies at the first failed one, keep those
  that parse, carry the message and verify, certify the first of them that make a quorum, or
  report their number when there are fewer.
\<close>

theorem write_meets_spec:
  assumes "agg_unchecked_total L" "request_to_vec J (Write ns m) \<noteq> None"
    and "dense c" "client_ok c" "validator_count c \<noteq> 0" "completion_order c cs"
  shows "client_write p L J c ns m cs = write_spec p L J c ns m cs"
  by (rule client_write_eq_spec [OF assms(2,1,5) dense_known [OF assms(3,4,6)]])

lemma sample_client_ok: "client_ok sample_client"
  by (auto simp: client_ok_def sample_client_def)

theorem write_meets_spec_witness:
  "client_write Dev toy_lib toy_json sample_client [7] (Message [1])
      [sample_reply 2 (Timestamp 9), sample_reply 0 (Timestamp 5), (1, TimedOut)] =
   write_spec Dev toy_lib toy_json sample_client [7] (Message [1])
      [sample_reply 2 (Timestamp 9), sample_reply 0 (Timestamp 5), (1, TimedOut)]"
  by (rule write_meets_spec [OF toy_agg_total _ sample_client_dense sample_client_ok])
    (simp_all add: sample_reply_def sample_client_order del: One_nat_def)

lemma sample_write_Ok:
  "\<exists>cert. client_write p toy_lib toy_json sample_client [7] (Message [1])
      [sample_reply 2 (Timestamp 9), sample_reply 0 (Timestamp 5), (1, TimedOut)] = Ok cert"
proof -
  let ?cs = "[sample_reply 2 (Timestamp 9), sample_reply 0 (Timestamp 5), (1, TimedOut)]"
  let ?votes = "[(2, sample_record 2 (Timestamp 9)), (0, sample_record 0 (Timestamp 5))]"
  have spec: "client_write p toy_lib toy_json sample_client [7] (Message [1]) ?cs =
      write_spec p toy_lib toy_json sample_client [7] (Message [1]) ?cs"
    by (rule client_write_eq_spec [OF _ toy_agg_total _ dense_known [OF sample_client_dense sample_client_ok]])
      (simp_all add: sample_reply_def sample_client_order del: One_nat_def)
  have votes: "select (write_vote toy_lib toy_json sample_client [7] (Message [1])) (replies ?cs) = ?votes"
    by (simp add: sample_reply_def sample_vote)
  obtain q where q: "aggregate toy_lib (sigs ?votes) = Some q"
    using aggregate_total [OF toy_agg_total, of "sigs ?votes"] by fastforce
  have "\<exists>cert. certify p toy_lib 3 (Message [1]) ?votes = Ok cert"
    using q by (simp add: certify_def median_timestamp_odd del: aggregate.simps sigs_simps)
  then show ?thesis unfolding spec write_spec_def votes by (simp add: quorum_threshold_def)
qed

lemma write_certificate:
  assumes "client_write p L J c ns m cs = Ok cert" "distinct (map fst cs)"
  shows "\<exists>votes. distinct (map fst votes) \<and> has_reached_quorum (validator_count c) (length votes) \<and>
    (\<forall>(i, r)\<in>set votes. r_message r = m \<and>
       (\<exists>bs. (i, Replied bs) \<in> set cs \<and> record_from_slice J bs = Some r) \<and>
       (\<exists>pk. validators c i = Some pk \<and> verify_signature L (r_signature r) pk (Record_digest L r ns))) \<and>
    cr_message cert = m \<and> aggregate L (sigs votes) = Some (cr_quorum_signature cert) \<and>
    cr_timestamps cert = sort (vote_array (validator_count c) (stamps votes))"
proof -
  from client_write_Ok [OF assms(1)] obtain used rest where used: "replies cs = used @ rest"
    and q: "has_reached_quorum (validator_count c) (length (select (write_vote L J c ns m) used))"
    and cert: "certify p L (validator_count c) m (select (write_vote L J c ns m) used) = Ok cert"
    by blast
  let ?votes = "select (write_vote L J c ns m) used"
  note sel = select_from_completions [OF used assms(2), where f = "write_vote L J c ns m"]
  have "\<forall>(i, r)\<in>set ?votes. r_message r = m \<and>
      (\<exists>bs. (i, Replied bs) \<in> set cs \<and> record_from_slice J bs = Some r) \<and>
      (\<exists>pk. validators c i = Some pk \<and> verify_signature L (r_signature r) pk (Record_digest L r ns))"
    using sel(2) by (fastforce simp: write_vote_Some)
  with q certify_Ok [OF cert] sel(1) show ?thesis by (intro exI [of _ ?votes]) simp
qed

text \<open>
  C6: a certificate returned by \<^verbatim>\<open>write\<close> is backed by a quorum of different validators: each of
  them answered with a record of exactly this message whose signature verifies under the key
  the client has for it, the quorum signature aggregates these signatures, and the times are
  those records' times in the validators' places, sorted.
\<close>

theorem write_certificate_sound:
  assumes "client_write p L J c ns m cs = Ok cert" "distinct (map fst cs)"
  shows "\<exists>votes. distinct (map fst votes) \<and> has_reached_quorum (validator_count c) (length votes) \<and>
    (\<forall>(i, r)\<in>set votes. r_message r = m \<and>
       (\<exists>bs. (i, Replied bs) \<in> set cs \<and> record_from_slice J bs = Some r) \<and>
       (\<exists>pk. validators c i = Some pk \<and> verify_signature L (r_signature r) pk (Record_digest L r ns))) \<and>
    cr_message cert = m \<and> aggregate L (sigs votes) = Some (cr_quorum_signature cert) \<and>
    cr_timestamps cert = sort (vote_array (validator_count c) (stamps votes))"
  by (rule write_certificate [OF assms])

theorem write_certificate_sound_witness:
  "\<exists>cert (votes :: (nat \<times> toy_sig Record) list). client_write Dev toy_lib toy_json sample_client [7] (Message [1])
      [sample_reply 2 (Timestamp 9), sample_reply 0 (Timestamp 5), (1, TimedOut)] = Ok cert \<and>
    has_reached_quorum 3 (length votes) \<and> cr_timestamps cert = sort (vote_array 3 (stamps votes))"
proof -
  let ?cs = "[sample_reply 2 (Timestamp 9), sample_reply 0 (Timestamp 5), (1, TimedOut)]"
  obtain cert where ok: "client_write Dev toy_lib toy_json sample_client [7] (Message [1]) ?cs = Ok cert"
    using sample_write_Ok by blast
  have "distinct (map fst ?cs)" by (simp add: sample_reply_def)
  from write_certificate_sound [OF ok this, unfolded sample_client_count] ok show ?thesis by blast
qed

lemma client_write_release:
  assumes "agg_unchecked_total L" "request_to_vec J (Write ns m) \<noteq> None" "validator_count c \<noteq> 0"
    and "\<forall>(i, bs) \<in> set (replies cs). validators c i \<noteq> None \<and> i < validator_count c"
  shows "quorum_threshold (validator_count c) \<le> length (select (write_vote L J c ns m) (replies cs)) \<Longrightarrow>
      \<exists>cert. client_write Release L J c ns m cs = Ok cert"
    and "length (select (write_vote L J c ns m) (replies cs)) < quorum_threshold (validator_count c) \<Longrightarrow>
      client_write Release L J c ns m cs = Err (ClientWrite (WriteNoQuorum
        (length (select (write_vote L J c ns m) (replies cs))) (validator_count c)))"
proof -
  let ?n = "validator_count c" and ?votes = "select (write_vote L J c ns m) (replies cs)"
  let ?used = "take (quorum_threshold ?n) ?votes"
  have eq: "client_write Release L J c ns m cs = write_spec Release L J c ns m cs"
    by (rule client_write_eq_spec [OF assms(2,1,3,4)])
  show "\<exists>cert. client_write Release L J c ns m cs = Ok cert" if q: "quorum_threshold ?n \<le> length ?votes"
  proof -
    have len: "length ?used = quorum_threshold ?n" using q by simp
    with assms(3) have "sigs ?used \<noteq> []" by (metis list.size(3) quorum_threshold_eq_0 sigs_simps(3))
    then obtain a where a: "aggregate L (sigs ?used) = Some a"
      using aggregate_total [OF assms(1)] by blast
    have "vote_array ?n (stamps ?used) \<noteq> []" using assms(3) by (metis length_vote_array list.size(3))
    then obtain t where "median_timestamp Release (vote_array ?n (stamps ?used)) = Some t"
      using median_timestamp_Release by blast
    with a len eq q show ?thesis by (simp add: write_spec_def Let_def certify_def)
  qed
  show "client_write Release L J c ns m cs = Err (ClientWrite (WriteNoQuorum (length ?votes) ?n))"
    if "length ?votes < quorum_threshold ?n"
    using that eq by (simp add: write_spec_def Let_def)
qed

text \<open>
  C19: with a release build \<^verbatim>\<open>write\<close> never panics on a client with validators 0 to n - 1,
  whatever bytes they answer, and succeeds exactly when the replies before the first failed one
  contain a quorum of votes; otherwise it fails with their number.
\<close>

theorem write_total:
  assumes "agg_unchecked_total L" "request_to_vec J (Write ns m) \<noteq> None"
    and "dense c" "client_ok c" "validator_count c \<noteq> 0" "completion_order c cs"
  shows "(if quorum_threshold (validator_count c) \<le> length (select (write_vote L J c ns m) (replies cs))
     then \<exists>cert. client_write Release L J c ns m cs = Ok cert
     else client_write Release L J c ns m cs = Err (ClientWrite (WriteNoQuorum
       (length (select (write_vote L J c ns m) (replies cs))) (validator_count c))))"
  using client_write_release [OF assms(1,2,5) dense_known [OF assms(3,4,6)]] by simp

theorem write_total_witness:
  "client_write Release toy_lib toy_json sample_client [7] (Message [1])
     [sample_reply 2 (Timestamp 9), (0, Replied [9, 9]), (1, TimedOut)] =
   Err (ClientWrite (WriteNoQuorum 1 3))"
proof -
  have "write_vote toy_lib toy_json sample_client [7] (Message [1]) 0 [9, 9] = None"
    by (auto simp: write_vote_def toy_json_def unpack_record_def unpack_def Let_def sample_client_def)
  moreover have "completion_order sample_client [sample_reply 2 (Timestamp 9), (0, Replied [9, 9]), (1, TimedOut)]"
    by (simp add: sample_reply_def sample_client_order del: One_nat_def)
  ultimately show ?thesis
    using write_total [OF toy_agg_total _ sample_client_dense sample_client_ok, of toy_json "[7]" "Message [1]"
        "[sample_reply 2 (Timestamp 9), (0, Replied [9, 9]), (1, TimedOut)]"]
    by (simp add: sample_reply_def sample_vote quorum_threshold_def)
qed

text \<open>
  The loop stops at the first validator whose request fails or times out: if that is the
  first to complete, \<^verbatim>\<open>write\<close> fails with zero votes, and \<^verbatim>\<open>read_message\<close> too, no matter that
  all others would answer with valid signatures.
\<close>

theorem first_failure_aborts:
  assumes "validator_count c \<noteq> 0" "\<forall>bs. r \<noteq> Replied bs"
    and "request_to_vec J (Write ns m) \<noteq> None" "request_to_vec J (ReadMessage ns i) \<noteq> None"
  shows "client_write p L J c ns m ((k, r) # cs) = Err (ClientWrite (WriteNoQuorum 0 (validator_count c))) \<and>
    client_read_message p L J c ns i ((k, r) # cs) = Err (ClientRead (ReadNoQuorum 0 0))"
proof -
  have no: "\<not> has_reached_quorum (validator_count c) 0"
    using assms(1) quorum_threshold_least [of "validator_count c" 0] by auto
  have "future_value (k, r) = None" using assms(2) by (cases r) auto
  with assms no show ?thesis
    by (auto simp: client_write_def client_read_message_def dato_defs write_init_def read_init_def)
qed

theorem first_failure_aborts_witness:
  "client_write Release toy_lib toy_json sample_client [7] (Message [1])
     [(1, TimedOut), sample_reply 0 (Timestamp 5), sample_reply 2 (Timestamp 9)] =
   Err (ClientWrite (WriteNoQuorum 0 3))"
  using first_failure_aborts [of sample_client TimedOut toy_json "[7]" "Message [1]" "[]" Release toy_lib 1
      "[sample_reply 0 (Timestamp 5), sample_reply 2 (Timestamp 9)]"] by simp

text \<open>
  The positions in a returned certificate do not say which validator gave which time,
  although the documentation says that the index is the validator's: the list is determined by
  the number of missing votes, whose zeros come first, and the votes' times alone.
\<close>

theorem certificate_forgets_voters:
  assumes "client_write p L J c ns m cs = Ok cert" "dense c" "client_ok c" "completion_order c cs"
  shows "\<exists>votes. (\<forall>(i, r)\<in>set votes. \<exists>bs. (i, Replied bs) \<in> set cs \<and> record_from_slice J bs = Some r) \<and>
    cr_timestamps cert = replicate (validator_count c - length votes) ts_default @
      sort (map (r_timestamp \<circ> snd) votes)"
proof -
  have dist: "distinct (map fst cs)" using assms(4) by (simp add: completion_order_def)
  from client_write_Ok [OF assms(1)] obtain used rest where used: "replies cs = used @ rest"
    and cert: "certify p L (validator_count c) m (select (write_vote L J c ns m) used) = Ok cert"
    by blast
  let ?votes = "select (write_vote L J c ns m) used"
  note sel = select_from_completions [OF used dist, where f = "write_vote L J c ns m"]
  have "fst ` set ?votes \<subseteq> {..<validator_count c}"
    using set_select [of _ _ "write_vote L J c ns m" used] dense_known [OF assms(2-4)] used by force
  then have "cr_timestamps cert = replicate (validator_count c - length ?votes) ts_default @
      sort (map (r_timestamp \<circ> snd) ?votes)"
    using certify_Ok [OF cert] sort_vote_array [of "stamps ?votes" "validator_count c"] sel(1)
    by (simp add: snd_stamps)
  moreover have "\<forall>(i, r)\<in>set ?votes. \<exists>bs. (i, Replied bs) \<in> set cs \<and> record_from_slice J bs = Some r"
    using sel(2) by (fastforce simp: write_vote_Some)
  ultimately show ?thesis by (intro exI [of _ ?votes]) simp
qed

theorem certificate_forgets_voters_witness:
  "\<exists>cert (votes :: (nat \<times> toy_sig Record) list). client_write Dev toy_lib toy_json sample_client [7] (Message [1])
      [sample_reply 2 (Timestamp 9), sample_reply 0 (Timestamp 5), (1, TimedOut)] = Ok cert \<and>
    cr_timestamps cert = replicate (3 - length votes) ts_default @ sort (map (r_timestamp \<circ> snd) votes)"
proof -
  let ?cs = "[sample_reply 2 (Timestamp 9), sample_reply 0 (Timestamp 5), (1, TimedOut)]"
  obtain cert where ok: "client_write Dev toy_lib toy_json sample_client [7] (Message [1]) ?cs = Ok cert"
    using sample_write_Ok by blast
  have "completion_order sample_client ?cs"
    by (simp add: sample_reply_def sample_client_order del: One_nat_def)
  from certificate_forgets_voters [OF ok sample_client_dense sample_client_ok this, unfolded sample_client_count] ok
  show ?thesis by blast
qed

text \<open>
  A client without validators panics in \<^verbatim>\<open>write\<close> and in \<^verbatim>\<open>read_message\<close>, because zero votes
  are a quorum of zero validators and there is no quorum signature then.
\<close>

theorem empty_client_panics:
  "client_write p L J Client_new ns m [] = Panic \<and> client_read_message p L J Client_new ns i [] = Panic"
  by (simp add: client_write_def client_read_message_def Client_new_def validator_count_def
      has_reached_quorum_def write_init_def read_init_def split: option.split)

end
