(* ===== verification/ReadProperties.thy ===== *)
theory ReadProperties
  imports ClientProperties
begin

text \<open>
  Properties of the reading and subscribing operations of the client.
\<close>

section \<open>\<^verbatim>\<open>read_message\<close>\<close>

lemma available_certificate:
  assumes "client_read_message p L J c ns i cs = Ok (CertAvailable cert)" "distinct (map fst cs)"
  shows "\<exists>votes. distinct (map fst votes) \<and> has_reached_quorum (validator_count c) (length votes) \<and>
    (\<forall>(k, r)\<in>set votes. Message_digest L (r_message r) ns = i \<and>
       (\<exists>bs. (k, Replied bs) \<in> set cs \<and> message_response_from_slice J bs = Some (Available r)) \<and>
       (\<exists>pk. validators c k = Some pk \<and> verify_signature L (r_signature r) pk (Record_digest L r ns))) \<and>
    (votes \<noteq> [] \<longrightarrow> Message_digest L (cr_message cert) ns = i) \<and>
    aggregate L (sigs votes) = Some (cr_quorum_signature cert) \<and>
    cr_timestamps cert = sort (vote_array (validator_count c) (stamps votes))"
proof -
  have "client_read_message p L J c ns i cs \<noteq> Panic" using assms(1) by simp
  from client_read_message_result [OF this, unfolded Let_def assms(1)] obtain used rest m where
    used: "replies cs = used @ rest"
    and out: "read_outcome p L (validator_count c) i m (select (available_vote L J c ns i) used)
      (select (unavailable_vote L J c) used) = Ok (CertAvailable cert)"
    and m: "select (available_vote L J c ns i) used \<noteq> [] \<longrightarrow> Message_digest L m ns = i"
    by metis
  let ?av = "select (available_vote L J c ns i) used"
  note sel = select_from_completions [OF used assms(2), where f = "available_vote L J c ns i"]
  have "\<forall>(k, r)\<in>set ?av. Message_digest L (r_message r) ns = i \<and>
      (\<exists>bs. (k, Replied bs) \<in> set cs \<and> message_response_from_slice J bs = Some (Available r)) \<and>
      (\<exists>pk. validators c k = Some pk \<and> verify_signature L (r_signature r) pk (Record_digest L r ns))"
    using sel(2) by (fastforce simp: available_vote_Some)
  moreover have "has_reached_quorum (validator_count c) (length ?av) \<and> cr_message cert = m \<and>
      aggregate L (sigs ?av) = Some (cr_quorum_signature cert) \<and>
      cr_timestamps cert = sort (vote_array (validator_count c) (stamps ?av))"
    using out by (auto simp: read_outcome_def split: if_splits option.splits)
  ultimately show ?thesis using sel(1) m by (intro exI [of _ ?av]) simp
qed

text \<open>
  C14: a message that \<^verbatim>\<open>read_message\<close> certifies as available has the requested digest, and a
  quorum of different validators each answered with a record with that digest whose signature
  verifies under its key; their signatures and times make the certificate. Without a hash
  collision all of them signed this message.
\<close>

theorem available_certificate_sound:
  assumes "client_read_message p L J c ns i cs = Ok (CertAvailable cert)" "distinct (map fst cs)"
    and "validator_count c \<noteq> 0"
  shows "\<exists>votes. distinct (map fst votes) \<and> has_reached_quorum (validator_count c) (length votes) \<and>
    (\<forall>(k, r)\<in>set votes.
       (\<exists>bs. (k, Replied bs) \<in> set cs \<and> message_response_from_slice J bs = Some (Available r)) \<and>
       (\<exists>pk. validators c k = Some pk \<and> verify_signature L (r_signature r) pk (Record_digest L r ns)) \<and>
       (no_collision L (message_preimage ns (r_message r)) (message_preimage ns (cr_message cert)) \<longrightarrow>
          r_message r = cr_message cert)) \<and>
    Message_digest L (cr_message cert) ns = i \<and>
    aggregate L (sigs votes) = Some (cr_quorum_signature cert) \<and>
    cr_timestamps cert = sort (vote_array (validator_count c) (stamps votes))"
proof -
  from available_certificate [OF assms(1,2)] obtain votes where
    votes: "distinct (map fst votes)" "has_reached_quorum (validator_count c) (length votes)"
    "\<forall>(k, r)\<in>set votes. Message_digest L (r_message r) ns = i \<and>
       (\<exists>bs. (k, Replied bs) \<in> set cs \<and> message_response_from_slice J bs = Some (Available r)) \<and>
       (\<exists>pk. validators c k = Some pk \<and> verify_signature L (r_signature r) pk (Record_digest L r ns))"
    "votes \<noteq> [] \<longrightarrow> Message_digest L (cr_message cert) ns = i"
    "aggregate L (sigs votes) = Some (cr_quorum_signature cert)"
    "cr_timestamps cert = sort (vote_array (validator_count c) (stamps votes))" by blast
  have "votes \<noteq> []" using votes(2) assms(3) quorum_threshold_least by fastforce
  with votes(4) have digest: "Message_digest L (cr_message cert) ns = i" by simp
  have same: "m = cr_message cert"
    if "Message_digest L m ns = i" "no_collision L (message_preimage ns m) (message_preimage ns (cr_message cert))" for m
    using that digest by (simp add: no_collision_def Message_digest_def message_preimage_inject)
  show ?thesis
    by (rule exI [of _ votes], intro conjI votes(1,2,5,6) digest ballI)
      (use votes(3) same in \<open>auto simp: split_beta\<close>)
qed

text \<open>A client of one validator, and its two answers.\<close>

definition one_client :: "nat Client" where
  "one_client = \<lparr>validators = [0 \<mapsto> 10], validator_sockets = [0 \<mapsto> ([127, 0, 0, 1], 1)]\<rparr>"

lemma one_client_count [simp]: "validator_count one_client = 1"
  by (simp add: validator_count_def one_client_def)

lemma one_available:
  "message_response_from_slice toy_json
     (the (message_response_to_vec toy_json (Available (sample_record 0 (Timestamp 5))))) =
     Some (Available (sample_record 0 (Timestamp 5)))"
  by (simp add: toy_json_def)

lemma one_read_available:
  "\<exists>cert. client_read_message Dev toy_lib toy_json one_client [7] [7, 1]
     [(0, Replied (the (message_response_to_vec toy_json (Available (sample_record 0 (Timestamp 5))))))] =
     Ok (CertAvailable cert)"
proof -
  have "Message_digest toy_lib (Message [1]) [7] = [7, 1]"
    by (simp add: Message_digest_def message_preimage_def toy_lib_def)
  then have step: "read_message_step toy_lib toy_json one_client [7] [7, 1]
      (0, the (message_response_to_vec toy_json (Available (sample_record 0 (Timestamp 5))))) (read_init one_client) =
    Stop (read_init one_client \<lparr>rs_message := Message [1],
      rs_available_quorum_signature := Some (agg_from_signature toy_lib (r_signature (sample_record 0 (Timestamp 5)))),
      rs_available_votes := 1, rs_available_timestamps := [Timestamp 5]\<rparr>)"
    using sample_verify [of 0 "Timestamp 5"]
    by (simp add: read_message_step.simps one_available)
      (simp add: one_client_def sample_record_def read_init_def add_to_quorum_def read_check_def
        read_decided_def has_reached_quorum_def validator_count_def)
  obtain bs where "request_to_vec toy_json (ReadMessage [7] [7, 1]) = Some bs" using toy_request by blast
  with step show ?thesis
    by (simp add: client_read_message_def dato_defs read_init_def has_reached_quorum_def
        median_timestamp_odd Let_def)
qed

theorem available_certificate_sound_witness:
  "\<exists>cert. client_read_message Dev toy_lib toy_json one_client [7] [7, 1]
     [(0, Replied (the (message_response_to_vec toy_json (Available (sample_record 0 (Timestamp 5))))))] =
     Ok (CertAvailable cert) \<and> Message_digest toy_lib (cr_message cert) [7] = [7, 1]"
proof -
  from one_read_available obtain cert where
    ok: "client_read_message Dev toy_lib toy_json one_client [7] [7, 1]
      [(0, Replied (the (message_response_to_vec toy_json (Available (sample_record 0 (Timestamp 5))))))] =
      Ok (CertAvailable cert)" by blast
  from available_certificate_sound [OF ok] ok show ?thesis by auto
qed

lemma unavailable_certificate:
  assumes "client_read_message p L J c ns i cs = Ok (CertUnavailable cert)" "distinct (map fst cs)"
  shows "\<exists>votes. distinct (map fst votes) \<and> has_reached_quorum (validator_count c) (length votes) \<and>
    (\<forall>(k, u)\<in>set votes.
       (\<exists>bs. (k, Replied bs) \<in> set cs \<and> message_response_from_slice J bs = Some (Unavailable u)) \<and>
       (\<exists>pk. validators c k = Some pk \<and>
          verify_signature L (um_signature u) pk (UnavailableMessage_digest L u))) \<and>
    cu_msg_id cert = i \<and> aggregate L (u_sigs votes) = Some (cu_quorum_signature cert) \<and>
    cu_timestamps cert = sort (vote_array (validator_count c) (u_stamps votes))"
proof -
  have "client_read_message p L J c ns i cs \<noteq> Panic" using assms(1) by simp
  from client_read_message_result [OF this, unfolded Let_def assms(1)] obtain used rest m where
    used: "replies cs = used @ rest"
    and out: "read_outcome p L (validator_count c) i m (select (available_vote L J c ns i) used)
      (select (unavailable_vote L J c) used) = Ok (CertUnavailable cert)"
    by metis
  let ?uv = "select (unavailable_vote L J c) used"
  note sel = select_from_completions [OF used assms(2), where f = "unavailable_vote L J c"]
  have "\<forall>(k, u)\<in>set ?uv.
      (\<exists>bs. (k, Replied bs) \<in> set cs \<and> message_response_from_slice J bs = Some (Unavailable u)) \<and>
      (\<exists>pk. validators c k = Some pk \<and> verify_signature L (um_signature u) pk (UnavailableMessage_digest L u))"
    using sel(2) by (fastforce simp: unavailable_vote_Some)
  moreover have "has_reached_quorum (validator_count c) (length ?uv) \<and> cu_msg_id cert = i \<and>
      aggregate L (u_sigs ?uv) = Some (cu_quorum_signature cert) \<and>
      cu_timestamps cert = sort (vote_array (validator_count c) (u_stamps ?uv))"
    using out by (auto simp: read_outcome_def split: if_splits option.splits)
  ultimately show ?thesis using sel(1) by (intro exI [of _ ?uv]) simp
qed

text \<open>
  C29: what \<^verbatim>\<open>read_message\<close> certifies as unavailable is backed by a quorum of different validators
  with verifying statements of unavailability; the identifier in the certificate is the
  requested one.
\<close>

theorem unavailable_certificate_sound:
  assumes "client_read_message p L J c ns i cs = Ok (CertUnavailable cert)" "distinct (map fst cs)"
  shows "\<exists>votes. distinct (map fst votes) \<and> has_reached_quorum (validator_count c) (length votes) \<and>
    (\<forall>(k, u)\<in>set votes.
       (\<exists>bs. (k, Replied bs) \<in> set cs \<and> message_response_from_slice J bs = Some (Unavailable u)) \<and>
       (\<exists>pk. validators c k = Some pk \<and>
          verify_signature L (um_signature u) pk (UnavailableMessage_digest L u))) \<and>
    cu_msg_id cert = i \<and> aggregate L (u_sigs votes) = Some (cu_quorum_signature cert) \<and>
    cu_timestamps cert = sort (vote_array (validator_count c) (u_stamps votes))"
  by (rule unavailable_certificate [OF assms])

text \<open>
  The statements need not be about the requested message: their identifier is never
  compared with it. A validator's genuine statement about any message \<open>um_msg_id u\<close>, sent in
  reply to a query for \<open>i\<close>, makes a client of that one validator certify that \<open>i\<close> is
  unavailable.
\<close>

theorem unavailable_for_another_message:
  assumes "validators c = [0 \<mapsto> pk]" "request_to_vec J (ReadMessage ns i) \<noteq> None"
    and "message_response_from_slice J bs = Some (Unavailable u)"
    and "verify_signature L (um_signature u) pk (UnavailableMessage_digest L u)"
  shows "client_read_message p L J c ns i [(0, Replied bs)] =
    Ok (CertUnavailable \<lparr>cu_timestamps = [um_timestamp u], cu_msg_id = i,
      cu_quorum_signature = agg_from_signature L (um_signature u)\<rparr>)"
proof -
  have n: "validator_count c = 1" by (simp add: validator_count_def assms(1))
  have step: "read_message_step L J c ns i (0, bs) (read_init c) =
    Stop (read_init c \<lparr>rs_unavailable_quorum_signature := Some (agg_from_signature L (um_signature u)),
      rs_unavailable_votes := 1, rs_unavailable_timestamps := [um_timestamp u]\<rparr>)"
    using assms(3,4) by (simp add: read_message_step.simps assms(1) read_init_def n add_to_quorum_def
        read_check_def read_decided_def has_reached_quorum_def)
  from assms(2) obtain req where "request_to_vec J (ReadMessage ns i) = Some req" by blast
  with step show ?thesis
    by (simp add: client_read_message_def dato_defs read_init_def n has_reached_quorum_def
        median_timestamp_odd Let_def)
qed

lemma one_unavailable:
  "\<exists>bs u. message_response_from_slice toy_json bs = Some (Unavailable u) \<and> um_msg_id u = [9] \<and>
     verify_signature toy_lib (um_signature u) 10 (UnavailableMessage_digest toy_lib u)"
proof -
  let ?u = "\<lparr>um_timestamp = Timestamp 5, um_msg_id = [9],
    um_signature = (10 :: nat, unavailable_preimage [9] (Timestamp 5))\<rparr>"
  have "codec (message_response_to_vec toy_json) (message_response_from_slice toy_json)"
    using toy_json_faithful by (simp add: json_faithful_def)
  then obtain bs where "message_response_from_slice toy_json bs = Some (Unavailable ?u)"
    unfolding codec_def by blast
  then show ?thesis
    by (intro exI [of _ bs] exI [of _ ?u])
      (simp add: verify_signature_def UnavailableMessage_digest_def toy_lib_def)
qed

theorem unavailable_for_another_message_witness:
  "\<exists>bs (u :: toy_sig UnavailableMessage). um_msg_id u = [9] \<and> client_read_message Dev toy_lib toy_json one_client [7] [7, 1] [(0, Replied bs)] =
     Ok (CertUnavailable \<lparr>cu_timestamps = [um_timestamp u], cu_msg_id = [7, 1],
       cu_quorum_signature = agg_from_signature toy_lib (um_signature u)\<rparr>)"
proof -
  obtain bs u where u: "message_response_from_slice toy_json bs = Some (Unavailable u)"
    "verify_signature toy_lib (um_signature u) 10 (UnavailableMessage_digest toy_lib u)" "um_msg_id u = [9]"
    using one_unavailable by blast
  have c: "validators one_client = [0 \<mapsto> 10]" and req: "request_to_vec toy_json (ReadMessage [7] [7, 1]) \<noteq> None"
    by (simp_all add: one_client_def)
  from unavailable_for_another_message [OF c req u(1,2)] u(3) show ?thesis
    by (intro exI [of _ bs] exI [of _ u]) simp
qed

lemma one_read_unavailable:
  "\<exists>bs cert. client_read_message Dev toy_lib toy_json one_client [7] [7, 1] [(0, Replied bs)] =
     Ok (CertUnavailable cert)"
proof -
  obtain bs u where u: "message_response_from_slice toy_json bs = Some (Unavailable u)"
    "verify_signature toy_lib (um_signature u) 10 (UnavailableMessage_digest toy_lib u)"
    using one_unavailable by blast
  obtain st where step: "read_message_step toy_lib toy_json one_client [7] [7, 1] (0, bs) (read_init one_client) = Stop st"
    and st: "rs_available_votes st = 0" "rs_unavailable_votes st = 1"
      "rs_unavailable_quorum_signature st \<noteq> None" "length (rs_unavailable_timestamps st) = 1"
    using u by (auto simp: read_message_step.simps one_client_def read_init_def add_to_quorum_def
        read_check_def read_decided_def has_reached_quorum_def validator_count_def)
  obtain req where "request_to_vec toy_json (ReadMessage [7] [7, 1]) = Some req" using toy_request by blast
  with step st show ?thesis
    by (intro exI [of _ bs])
      (auto simp: client_read_message_def dato_defs has_reached_quorum_def
        median_timestamp_odd Let_def)
qed

theorem unavailable_certificate_sound_witness:
  "\<exists>bs cert. client_read_message Dev toy_lib toy_json one_client [7] [7, 1] [(0, Replied bs)] =
     Ok (CertUnavailable cert) \<and> cu_msg_id cert = [7, 1]"
proof -
  from one_read_unavailable obtain bs cert where
    ok: "client_read_message Dev toy_lib toy_json one_client [7] [7, 1] [(0, Replied bs)] = Ok (CertUnavailable cert)"
    by blast
  from unavailable_certificate_sound [OF ok] ok show ?thesis by auto
qed

text \<open>
  C28: a release build of \<^verbatim>\<open>read_message\<close> never panics on a client with validators 0 to n - 1,
  whatever bytes they answer, and an error is a missing quorum with the true counts: of all
  replies before the first failed one, unless the counts already add up to all validators.
\<close>

theorem read_message_total:
  assumes "agg_unchecked_total L" "request_to_vec J (ReadMessage ns i) \<noteq> None"
    and "dense c" "client_ok c" "validator_count c \<noteq> 0" "completion_order c cs"
  shows "client_read_message Release L J c ns i cs \<noteq> Panic \<and>
    (\<forall>e. client_read_message Release L J c ns i cs = Err e \<longrightarrow>
      (\<exists>used rest. replies cs = used @ rest \<and>
         e = ClientRead (ReadNoQuorum (length (select (available_vote L J c ns i) used))
           (length (select (unavailable_vote L J c) used))) \<and>
         \<not> has_reached_quorum (validator_count c) (length (select (available_vote L J c ns i) used)) \<and>
         \<not> has_reached_quorum (validator_count c) (length (select (unavailable_vote L J c) used)) \<and>
         (rest = [] \<or> validator_count c \<le> length (select (available_vote L J c ns i) used) +
            length (select (unavailable_vote L J c) used))))"
proof (intro conjI allI impI)
  show np: "client_read_message Release L J c ns i cs \<noteq> Panic"
    by (rule client_read_message_no_panic [OF assms(1,2,5) dense_known [OF assms(3,4,6)]])
  fix e assume e: "client_read_message Release L J c ns i cs = Err e"
  from client_read_message_result [OF np, unfolded Let_def e] obtain used rest m where
    "replies cs = used @ rest"
    "Err e = read_outcome Release L (validator_count c) i m (select (available_vote L J c ns i) used)
       (select (unavailable_vote L J c) used)"
    "rest = [] \<or> has_reached_quorum (validator_count c) (length (select (available_vote L J c ns i) used)) \<or>
      has_reached_quorum (validator_count c) (length (select (unavailable_vote L J c) used)) \<or>
      validator_count c \<le> length (select (available_vote L J c ns i) used) +
        length (select (unavailable_vote L J c) used)" by blast
  then show "\<exists>used rest. replies cs = used @ rest \<and>
         e = ClientRead (ReadNoQuorum (length (select (available_vote L J c ns i) used))
           (length (select (unavailable_vote L J c) used))) \<and>
         \<not> has_reached_quorum (validator_count c) (length (select (available_vote L J c ns i) used)) \<and>
         \<not> has_reached_quorum (validator_count c) (length (select (unavailable_vote L J c) used)) \<and>
         (rest = [] \<or> validator_count c \<le> length (select (available_vote L J c ns i) used) +
            length (select (unavailable_vote L J c) used))"
    by (intro exI [of _ used] exI [of _ rest]) (auto simp: read_outcome_def split: if_splits option.splits)
qed

theorem read_message_total_witness:
  "client_read_message Release toy_lib toy_json sample_client [7] [7, 1]
     [(2, Replied [1, 2]), (0, Replied [9, 9]), (1, TimedOut)] \<noteq> Panic"
  using read_message_total [OF toy_agg_total _ sample_client_dense sample_client_ok, of toy_json "[7]" "[7, 1]"
      "[(2, Replied [1, 2]), (0, Replied [9, 9]), (1, TimedOut)]"] sample_client_order(2)
  by simp

section \<open>\<^verbatim>\<open>read\<close> and \<^verbatim>\<open>read_certified\<close>\<close>

lemma task_of_Some:
  "task_of L J c ns i bs = Some (Some log) \<longleftrightarrow> log_from_slice J bs = Some log \<and>
     (\<exists>pk. validators c i = Some pk \<and>
        (\<forall>r\<in>set (log_records log). verify_signature L (r_signature r) pk (Record_digest L r ns)))"
  by (auto simp: task_of_def verify_task_def verify_records_all split: option.splits)

lemma log_prefix_origin: "r \<in> set (log_prefix tasks) \<Longrightarrow> \<exists>l. Some l \<in> set tasks \<and> r \<in> set (log_records l)"
  by (auto simp: log_prefix_def dest: set_before_failure)

text \<open>
  C22: every record in a log that \<^verbatim>\<open>read\<close> returns came in the log of a validator that answered,
  all of whose records verify under that validator's key, and the records are sorted by time.
\<close>

theorem read_sound:
  assumes "client_read L J c ns a b cs order = Ok log" "task_order order"
  shows "sorted (map r_timestamp (log_records log)) \<and>
    (\<forall>r\<in>set (log_records log). \<exists>i bs l pk. (i, Replied bs) \<in> set cs \<and> log_from_slice J bs = Some l \<and>
       r \<in> set (log_records l) \<and> validators c i = Some pk \<and>
       (\<forall>x\<in>set (log_records l). verify_signature L (r_signature x) pk (Record_digest L x ns)))"
proof (intro conjI ballI)
  note log = client_read_Ok [OF assms(1)]
  show "sorted (map r_timestamp (log_records log))" by (simp add: log)
  fix r assume "r \<in> set (log_records log)"
  then obtain l where l: "Some l \<in> set (read_tasks L J c ns cs order)" "r \<in> set (log_records l)"
    using log_prefix_origin by (fastforce simp: log)
  then have "Some l \<in> set (map snd (select (task_of L J c ns) (replies cs)))"
    using set_read_tasks [OF assms(2)] by (metis mset_eq_setD)
  then obtain i where "(i, Some l) \<in> set (select (task_of L J c ns) (replies cs))" by auto
  from set_select [OF this] obtain bs where "(i, Replied bs) \<in> set cs" "task_of L J c ns i bs = Some (Some l)"
    using set_replies by blast
  with l(2) show "\<exists>i bs l pk. (i, Replied bs) \<in> set cs \<and> log_from_slice J bs = Some l \<and>
       r \<in> set (log_records l) \<and> validators c i = Some pk \<and>
       (\<forall>x\<in>set (log_records l). verify_signature L (r_signature x) pk (Record_digest L x ns))"
    unfolding task_of_Some by blast
qed

lemma task_order_upt: "task_order (\<lambda>n. [0..<n])"
  by (simp add: task_order_def)

lemma sample_log_codec: "codec (log_to_vec toy_json) (log_from_slice toy_json)"
  using toy_json_faithful by (simp add: json_faithful_def)

lemma sample_log:
  "\<exists>bs. log_from_slice toy_json bs = Some \<lparr>log_records = [sample_record 0 (Timestamp 5)]\<rparr>"
  using sample_log_codec unfolding codec_def by blast

theorem read_sound_witness:
  "\<exists>bs log. client_read toy_lib toy_json sample_client [7] ts_default (Timestamp 9)
     [(0, Replied bs), (1, TimedOut)] (\<lambda>n. [0..<n]) = Ok log \<and>
     (\<forall>r\<in>set (log_records log). \<exists>i. (i, Replied bs) \<in> set [(0, Replied bs), (1, TimedOut)])"
proof -
  obtain bs where "log_from_slice toy_json bs = Some \<lparr>log_records = [sample_record 0 (Timestamp 5)]\<rparr>"
    using sample_log by blast
  have "\<exists>log. client_read toy_lib toy_json sample_client [7] ts_default (Timestamp 9)
     [(0, Replied bs), (1, TimedOut)] (\<lambda>n. [0..<n]) = Ok log"
    by (rule client_read_total) (simp_all add: sample_known)
  then obtain log where "client_read toy_lib toy_json sample_client [7] ts_default (Timestamp 9)
     [(0, Replied bs), (1, TimedOut)] (\<lambda>n. [0..<n]) = Ok log" by blast
  with read_sound [OF this task_order_upt] show ?thesis by fastforce
qed

lemma before_failure_all: "None \<notin> set tasks \<Longrightarrow> before_failure tasks = map the tasks"
  by (induction tasks rule: before_failure.induct) auto

lemma mset_concat_cong:
  assumes "mset xs = mset ys"
  shows "mset (concat (map f xs)) = mset (concat (map f ys))"
proof -
  have "mset (concat (map f zs)) = sum_mset (image_mset (\<lambda>x. mset (f x)) (mset zs))" for zs
    by (induction zs) auto
  with assms show ?thesis by simp
qed

lemma select_concat:
  assumes "\<forall>(i, bs)\<in>set rs. \<forall>l. log_from_slice J bs = Some l \<longrightarrow> task_of L J c ns i bs = Some (Some l)"
  shows "concat (map (\<lambda>t. log_records (the t)) (map snd (select (task_of L J c ns) rs))) =
      concat (map (\<lambda>(i, bs). case log_from_slice J bs of None \<Rightarrow> [] | Some l \<Rightarrow> log_records l) rs) \<and>
    None \<notin> set (map snd (select (task_of L J c ns) rs))"
  using assms
proof (induction rs)
  case (Cons r rs)
  obtain i bs where r: "r = (i, bs)" by (cases r)
  show ?case
  proof (cases "log_from_slice J bs")
    case None
    then have "task_of L J c ns i bs = None" by (simp add: task_of_def)
    with None Cons r show ?thesis by simp
  next
    case (Some l)
    with Cons.prems r have "task_of L J c ns i bs = Some (Some l)" by simp
    with Some Cons r show ?thesis by simp
  qed
qed simp

lemma client_read_all:
  assumes "request_to_vec J (ReadRange ns a b) \<noteq> None" "task_order order"
    and "\<forall>(i, bs)\<in>set (replies cs). validators c i \<noteq> None"
    and "\<forall>(i, bs)\<in>set (replies cs). \<forall>l pk. log_from_slice J bs = Some l \<longrightarrow> validators c i = Some pk \<longrightarrow>
      (\<forall>r\<in>set (log_records l). verify_signature L (r_signature r) pk (Record_digest L r ns))"
  shows "\<exists>log. client_read L J c ns a b cs order = Ok log \<and>
    mset (log_records log) = mset (concat (map (\<lambda>(i, bs).
      case log_from_slice J bs of None \<Rightarrow> [] | Some l \<Rightarrow> log_records l) (replies cs)))"
proof -
  let ?ts = "map snd (select (task_of L J c ns) (replies cs))"
  have "\<forall>(i, bs)\<in>set (replies cs). \<forall>l. log_from_slice J bs = Some l \<longrightarrow> task_of L J c ns i bs = Some (Some l)"
  proof (clarify)
    fix i bs l assume i: "(i, bs) \<in> set (replies cs)" and l: "log_from_slice J bs = Some l"
    from i assms(3) obtain pk where pk: "validators c i = Some pk" by fastforce
    with i l assms(4) have "\<forall>r\<in>set (log_records l). verify_signature L (r_signature r) pk (Record_digest L r ns)"
      by (auto simp: Ball_def split_paired_All)
    with l pk show "task_of L J c ns i bs = Some (Some l)" unfolding task_of_Some by blast
  qed
  note sel = select_concat [OF this]
  obtain log where log: "client_read L J c ns a b cs order = Ok log"
    using client_read_total [OF assms(1,3)] by blast
  have "None \<notin> set (read_tasks L J c ns cs order)"
    using sel set_read_tasks [OF assms(2), of L J c ns cs] by (metis mset_eq_setD)
  then have "log_prefix (read_tasks L J c ns cs order) =
      concat (map (\<lambda>t. log_records (the t)) (read_tasks L J c ns cs order))"
    by (simp add: log_prefix_def before_failure_all comp_def)
  then have "mset (log_records log) = mset (concat (map (\<lambda>t. log_records (the t)) ?ts))"
    using mset_concat_cong [OF set_read_tasks [OF assms(2), of L J c ns cs]]
    by (simp only: client_read_Ok [OF log] mset_sort)
  with log sel show ?thesis by (intro exI [of _ log]) (simp only: simp_thms)
qed



lemma select_mem: "(i, x) \<in> set rs \<Longrightarrow> f i x = Some v \<Longrightarrow> (i, v) \<in> set (select f rs)"
  by (induction f rs rule: select.induct) (auto split: option.split)

text \<open>
  But a single log that parses and does not verify can suppress all others: the loop over the
  verification tasks ends at the first one without a log. Whatever the other validators
  answered, there is an order of the tasks for which \<^verbatim>\<open>read\<close> returns an empty log, without an
  error.
\<close>

theorem bad_log_suppresses_all:
  assumes "request_to_vec J (ReadRange ns a b) \<noteq> None"
    and "\<forall>(i, bs)\<in>set (replies cs). validators c i \<noteq> None"
    and "(i, bs) \<in> set (replies cs)" "log_from_slice J bs = Some l" "validators c i = Some pk"
    and "\<exists>r\<in>set (log_records l). \<not> verify_signature L (r_signature r) pk (Record_digest L r ns)"
  shows "\<exists>order. task_order order \<and> client_read L J c ns a b cs order = Ok \<lparr>log_records = []\<rparr>"
proof -
  let ?ts = "map snd (select (task_of L J c ns) (replies cs))"
  have "task_of L J c ns i bs = Some None"
    using assms(4-6) by (auto simp: task_of_def verify_task_def verify_records_all)
  then have "None \<in> set ?ts" using select_mem [OF assms(3)] by force
  then obtain k where k: "k < length ?ts" "?ts ! k = None" by (metis in_set_conv_nth)
  define order where "order n = (if k < n then k # remove1 k [0..<n] else [0..<n])" for n
  have ord: "task_order order" by (auto simp: task_order_def order_def)
  obtain log where log: "client_read L J c ns a b cs order = Ok log"
    using client_read_total [OF assms(1,2)] by blast
  have "read_tasks L J c ns cs order = None # map (\<lambda>k. ?ts ! k) (remove1 k [0..<length ?ts])"
    using k by (simp add: read_tasks_def Let_def order_def)
  then have "log_records log = []" using client_read_Ok [OF log] by (simp add: log_prefix_def)
  with ord log show ?thesis by (intro exI [of _ order]) simp
qed

theorem bad_log_suppresses_all_witness:
  "\<exists>bad good order. client_read toy_lib toy_json sample_client [7] ts_default (Timestamp 9)
     [(0, Replied good), (1, Replied bad)] order = Ok \<lparr>log_records = []\<rparr> \<and>
     log_from_slice toy_json good = Some \<lparr>log_records = [sample_record 0 (Timestamp 5)]\<rparr>"
proof -
  obtain bs where bs: "log_from_slice toy_json bs = Some \<lparr>log_records = [sample_record 0 (Timestamp 5)]\<rparr>"
    using sample_log by blast
  have "\<not> verify_signature toy_lib (r_signature (sample_record 0 (Timestamp 5))) 11
      (Record_digest toy_lib (sample_record 0 (Timestamp 5)) [7])"
    by (simp add: verify_signature_def sample_record_def toy_lib_def)
  with bad_log_suppresses_all [of toy_json "[7]" ts_default "Timestamp 9" "[(0, Replied bs), (1, Replied bs)]"
      sample_client 1 bs "\<lparr>log_records = [sample_record 0 (Timestamp 5)]\<rparr>" 11 toy_lib] bs
  show ?thesis by (auto simp: sample_known)
qed



section \<open>Subscriptions\<close>

text \<open>
  \<^verbatim>\<open>subscribe\<close> itself always succeeds, with the publishers of the replies before the first
  failed one; but its background task forwards records only if every one of these publishers
  can be connected and subscribed to: one that cannot ends the subscription silently.
\<close>

theorem subscribe_all_or_nothing:
  assumes "request_to_vec J (Subscribe ns) \<noteq> None"
  shows "client_subscribe J ns cs = Ok (publishers_of J cs) \<and>
    (set addrs = dom (publishers_of J cs) \<longrightarrow>
      (snd (connect_publishers connect sub topic addrs) \<longleftrightarrow>
        (\<forall>a\<in>dom (publishers_of J cs). connect a \<and> sub a)))"
  using client_subscribe_eq [OF assms] connect_publishers_ok by metis

theorem subscribe_all_or_nothing_witness:
  "client_subscribe toy_json [7] [(0, ([127, 0, 0, 1], 80), TimedOut)] =
     Ok (publishers_of toy_json [(0, ([127, 0, 0, 1], 80), TimedOut)])"
  by (rule conjunct1 [OF subscribe_all_or_nothing]) simp



text \<open>
  \<^verbatim>\<open>subscribe_certified\<close> never panics, and every certificate it emits aggregates received
  records that carry messages with one digest, consecutive among those with that digest and as
  many as a quorum.
\<close>

theorem subscribe_certified_sound:
  assumes "fifo_laws F" "agg_unchecked_total L"
  shows "\<exists>certs. client_subscribe_certified L F c ns stream = (certs, False) \<and>
    (\<forall>cert\<in>set certs. \<exists>i rs. rs \<noteq> [] \<and>
       sublist rs (filter (\<lambda>r. Record_message_digest L r ns = i) (map fst stream)) \<and>
       has_reached_quorum (validator_count c) (length rs) \<and>
       cr_timestamps cert = map r_timestamp rs \<and> cr_message cert = r_message (hd rs) \<and>
       aggregate L (map r_signature rs) = Some (cr_quorum_signature cert))"
proof -
  from certify_stream_grounded [OF assms(1) groups_init(1) [OF assms(1)],
      where stream = stream and n = "validator_count c" and L = L and ns = ns] obtain certs
    where certs: "client_subscribe_certified L F c ns stream = (certs, False)"
      "\<forall>cert\<in>set certs. grounded L (validator_count c) ns (map fst stream) cert"
    by (auto simp: client_subscribe_certified_def)
  have "\<exists>i rs. rs \<noteq> [] \<and> sublist rs (filter (\<lambda>r. Record_message_digest L r ns = i) (map fst stream)) \<and>
       has_reached_quorum (validator_count c) (length rs) \<and>
       cr_timestamps cert = map r_timestamp rs \<and> cr_message cert = r_message (hd rs) \<and>
       aggregate L (map r_signature rs) = Some (cr_quorum_signature cert)"
    if g: "grounded L (validator_count c) ns (map fst stream) cert" for cert
  proof -
    from g obtain i rs where rs: "rs \<noteq> []" "sublist rs (group_of L ns (map fst stream) i)"
      "has_reached_quorum (validator_count c) (length rs)" "from_records_unchecked L rs = Some cert"
      unfolding grounded_def by blast
    from from_records_unchecked_aggregate [OF assms(2) rs(1)] rs(4) obtain q where
      "aggregate L (map r_signature rs) = Some q"
      "cert = \<lparr>cr_timestamps = map r_timestamp rs, cr_message = r_message (hd rs), cr_quorum_signature = q\<rparr>"
      by auto
    with rs show ?thesis
      by (intro exI [of _ i] exI [of _ rs]) (simp add: group_of_def)
  qed
  with certs show ?thesis by blast
qed

theorem subscribe_certified_sound_witness:
  "\<exists>certs. client_subscribe_certified toy_lib queue_fifo sample_client [7]
     [(sample_record 0 (Timestamp 5), True), (sample_record 1 (Timestamp 6), True)] = (certs, False)"
  using subscribe_certified_sound [OF queue_fifo_laws toy_agg_total] by blast

text \<open>
  C32: as long as at most 1024 different messages are received, the bounded map of
  \<^verbatim>\<open>subscribe_certified\<close> does not show: the certificates are those of the function
  \<open>certificates\<close>, one of the whole group so far for every record that finds its group at or
  above the quorum.
\<close>

theorem subscribe_certified_meets_spec:
  assumes "fifo_laws F" "card ((\<lambda>r. Record_message_digest L r ns) ` set rs) \<le> 1024"
  shows "client_subscribe_certified L F c ns (map (\<lambda>r. (r, True)) rs) =
    (certificates L (validator_count c) ns [] rs, False)"
  unfolding client_subscribe_certified_def
  by (rule certify_stream_exact [OF assms(1) groups_init(2) [OF assms(1)]]) (simp add: assms(2))

theorem subscribe_certified_meets_spec_witness:
  "client_subscribe_certified toy_lib queue_fifo sample_client [7]
     (map (\<lambda>r. (r, True)) [sample_record 0 (Timestamp 5), sample_record 1 (Timestamp 6)]) =
   (certificates toy_lib 3 [7] [] [sample_record 0 (Timestamp 5), sample_record 1 (Timestamp 6)], False)"
  using subscribe_certified_meets_spec [OF queue_fifo_laws, of toy_lib "[7]"
      "[sample_record 0 (Timestamp 5), sample_record 1 (Timestamp 6)]" sample_client]
    card_length [of "map (\<lambda>r. Record_message_digest toy_lib r [7]) [sample_record 0 (Timestamp 5), sample_record 1 (Timestamp 6)]"]
  by simp

text \<open>Copies of one record.\<close>

lemma certificates_copies:
  assumes "3 \<le> n"
  shows "length (certificates L n ns (replicate a r) (replicate b r)) = b - (quorum_threshold n - Suc a) \<and>
    (\<forall>cert\<in>set (certificates L n ns (replicate a r) (replicate b r)). set (cr_timestamps cert) = {r_timestamp r})"
proof (induction b arbitrary: a)
  case (Suc b)
  have snoc: "replicate a r @ [r] = r # replicate a r" by (simp add: replicate_append_same)
  have group: "group_of L ns (r # replicate a r) (Record_message_digest L r ns) = r # replicate a r"
    by (simp add: group_of_def)
  have q: "has_reached_quorum n (Suc a) \<longleftrightarrow> quorum_threshold n \<le> Suc a"
    using assms by (simp add: has_reached_quorum_def quorum_threshold_def)
  obtain cert where cert: "from_records_unchecked L (replicate (Suc a) r) = Some cert"
    "set (cr_timestamps cert) = {r_timestamp r}"
    by (simp add: set_replicate_conv_if)
  have "certificates L n ns (replicate a r) (replicate (Suc b) r) =
      (if quorum_threshold n \<le> Suc a then [cert] else []) @ certificates L n ns (replicate (Suc a) r) (replicate b r)"
    using cert(1) q by (simp add: snoc group)
  with Suc.IH [of "Suc a"] cert(2) show ?case by auto
qed simp

text \<open>
  \<^verbatim>\<open>subscribe_certified\<close> counts records, not validators, and checks no signature: with three
  validators or more, copies of one record, from whoever sent them, make a certificate as soon
  as they are as many as a quorum, and another one for every further copy.
\<close>

theorem copies_make_certificates:
  assumes "fifo_laws F" "3 \<le> validator_count c"
  shows "\<exists>certs. client_subscribe_certified L F c ns
      (map (\<lambda>r. (r, True)) (replicate (quorum_threshold (validator_count c) + k) r)) = (certs, False) \<and>
    length certs = Suc k \<and> (\<forall>cert\<in>set certs. set (cr_timestamps cert) = {r_timestamp r})"
proof -
  let ?n = "validator_count c" and ?rs = "replicate (quorum_threshold (validator_count c) + k) r"
  have "(\<lambda>r. Record_message_digest L r ns) ` set ?rs \<subseteq> {Record_message_digest L r ns}" by auto
  from card_mono [OF _ this] have "card ((\<lambda>r. Record_message_digest L r ns) ` set ?rs) \<le> 1" by simp
  then have "client_subscribe_certified L F c ns (map (\<lambda>r. (r, True)) ?rs) = (certificates L ?n ns [] ?rs, False)"
    unfolding client_subscribe_certified_def
    by (intro certify_stream_exact [OF assms(1) groups_init(2) [OF assms(1)]]) simp
  moreover have "quorum_threshold ?n \<noteq> 0" using assms(2) by (simp add: quorum_threshold_def)
  then have "quorum_threshold ?n + k - (quorum_threshold ?n - Suc 0) = Suc k" by linarith
  ultimately show ?thesis
    using certificates_copies [OF assms(2), of L ns 0 r "quorum_threshold ?n + k"] by simp
qed

theorem copies_make_certificates_witness:
  "\<exists>certs. client_subscribe_certified toy_lib queue_fifo sample_client [7]
     (map (\<lambda>r. (r, True)) (replicate (quorum_threshold 3 + 4) (sample_record 0 (Timestamp 5)))) = (certs, False) \<and>
     length certs = 5"
  using copies_make_certificates [OF queue_fifo_laws, of sample_client toy_lib "[7]" 4 "sample_record 0 (Timestamp 5)"]
  by auto

end
