(* ===== verification/Network.thy ===== *)
theory Network
  imports System
begin

text \<open>
  The network as a state machine: validators that serve requests one at a time, in any order
  and at any clock, some of which are faulty and may reply anything. A reply travels on the
  connection it was asked for on, so a client that takes a reply for one of validator \<open>i\<close> to its
  request got it from validator \<open>i\<close>; everything else, which requests arrive when, which replies
  get lost and in which order the others are seen, is arbitrary. No signature scheme is assumed
  to be unforgeable.
\<close>

section \<open>States and steps\<close>

text \<open>
  A reply is kept with the validator, the identifier the request has on its connection, and the
  request.
\<close>

record ('s, 'sk) world =
  w_nodes :: "nat \<Rightarrow> ('s, 'sk) Validator"
  w_replies :: "(nat \<times> nat \<times> bytes \<times> bytes) set"

datatype net_event =
    Deliver nat nat bytes int  \<comment> \<open>validator, request identifier, request, clock\<close>
  | Forge nat nat bytes bytes  \<comment> \<open>faulty validator, request identifier, request, reply\<close>

inductive net_step ::
  "('sk, 'pk, 'sig, 'agg) lib \<Rightarrow> 'sig json \<Rightarrow> ('s, 'sig) DataStore \<Rightarrow> nat set \<Rightarrow>
     ('s, 'sk) world \<Rightarrow> net_event \<Rightarrow> ('s, 'sk) world \<Rightarrow> bool"
  for L J D bad where
  deliver: "i \<notin> bad \<Longrightarrow> serve L J D [Incoming msg clock] (w_nodes w i) = Some (v', resps, pubs) \<Longrightarrow>
    net_step L J D bad w (Deliver i rid msg clock)
      (w\<lparr>w_nodes := (w_nodes w)(i := v'),
         w_replies := w_replies w \<union> (\<lambda>b. (i, rid, msg, b)) ` set resps\<rparr>)"
| forge: "i \<in> bad \<Longrightarrow>
    net_step L J D bad w (Forge i rid msg b) (w\<lparr>w_replies := insert (i, rid, msg, b) (w_replies w)\<rparr>)"

inductive_cases deliverE: "net_step L J D bad w (Deliver i rid msg clock) w'"
inductive_cases forgeE: "net_step L J D bad w (Forge i rid msg b) w'"

inductive execution ::
  "('sk, 'pk, 'sig, 'agg) lib \<Rightarrow> 'sig json \<Rightarrow> ('s, 'sig) DataStore \<Rightarrow> nat set \<Rightarrow>
     ('s, 'sk) world \<Rightarrow> net_event list \<Rightarrow> ('s, 'sk) world \<Rightarrow> bool"
  for L J D bad w where
  start: "execution L J D bad w [] w"
| step: "execution L J D bad w es w' \<Longrightarrow> net_step L J D bad w' e w'' \<Longrightarrow>
    execution L J D bad w (es @ [e]) w''"

text \<open>Every validator was created by \<^verbatim>\<open>Validator::new_in_memory\<close> with its key; nothing was said.\<close>

definition booted :: "(nat \<Rightarrow> 'sk) \<Rightarrow> ('m InMemoryStore, 'sk) world \<Rightarrow> bool" where
  "booted sk w \<longleftrightarrow> w_replies w = {} \<and>
     (\<forall>i. \<exists>bind_rep bind_pub port. new_in_memory bind_rep bind_pub (sk i) port = (Ok (w_nodes w i) :: (unit, _) res))"

text \<open>
  What a client has received when its request \<open>msg\<close> had the identifier \<open>rid i\<close> on the connection
  to validator \<open>i\<close>: replies to exactly this request; any of them may be missing.
\<close>

definition received ::
  "('s, 'sk) world \<Rightarrow> (nat \<Rightarrow> nat) \<Rightarrow> bytes \<Rightarrow> completion list \<Rightarrow> bool" where
  "received w rid msg cs \<longleftrightarrow> distinct (map fst cs) \<and>
     (\<forall>(i, r)\<in>set cs. \<forall>b. r = Replied b \<longrightarrow> (i, rid i, msg, b) \<in> w_replies w)"

lemma receivedD:
  assumes "received w rid msg cs"
  shows "distinct (map fst cs)" "(i, Replied b) \<in> set cs \<Longrightarrow> (i, rid i, msg, b) \<in> w_replies w"
  using assms unfolding received_def by auto

text \<open>The messages a validator was asked to write to a namespace, in a run.\<close>

fun asked :: "'sig json \<Rightarrow> nat \<Rightarrow> net_event \<Rightarrow> (Namespace \<times> Message) list" where
  "asked J i (Deliver k rid msg clock) =
     (if k = i then (case request_from_slice J msg of Some (Write ns m) \<Rightarrow> [(ns, m)] | _ \<Rightarrow> []) else [])"
| "asked J i (Forge k rid msg b) = []"

definition asked_of :: "'sig json \<Rightarrow> nat \<Rightarrow> net_event list \<Rightarrow> (Namespace \<times> Message) list" where
  "asked_of J i es = concat (map (asked J i) es)"

lemma asked_of_simps [simp]:
  "asked_of J i [] = []" "asked_of J i (es @ fs) = asked_of J i es @ asked_of J i fs"
  "asked_of J i [e] = asked J i e"
  by (simp_all add: asked_of_def)

section \<open>One step of an honest validator\<close>

text \<open>
  Serving one request extends the store by what was asked and answers with what the store then
  holds.
\<close>

lemma serve_one:
  assumes "serve L J (in_memory L F) [Incoming msg clock] v = Some (v', resps, pubs)"
  shows "\<exists>ws. map (\<lambda>(ns, r). (ns, r_message r)) ws = asked J i (Deliver i rid msg clock) \<and>
      v_store v' = ds_writes (in_memory L F) ws (v_store v) \<and>
      (\<forall>(ns, r)\<in>set ws. request_from_slice J msg = Some (Write ns (r_message r)) \<and> ts_now clock = Some (r_timestamp r))"
    and "v_secret_key v' = v_secret_key v" "v_pub_addr v' = v_pub_addr v"
proof -
  show "v_secret_key v' = v_secret_key v" "v_pub_addr v' = v_pub_addr v"
    using assms by (auto split: option.splits prod.splits dest: handle_request_frame)
  show "\<exists>ws. map (\<lambda>(ns, r). (ns, r_message r)) ws = asked J i (Deliver i rid msg clock) \<and>
      v_store v' = ds_writes (in_memory L F) ws (v_store v) \<and>
      (\<forall>(ns, r)\<in>set ws. request_from_slice J msg = Some (Write ns (r_message r)) \<and> ts_now clock = Some (r_timestamp r))"
  proof (cases "request_from_slice J msg")
    case None
    with assms show ?thesis by (intro exI [of _ "[]"]) simp
  next
    case (Some req)
    with assms obtain resp pub where
      h: "handle_request L J (in_memory L F) clock v req = Some (v', resp, pub)"
      by (auto split: option.splits prod.splits)
    show ?thesis
    proof (cases req)
      case (Write ns m)
      with h obtain r where w: "validator_write L (in_memory L F) clock v ns m = Some (r, v')"
        by (auto split: option.splits)
      then have "r_message r = m" "v_store v' = ds_write_one (in_memory L F) (v_store v) ns r"
        "ts_now clock = Some (r_timestamp r)"
        by (auto simp: validator_write_def Let_def split: option.splits)
      with Some Write show ?thesis by (intro exI [of _ "[(ns, r)]"]) simp
    qed (use h Some in \<open>auto simp: Let_def validator_subscribe_def split: option.splits\<close>)
  qed
qed

section \<open>Runs\<close>

lemma execution_trans:
  "execution L J D bad w2 fs w3 \<Longrightarrow> execution L J D bad w1 es w2 \<Longrightarrow> execution L J D bad w1 (es @ fs) w3"
proof (induction rule: execution.induct)
  case (step fs w' e w'')
  then have "execution L J D bad w1 ((es @ fs) @ [e]) w''" by (intro execution.step) auto
  then show ?case by simp
qed simp

text \<open>A reply of an honest validator that was not there at the start was made on the way.\<close>

lemma reply_origin:
  assumes "execution L J D bad w es w'" "(i, rid, msg, b) \<in> w_replies w'" "(i, rid, msg, b) \<notin> w_replies w" "i \<notin> bad"
  shows "\<exists>es1 clock es2 w1 v' resps pubs. es = es1 @ Deliver i rid msg clock # es2 \<and>
    execution L J D bad w es1 w1 \<and> serve L J D [Incoming msg clock] (w_nodes w1 i) = Some (v', resps, pubs) \<and>
    b \<in> set resps"
  using assms(1,2)
proof (induction rule: execution.induct)
  case start
  with assms(3) show ?case by simp
next
  case (step es w' e w'')
  show ?case
  proof (cases "(i, rid, msg, b) \<in> w_replies w'")
    case True
    from step.IH [OF this] obtain es1 clock es2 w1 v' resps pubs where
      "es = es1 @ Deliver i rid msg clock # es2" and rest: "execution L J D bad w es1 w1"
      "serve L J D [Incoming msg clock] (w_nodes w1 i) = Some (v', resps, pubs)" "b \<in> set resps" by blast
    then have "es @ [e] = es1 @ Deliver i rid msg clock # (es2 @ [e])" by simp
    with rest show ?thesis by blast
  next
    case False
    with step.hyps(2) step.prems assms(4) obtain clock v' resps pubs where
      "e = Deliver i rid msg clock" "serve L J D [Incoming msg clock] (w_nodes w' i) = Some (v', resps, pubs)"
      "b \<in> set resps"
      by (cases rule: net_step.cases) auto
    with step.hyps(1) show ?thesis by blast
  qed
qed

text \<open>
  The store of every validator is the result of writing, in order, one record for each write
  it was asked for.
\<close>

lemma execution_store:
  assumes "execution L J (in_memory L F) bad w es w'" "booted sk w"
  shows "\<exists>ws. map (\<lambda>(ns, r). (ns, r_message r)) ws = asked_of J i es \<and>
    v_store (w_nodes w' i) = ds_writes (in_memory L F) ws (with_capacity 4096) \<and>
    v_secret_key (w_nodes w' i) = sk i \<and> v_pub_addr (w_nodes w' i) \<noteq> None \<and>
    (\<forall>(ns, r)\<in>set ws. \<exists>rid msg clock. Deliver i rid msg clock \<in> set es \<and>
       request_from_slice J msg = Some (Write ns (r_message r)) \<and> ts_now clock = Some (r_timestamp r))"
  using assms(1)
proof (induction rule: execution.induct)
  case start
  obtain bind_rep bind_pub port where
    "new_in_memory bind_rep bind_pub (sk i) port = (Ok (w_nodes w i) :: (unit, _) res)"
    using assms(2) unfolding booted_def by blast
  note new = new_in_memory_Ok [OF this]
  show ?case by (intro exI [of _ "[]"]) (simp add: new)
next
  case (step es w' e w'')
  then obtain ws where ws: "map (\<lambda>(ns, r). (ns, r_message r)) ws = asked_of J i es"
    "v_store (w_nodes w' i) = ds_writes (in_memory L F) ws (with_capacity 4096)"
    "v_secret_key (w_nodes w' i) = sk i" "v_pub_addr (w_nodes w' i) \<noteq> None"
    "\<forall>(ns, r)\<in>set ws. \<exists>rid msg clock. Deliver i rid msg clock \<in> set es \<and>
       request_from_slice J msg = Some (Write ns (r_message r)) \<and> ts_now clock = Some (r_timestamp r)" by blast
  have past: "\<forall>(ns, r)\<in>set ws. \<exists>rid msg clock. Deliver i rid msg clock \<in> set (es @ [e]) \<and>
       request_from_slice J msg = Some (Write ns (r_message r)) \<and> ts_now clock = Some (r_timestamp r)"
    using ws(5) by (fastforce split: prod.splits)
  from step.hyps(2) show ?case
  proof cases
    case (deliver k msg clock v' resps pubs rid)
    show ?thesis
    proof (cases "k = i")
      case True
      note s = serve_one [OF deliver(4) [unfolded True]]
      from s(1) [of i rid] obtain vs where
        "map (\<lambda>(ns, r). (ns, r_message r)) vs = asked J i (Deliver i rid msg clock)"
        "v_store v' = ds_writes (in_memory L F) vs (v_store (w_nodes w' i))"
        "\<forall>(ns, r)\<in>set vs. request_from_slice J msg = Some (Write ns (r_message r)) \<and> ts_now clock = Some (r_timestamp r)" by blast
      moreover from this(3) have "\<forall>(ns, r)\<in>set vs. \<exists>rid msg clock. Deliver i rid msg clock \<in> set (es @ [e]) \<and>
          request_from_slice J msg = Some (Write ns (r_message r)) \<and> ts_now clock = Some (r_timestamp r)"
        using deliver(1) True by fastforce
      ultimately show ?thesis using ws(1-4) past s(2,3) deliver True
        by (intro exI [of _ "ws @ vs"]) (simp add: ds_writes_def ball_Un)
    qed (use ws(1-4) past deliver in auto)
  next
    case (forge k rid msg b)
    with ws(1-4) past show ?thesis by auto
  qed
qed

text \<open>The digests of the messages a validator was asked to write to a namespace.\<close>

definition asked_digests ::
  "('sk, 'pk, 'sig, 'agg) lib \<Rightarrow> 'sig json \<Rightarrow> nat \<Rightarrow> Namespace \<Rightarrow> net_event list \<Rightarrow> B256 set" where
  "asked_digests L J i ns es = (\<lambda>(ns', m). Message_digest L m ns') ` {a \<in> set (asked_of J i es). fst a = ns}"

lemma finite_asked_digests [simp]: "finite (asked_digests L J i ns es)"
  by (simp add: asked_digests_def)

lemma asked_digests_append:
  "asked_digests L J i ns (es @ fs) = asked_digests L J i ns es \<union> asked_digests L J i ns fs"
  by (auto simp: asked_digests_def)

lemma asked_digests_written:
  assumes "map (\<lambda>(ns, r). (ns, r_message r)) ws = asked_of J i es"
  shows "digests_written L ns ws = asked_digests L J i ns es"
  unfolding digests_written_def asked_digests_def assms [symmetric]
  by (force simp: Record_message_digest_eq)

text \<open>An honest validator holds nothing but what it was asked to write, and all of it below capacity.\<close>

lemma held_asked:
  assumes "fifo_laws F" "execution L J (in_memory L F) bad w es w'" "booted sk w"
  shows "held F (v_store (w_nodes w' i)) ns \<subseteq> asked_digests L J i ns es"
    and "card (asked_digests L J i ns es) < 4096 \<Longrightarrow>
      held F (v_store (w_nodes w' i)) ns = asked_digests L J i ns es"
proof -
  from execution_store [OF assms(2,3)] obtain ws where
    ws: "map (\<lambda>(ns, r). (ns, r_message r)) ws = asked_of J i es"
    and s: "v_store (w_nodes w' i) = ds_writes (in_memory L F) ws (with_capacity 4096)" by blast
  note d = asked_digests_written [OF ws, of L ns]
  show "held F (v_store (w_nodes w' i)) ns = asked_digests L J i ns es"
    if "card (asked_digests L J i ns es) < 4096"
    using held_written [OF assms(1), of L ns ws 4096] that by (simp add: s d)
  have ok: "store_ok L F (with_capacity 4096)" by (rule store_ok_new [OF assms(1)]) simp
  show "held F (v_store (w_nodes w' i)) ns \<subseteq> asked_digests L J i ns es"
  proof
    fix k assume "k \<in> held F (v_store (w_nodes w' i)) ns"
    then obtain r where "read_message F (ds_writes (in_memory L F) ws (with_capacity 4096)) ns k = Some r"
      by (auto simp: held_def s)
    then have "(ns, r) \<in> set ws" "Record_message_digest L r ns = k"
      using mem.read_message_from_writes [OF ok, of ns ws k r] by (simp_all add: in_memory_def)
    then show "k \<in> asked_digests L J i ns es" by (force simp: digests_written_def simp flip: d)
  qed
qed

section \<open>What honest replies say\<close>

lemma codec_decode:
  assumes "codec enc dec" "enc x = Some bs"
  shows "dec bs = Some x"
  using codecD [OF assms(1), of x] assms(2) by auto

lemma json_decode:
  assumes "json_faithful J" "request_to_vec J req = Some msg"
  shows "request_from_slice J msg = Some req"
  by (rule codec_decode [OF json_faithfulD(1) [OF assms(1)] assms(2)])

lemma reply_write:
  assumes "json_faithful J" "request_to_vec J (Write ns m) = Some msg"
    and "serve L J D [Incoming msg clock] v = Some (v', resps, pubs)" "b \<in> set resps"
  shows "\<exists>r. record_from_slice J b = Some r \<and> validator_write L D clock v ns m = Some (r, v')"
proof -
  from assms(3,4) json_decode [OF assms(1,2)] obtain r where
    r: "validator_write L D clock v ns m = Some (r, v')" "record_to_vec J r = Some b"
    by (auto split: option.splits)
  moreover have "record_from_slice J b = Some r"
    by (rule codec_decode [OF json_faithfulD(2) [OF assms(1)] r(2)])
  ultimately show ?thesis by blast
qed

lemma reply_read_message:
  assumes "json_faithful J" "request_to_vec J (ReadMessage ns k) = Some msg"
    and "serve L J D [Incoming msg clock] v = Some (v', resps, pubs)" "b \<in> set resps"
  shows "\<exists>resp. message_response_from_slice J b = Some resp \<and>
    validator_read_message L D clock v ns k = Some resp"
proof -
  from assms(3,4) json_decode [OF assms(1,2)] obtain resp where
    resp: "validator_read_message L D clock v ns k = Some resp" "message_response_to_vec J resp = Some b"
    by (auto split: option.splits)
  moreover have "message_response_from_slice J b = Some resp"
    by (rule codec_decode [OF json_faithfulD(4) [OF assms(1)] resp(2)])
  ultimately show ?thesis by blast
qed

text \<open>
  An honest validator that replied to a write was asked for it, at a clock that gave the time of
  the record.
\<close>

lemma honest_write_reply:
  assumes "json_faithful J" "execution L J D bad w es w'" "request_to_vec J (Write ns m) = Some msg"
    and "(i, rid, msg, b) \<in> w_replies w'" "(i, rid, msg, b) \<notin> w_replies w" "i \<notin> bad"
  shows "(ns, m) \<in> set (asked_of J i es)"
    and "\<exists>clock r. Deliver i rid msg clock \<in> set es \<and> record_from_slice J b = Some r \<and>
      ts_now clock = Some (r_timestamp r)"
proof -
  from reply_origin [OF assms(2,4-6)] obtain es1 clock es2 w1 v' resps pubs where
    es: "es = es1 @ Deliver i rid msg clock # es2" and "execution L J D bad w es1 w1"
    and s: "serve L J D [Incoming msg clock] (w_nodes w1 i) = Some (v', resps, pubs)" "b \<in> set resps" by blast
  show "(ns, m) \<in> set (asked_of J i es)"
    using es json_decode [OF assms(1,3)] by (simp add: asked_of_def)
  from reply_write [OF assms(1,3) s] obtain r where
    r: "record_from_slice J b = Some r" "validator_write L D clock (w_nodes w1 i) ns m = Some (r, v')" by blast
  then have "ts_now clock = Some (r_timestamp r)"
    by (auto simp: validator_write_def Let_def split: option.splits)
  with es r(1) show "\<exists>clock r. Deliver i rid msg clock \<in> set es \<and> record_from_slice J b = Some r \<and>
      ts_now clock = Some (r_timestamp r)" by auto
qed

text \<open>
  An honest validator that says a message is available was asked to write it before; one that
  was asked to write it does not say it is unavailable, below capacity.
\<close>

lemma honest_read_reply:
  assumes "fifo_laws F" "json_faithful J" "booted sk w0" "execution L J (in_memory L F) bad w0 es w"
    and "execution L J (in_memory L F) bad w fs w'" "request_to_vec J (ReadMessage ns k) = Some msg"
    and "(i, rid, msg, b) \<in> w_replies w'" "(i, rid, msg, b) \<notin> w_replies w" "i \<notin> bad"
  shows "message_response_from_slice J b = Some (Available r) \<Longrightarrow> k \<in> asked_digests L J i ns (es @ fs)"
    and "k \<in> asked_digests L J i ns es \<Longrightarrow> card (asked_digests L J i ns (es @ fs)) < 4096 \<Longrightarrow>
      message_response_from_slice J b \<noteq> Some (Unavailable u)"
proof -
  let ?D = "in_memory L F"
  from reply_origin [OF assms(5,7-9)] obtain es1 clock es2 w1 v' resps pubs where
    fs: "fs = es1 @ Deliver i rid msg clock # es2" and ex: "execution L J ?D bad w es1 w1"
    and s: "serve L J ?D [Incoming msg clock] (w_nodes w1 i) = Some (v', resps, pubs)" "b \<in> set resps" by blast
  note ex' = execution_trans [OF ex assms(4)]
  note sub = held_asked(1) [OF assms(1) ex' assms(3), of i ns] and all = held_asked(2) [OF assms(1) ex' assms(3), of i ns]
  from reply_read_message [OF assms(2,6) s] obtain resp where
    resp: "message_response_from_slice J b = Some resp" "validator_read_message L ?D clock (w_nodes w1 i) ns k = Some resp" by blast
  have kind: "k \<in> held F (v_store (w_nodes w1 i)) ns \<longleftrightarrow> (\<exists>r. resp = Available r)"
    using resp(2) by (auto simp: validator_read_message_def held_def in_memory_def split: option.splits)
  have mono: "asked_digests L J i ns es \<subseteq> asked_digests L J i ns (es @ es1)"
    "asked_digests L J i ns (es @ es1) \<subseteq> asked_digests L J i ns (es @ fs)"
    by (auto simp: asked_digests_append fs)
  show "k \<in> asked_digests L J i ns (es @ fs)" if "message_response_from_slice J b = Some (Available r)"
    using kind resp(1) that sub mono(2) by auto
  show "message_response_from_slice J b \<noteq> Some (Unavailable u)"
    if k: "k \<in> asked_digests L J i ns es" and few: "card (asked_digests L J i ns (es @ fs)) < 4096"
  proof -
    have "card (asked_digests L J i ns (es @ es1)) < 4096"
      using card_mono [OF finite_asked_digests mono(2)] few by linarith
    with all k mono(1) have "k \<in> held F (v_store (w_nodes w1 i)) ns" by blast
    with kind resp(1) show ?thesis by auto
  qed
qed

text \<open>
  A record that an honest validator returned for a query comes from a write it was asked for, at a
  clock that gave the time of the record.
\<close>

lemma honest_read_time:
  assumes "fifo_laws F" "json_faithful J" "booted sk w0" "execution L J (in_memory L F) bad w0 es w"
    and "request_to_vec J (ReadMessage ns k) = Some msg" "(i, rid, msg, b) \<in> w_replies w" "i \<notin> bad"
    and "message_response_from_slice J b = Some (Available r)"
  shows "Message_digest L (r_message r) ns = k"
    and "\<exists>rid msg clock. Deliver i rid msg clock \<in> set es \<and>
      request_from_slice J msg = Some (Write ns (r_message r)) \<and> ts_now clock = Some (r_timestamp r)"
proof -
  let ?D = "in_memory L F"
  have "(i, rid, msg, b) \<notin> w_replies w0" using assms(3) by (simp add: booted_def)
  from reply_origin [OF assms(4,6) this assms(7)] obtain es1 clock es2 w1 v' resps pubs where
    es: "es = es1 @ Deliver i rid msg clock # es2" and ex: "execution L J ?D bad w0 es1 w1"
    and s: "serve L J ?D [Incoming msg clock] (w_nodes w1 i) = Some (v', resps, pubs)" "b \<in> set resps" by blast
  from reply_read_message [OF assms(2,5) s] assms(8)
  have "validator_read_message L ?D clock (w_nodes w1 i) ns k = Some (Available r)" by auto
  then have rd: "ds_read_message ?D (v_store (w_nodes w1 i)) ns k = Some r"
    by (auto simp: validator_read_message_def split: option.splits)
  from execution_store [OF ex assms(3), of i] obtain ws where
    ws: "v_store (w_nodes w1 i) = ds_writes ?D ws (with_capacity 4096)"
    and past: "\<forall>(ns, r)\<in>set ws. \<exists>rid msg clock. Deliver i rid msg clock \<in> set es1 \<and>
      request_from_slice J msg = Some (Write ns (r_message r)) \<and> ts_now clock = Some (r_timestamp r)" by blast
  have "store_ok L F (with_capacity 4096)" by (rule store_ok_new [OF assms(1)]) simp
  from mem.read_message_from_writes [OF this _ rd [unfolded ws]]
  have r: "(ns, r) \<in> set ws" "Record_message_digest L r ns = k" by simp_all
  then show "Message_digest L (r_message r) ns = k" by (simp add: Record_message_digest_eq)
  from past r(1) have "\<exists>rid msg clock. Deliver i rid msg clock \<in> set es1 \<and>
      request_from_slice J msg = Some (Write ns (r_message r)) \<and> ts_now clock = Some (r_timestamp r)" by blast
  then show "\<exists>rid msg clock. Deliver i rid msg clock \<in> set es \<and>
      request_from_slice J msg = Some (Write ns (r_message r)) \<and> ts_now clock = Some (r_timestamp r)"
    unfolding es by auto
qed

section \<open>Availability\<close>

lemma execution_node_ok:
  assumes "bls_correct L" "fifo_laws F" "booted sk w" "execution L J (in_memory L F) bad w es w'"
  shows "node_ok (store_ok L F) (store_content F) L (w_nodes w' i)"
  using assms(4)
proof (induction rule: execution.induct)
  case start
  obtain bind_rep bind_pub port where
    "new_in_memory bind_rep bind_pub (sk i) port = (Ok (w_nodes w i) :: (unit, _) res)"
    using assms(3) unfolding booted_def by blast
  then show ?case by (rule new_in_memory_node_ok [OF assms(2)])
next
  case (step es w' e w'')
  from step.hyps(2) show ?case
  proof cases
    case (deliver k msg clock v' resps pubs rid)
    show ?thesis
    proof (cases "k = i")
      case True
      from mem.node_ok_serve [OF assms(1) step.IH deliver(4) [unfolded True]] True deliver show ?thesis by simp
    qed (use step.IH deliver in simp)
  qed (use step.IH in simp)
qed

text \<open>Below capacity an honest validator answers every query for what it was asked to write.\<close>

lemma honest_available:
  assumes "bls_correct L" "fifo_laws F" "booted sk w0" "execution L J (in_memory L F) bad w0 es w"
    and "k \<in> asked_digests L J i ns es" "card (asked_digests L J i ns es) < 4096"
  shows "\<exists>r. validator_read_message L (in_memory L F) clock (w_nodes w i) ns k = Some (Available r) \<and>
    Message_digest L (r_message r) ns = k \<and> authentic L (sk_to_pk L (sk i)) ns r"
proof -
  have "k \<in> held F (v_store (w_nodes w i)) ns"
    using held_asked(2) [OF assms(2,4,3,6)] assms(5) by simp
  then obtain r where "read_message F (v_store (w_nodes w i)) ns k = Some r" by (auto simp: held_def)
  then have rd: "validator_read_message L (in_memory L F) clock (w_nodes w i) ns k = Some (Available r)"
    by (simp add: validator_read_message_def in_memory_def)
  have "v_secret_key (w_nodes w i) = sk i" using execution_store [OF assms(4,3)] by blast
  with mem.read_message_authentic [OF execution_node_ok [OF assms(1-4)] assms(1) rd] rd
  show ?thesis by (simp add: Record_message_digest_eq)
qed

section \<open>Building runs\<close>

text \<open>The same request served by several honest validators, and the same forged by faulty ones.\<close>

lemma deliver_round:
  assumes "request_from_slice J msg = Some req" "distinct is"
    and "\<forall>i\<in>set is. i \<notin> bad \<and> handle_request L J D clock (w_nodes w i) req = Some (v' i, Some (b i), pub i)"
  shows "execution L J D bad w (map (\<lambda>i. Deliver i rid msg clock) is)
    (w\<lparr>w_nodes := (\<lambda>i. if i \<in> set is then v' i else w_nodes w i),
       w_replies := w_replies w \<union> (\<lambda>i. (i, rid, msg, b i)) ` set is\<rparr>)"
  using assms(2,3)
proof (induction "is" rule: rev_induct)
  case Nil
  then show ?case by (simp add: execution.start)
next
  case (snoc k "is")
  let ?w = "w\<lparr>w_nodes := (\<lambda>i. if i \<in> set is then v' i else w_nodes w i),
       w_replies := w_replies w \<union> (\<lambda>i. (i, rid, msg, b i)) ` set is\<rparr>"
  have k: "k \<notin> set is" "k \<notin> bad" and h: "handle_request L J D clock (w_nodes ?w k) req = Some (v' k, Some (b k), pub k)"
    using snoc.prems by auto
  have "serve L J D [Incoming msg clock] (w_nodes ?w k) =
      Some (v' k, [b k], case pub k of None \<Rightarrow> [] | Some p \<Rightarrow> [p])"
    using h by (simp add: assms(1) del: handle_request.simps)
  note step = net_step.deliver [of k bad, OF k(2) this, of rid]
  have "?w\<lparr>w_nodes := (w_nodes ?w)(k := v' k),
      w_replies := w_replies ?w \<union> (\<lambda>b. (k, rid, msg, b)) ` set [b k]\<rparr> =
    w\<lparr>w_nodes := (\<lambda>i. if i \<in> set (is @ [k]) then v' i else w_nodes w i),
       w_replies := w_replies w \<union> (\<lambda>i. (i, rid, msg, b i)) ` set (is @ [k])\<rparr>"
    by (rule world.equality) (auto simp: fun_eq_iff)
  note step = step [unfolded this]
  from snoc.IH snoc.prems have "execution L J D bad w (map (\<lambda>i. Deliver i rid msg clock) is) ?w" by simp
  from execution.step [OF this step] show ?case by simp
qed

lemma forge_round:
  assumes "\<forall>i\<in>set is. i \<in> bad"
  shows "execution L J D bad w (map (\<lambda>i. Forge i rid msg (b i)) is)
    (w\<lparr>w_replies := w_replies w \<union> (\<lambda>i. (i, rid, msg, b i)) ` set is\<rparr>)"
  using assms
proof (induction "is" rule: rev_induct)
  case Nil
  then show ?case by (simp add: execution.start)
next
  case (snoc k "is")
  from net_step.forge [of k bad L J D "w\<lparr>w_replies := w_replies w \<union> (\<lambda>i. (i, rid, msg, b i)) ` set is\<rparr>" rid msg "b k"] snoc
  show ?case by (auto intro: execution.step)
qed

end
