(* ===== verification/NetworkProperties.thy ===== *)
theory NetworkProperties
  imports Network ReadProperties ValidatorProperties
begin

text \<open>
  Properties of runs of the network with up to \<open>f\<close> faulty validators: what is certified was
  written, what was certified stays readable, and how far this goes.
\<close>

section \<open>Runs of rounds\<close>

text \<open>What a validator that was just started answers.\<close>

lemma booted_write:
  assumes "bls_correct L" "json_faithful J" "booted sk w" "ts_now clock \<noteq> None"
  shows "\<exists>v' b pub r. handle_request L J (in_memory L F) clock (w_nodes w i) (Write ns m) = Some (v', Some b, pub) \<and>
    record_from_slice J b = Some r \<and> r_message r = m \<and>
    verify_signature L (r_signature r) (sk_to_pk L (sk i)) (Record_digest L r ns)"
proof -
  obtain bind_rep bind_pub port where
    "new_in_memory bind_rep bind_pub (sk i) port = (Ok (w_nodes w i) :: (unit, _) res)"
    using assms(3) unfolding booted_def by blast
  note key = new_in_memory_Ok(2) [OF this]
  obtain r v' where w: "validator_write L (in_memory L F) clock (w_nodes w i) ns m = Some (r, v')"
    using assms(4) by (auto simp: validator_write_def Let_def)
  obtain b where b: "record_to_vec J r = Some b" "record_from_slice J b = Some r"
    using codecD [OF json_faithfulD(2) [OF assms(2)], of r] by blast
  note auth = validator_write_authentic(1,2) [OF assms(1) w, unfolded key authentic_def]
  from w b auth show ?thesis by (auto split: option.splits)
qed

lemma booted_read:
  assumes "bls_correct L" "json_faithful J" "booted sk w" "ts_now clock \<noteq> None"
  shows "\<exists>b u. handle_request L J (in_memory L F) clock (w_nodes w i) (ReadMessage ns k) = Some (w_nodes w i, Some b, None) \<and>
    message_response_from_slice J b = Some (Unavailable u) \<and>
    verify_signature L (um_signature u) (sk_to_pk L (sk i)) (UnavailableMessage_digest L u)"
proof -
  obtain bind_rep bind_pub port where
    "new_in_memory bind_rep bind_pub (sk i) port = (Ok (w_nodes w i) :: (unit, _) res)"
    using assms(3) unfolding booted_def by blast
  note new = new_in_memory_Ok(1,2) [OF this]
  obtain u where u: "create_signed L clock k (sk i) = Some u" using assms(4) by (auto simp: create_signed_def Let_def)
  have "validator_read_message L (in_memory L F) clock (w_nodes w i) ns k = Some (Unavailable u)"
    by (simp add: validator_read_message_def in_memory_def read_message_def with_capacity_def new u)
  moreover obtain b where "message_response_to_vec J (Unavailable u) = Some b"
      "message_response_from_slice J b = Some (Unavailable u)"
    using codecD [OF json_faithfulD(4) [OF assms(2)], of "Unavailable u"] by blast
  ultimately show ?thesis using create_signed_verifies [OF assms(1) u] by auto
qed

definition round_of :: "nat \<Rightarrow> bytes \<Rightarrow> int \<Rightarrow> net_event list \<Rightarrow> bool" where
  "round_of rid msg clock es \<longleftrightarrow>
     (\<forall>e\<in>set es. \<exists>i b. e = Deliver i rid msg clock \<or> e = Forge i rid msg b)"

text \<open>
  A round of one request to a set of validators, some of them faulty: the honest ones serve it,
  the faulty ones say what they would have said as honest ones.
\<close>

lemma mixed_round:
  assumes "request_from_slice J msg = Some req" "finite A"
    and "\<forall>i\<in>A. handle_request L J D clock (w_nodes w i) req = Some (v' i, Some (b i), pub i)"
  shows "\<exists>es. round_of rid msg clock es \<and> execution L J D bad w es
    (w\<lparr>w_nodes := (\<lambda>i. if i \<in> A - bad then v' i else w_nodes w i),
       w_replies := w_replies w \<union> (\<lambda>i. (i, rid, msg, b i)) ` A\<rparr>)"
proof -
  obtain good where good: "distinct good" "set good = A - bad"
    using finite_distinct_list [of "A - bad"] assms(2) by auto
  obtain faulty where faulty: "set faulty = A \<inter> bad" using finite_list [of "A \<inter> bad"] assms(2) by auto
  let ?w = "w\<lparr>w_nodes := (\<lambda>i. if i \<in> set good then v' i else w_nodes w i),
       w_replies := w_replies w \<union> (\<lambda>i. (i, rid, msg, b i)) ` set good\<rparr>"
  have "execution L J D bad w (map (\<lambda>i. Deliver i rid msg clock) good) ?w"
    by (rule deliver_round [OF assms(1) good(1), where pub = pub]) (use assms(3) good(2) in blast)
  moreover have "execution L J D bad ?w (map (\<lambda>i. Forge i rid msg (b i)) faulty)
      (?w\<lparr>w_replies := w_replies ?w \<union> (\<lambda>i. (i, rid, msg, b i)) ` set faulty\<rparr>)"
    by (rule forge_round) (simp add: faulty)
  moreover have "?w\<lparr>w_replies := w_replies ?w \<union> (\<lambda>i. (i, rid, msg, b i)) ` set faulty\<rparr> =
      w\<lparr>w_nodes := (\<lambda>i. if i \<in> A - bad then v' i else w_nodes w i),
        w_replies := w_replies w \<union> (\<lambda>i. (i, rid, msg, b i)) ` A\<rparr>"
    by (rule world.equality) (auto simp: good(2) faulty)
  ultimately have "execution L J D bad w (map (\<lambda>i. Deliver i rid msg clock) good @ map (\<lambda>i. Forge i rid msg (b i)) faulty)
      (w\<lparr>w_nodes := (\<lambda>i. if i \<in> A - bad then v' i else w_nodes w i),
        w_replies := w_replies w \<union> (\<lambda>i. (i, rid, msg, b i)) ` A\<rparr>)"
    using execution_trans by fastforce
  moreover have "round_of rid msg clock (map (\<lambda>i. Deliver i rid msg clock) good @ map (\<lambda>i. Forge i rid msg (b i)) faulty)"
    by (auto simp: round_of_def)
  ultimately show ?thesis by blast
qed

lemma round_asked:
  assumes "request_from_slice J msg = Some (Write ns m)" "round_of rid msg clock es"
  shows "asked_digests L J i ns' es \<subseteq> {Message_digest L m ns'}"
proof
  fix k assume "k \<in> asked_digests L J i ns' es"
  then obtain m' e where m': "k = Message_digest L m' ns'" "e \<in> set es" "(ns', m') \<in> set (asked J i e)"
    by (auto simp: asked_digests_def asked_of_def)
  from assms(2) m'(2) obtain j b where "e = Deliver j rid msg clock \<or> e = Forge j rid msg b"
    unfolding round_of_def by blast
  then have "m' = m" using m'(3) assms(1) by (cases "j = i") auto
  with m'(1) show "k \<in> {Message_digest L m ns'}" by simp
qed

lemma round_asked_none:
  assumes "request_from_slice J msg = Some (ReadMessage ns k)" "round_of rid msg clock es"
  shows "asked_digests L J i ns' es = {}"
proof -
  have "asked J i e = []" if "e \<in> set es" for e
  proof -
    from assms(2) that obtain j b where "e = Deliver j rid msg clock \<or> e = Forge j rid msg b"
      unfolding round_of_def by blast
    then show ?thesis using assms(1) by auto
  qed
  then show ?thesis by (simp add: asked_digests_def asked_of_def)
qed

lemma received_round:
  assumes "distinct order" "set order \<subseteq> A" "(\<lambda>i. (i, rid, msg, b i)) ` A \<subseteq> w_replies w"
  shows "received w (\<lambda>_. rid) msg (map (\<lambda>i. (i, Replied (b i))) order)"
  using assms by (force simp: received_def comp_def)

text \<open>The start of such runs: a write that reaches the validators in \<open>A\<close>.\<close>

lemma write_run:
  assumes "bls_correct L" "agg_unchecked_total L" "json_faithful J" "booted sk w0" "ts_now clock \<noteq> None"
    and "validator_count c \<noteq> 0" "\<forall>i<validator_count c. validators c i = Some (sk_to_pk L (sk i))"
    and "A \<subseteq> {..<validator_count c}" "has_reached_quorum (validator_count c) (card A)"
    and msg: "request_to_vec J (Write ns m) = Some msg"
  shows "\<exists>es w cs cert. round_of 0 msg clock es \<and> execution L J (in_memory L F) bad w0 es w \<and>
    received w (\<lambda>_. 0) msg cs \<and> client_write Release L J c ns m cs = Ok cert \<and>
    (\<forall>i. i \<notin> A - bad \<longrightarrow> w_nodes w i = w_nodes w0 i) \<and> (\<forall>i rid msg b. (i, rid, msg, b) \<in> w_replies w \<longrightarrow> rid = 0)"
proof -
  let ?D = "in_memory L F" and ?n = "validator_count c"
  have fin: "finite A" using assms(8) finite_subset by blast
  have "\<forall>i. \<exists>v' b pub r. handle_request L J ?D clock (w_nodes w0 i) (Write ns m) = Some (v', Some b, pub) \<and>
      record_from_slice J b = Some r \<and> r_message r = m \<and>
      verify_signature L (r_signature r) (sk_to_pk L (sk i)) (Record_digest L r ns)"
    using booted_write [OF assms(1,3,4,5)] by blast
  then obtain v' b pub r where wr: "\<forall>i. handle_request L J ?D clock (w_nodes w0 i) (Write ns m) = Some (v' i, Some (b i), pub i)"
    and r: "\<forall>i. record_from_slice J (b i) = Some (r i) \<and> r_message (r i) = m \<and>
      verify_signature L (r_signature (r i)) (sk_to_pk L (sk i)) (Record_digest L (r i) ns)"
    unfolding choice_iff by blast
  define w where "w = w0\<lparr>w_nodes := (\<lambda>i. if i \<in> A - bad then v' i else w_nodes w0 i),
    w_replies := w_replies w0 \<union> (\<lambda>i. (i, 0, msg, b i)) ` A\<rparr>"
  obtain es where es: "round_of 0 msg clock es" "execution L J ?D bad w0 es w"
    using mixed_round [OF json_decode [OF assms(3) msg] fin, where bad = bad and rid = 0 and pub = pub] wr
    unfolding w_def by blast
  obtain oa where oa: "distinct oa" "set oa = A" using finite_distinct_list [OF fin] by blast
  let ?cs = "map (\<lambda>i. (i, Replied (b i))) oa"
  have known: "\<forall>i\<in>A. validators c i = Some (sk_to_pk L (sk i)) \<and> i < ?n" using assms(7,8) by auto
  have "select (write_vote L J c ns m) (map (\<lambda>i. (i, b i)) oa) = map (\<lambda>i. (i, r i)) oa"
    by (rule select_map_all) (use known r oa(2) in \<open>auto simp: write_vote_Some\<close>)
  then have "quorum_threshold ?n \<le> length (select (write_vote L J c ns m) (replies ?cs))"
    using quorum_threshold_least [OF assms(9)] distinct_card [OF oa(1)] oa(2) by (simp add: replies_map_Replied)
  then obtain cert where ok: "client_write Release L J c ns m ?cs = Ok cert"
    using client_write_release(1) [OF assms(2) _ assms(6), of J ns m ?cs] msg known oa(2)
    by (auto simp: replies_map_Replied)
  have asked: "received w (\<lambda>_. 0) msg ?cs" by (rule received_round [OF oa(1), of A]) (auto simp: oa(2) w_def)
  have rest: "\<forall>i. i \<notin> A - bad \<longrightarrow> w_nodes w i = w_nodes w0 i" "\<forall>i rid msg b. (i, rid, msg, b) \<in> w_replies w \<longrightarrow> rid = 0"
    using assms(4) by (auto simp: w_def booted_def)
  show ?thesis
    by (rule exI [of _ es], rule exI [of _ w], rule exI [of _ ?cs], rule exI [of _ cert])
      (intro conjI es ok asked rest)
qed

text \<open>Sample runs: the three validators of the sample client, all honest, serve its write.\<close>

definition sample_node :: "nat \<Rightarrow> ((nat \<times> (B256 \<times> toy_sig Record) list) InMemoryStore, nat) Validator" where
  "sample_node i = sample_validator\<lparr>v_secret_key := 10 + i\<rparr>"

definition sample_world :: "((nat \<times> (B256 \<times> toy_sig Record) list) InMemoryStore, nat) world" where
  "sample_world = \<lparr>w_nodes = sample_node, w_replies = {}\<rparr>"

abbreviation sample_execution ::
  "((nat \<times> (B256 \<times> toy_sig Record) list) InMemoryStore, nat) world \<Rightarrow> net_event list \<Rightarrow>
     ((nat \<times> (B256 \<times> toy_sig Record) list) InMemoryStore, nat) world \<Rightarrow> bool" where
  "sample_execution \<equiv> execution toy_lib toy_json (in_memory toy_lib queue_fifo) {}"

lemma sample_booted: "booted ((+) 10) sample_world"
proof -
  have "new_in_memory (\<lambda>_. Inr (any_addr, 12450)) (\<lambda>_. Inr (any_addr, 9)) (10 + i) 12450 =
      (Ok (sample_node i) :: (unit, _) res)" for i
    by (simp add: new_in_memory_def Validator_new_def sample_node_def sample_validator_def)
  then show ?thesis unfolding booted_def sample_world_def by auto
qed

lemma sample_msg: "request_to_vec toy_json (Write [7] (Message [1])) = Some sample_message"
  using codecD [OF json_faithfulD(1) [OF toy_json_faithful], of "Write [7] (Message [1])"] by auto

lemma sample_run:
  "\<exists>es w cs cert. round_of 0 sample_message 5000000 es \<and> sample_execution sample_world es w \<and>
    received w (\<lambda>_. 0) sample_message cs \<and>
    client_write Release toy_lib toy_json sample_client [7] (Message [1]) cs = Ok cert \<and>
    (\<forall>i rid msg b. (i, rid, msg, b) \<in> w_replies w \<longrightarrow> rid = 0)"
proof -
  have "\<forall>i<validator_count sample_client. validators sample_client i = Some (sk_to_pk toy_lib (10 + i))"
    by (simp add: sample_known toy_lib_def)
  from write_run [OF toy_bls_correct toy_agg_total toy_json_faithful sample_booted _ _ this _ _ sample_msg,
      of 5000000 "{0, 1}" queue_fifo "{}"]
  show ?thesis by (auto simp: ts_now_def has_reached_quorum_def)
qed

lemma sample_few:
  assumes "round_of 0 sample_message clock es"
  shows "card (asked_digests toy_lib toy_json i ns es) < 4096"
proof -
  have "card (asked_digests toy_lib toy_json i ns es) \<le> card {Message_digest toy_lib (Message [1]) ns}"
    by (rule card_mono [OF _ round_asked [OF sample_request assms]]) simp
  then show ?thesis by simp
qed

section \<open>Certificates in a run\<close>

lemma votes_index:
  assumes "dense c" "\<forall>(i, r)\<in>set votes. \<exists>pk. validators c i = Some pk"
  shows "fst ` set votes \<subseteq> {..<validator_count c}"
  using assms unfolding dense_def by (force simp: dom_def)

text \<open>The honest part of the quorum behind a certificate of \<^verbatim>\<open>write\<close> was asked to write the message.\<close>

lemma write_quorum:
  assumes "json_faithful J" "booted sk w0" "execution L J D bad w0 es w"
    and "client_write p L J c ns m cs = Ok cert" "request_to_vec J (Write ns m) = Some msg"
    and "received w rid msg cs" "dense c"
  shows "\<exists>Q\<subseteq>{..<validator_count c}. has_reached_quorum (validator_count c) (card Q) \<and>
    (\<forall>i\<in>Q - bad. (ns, m) \<in> set (asked_of J i es))"
proof -
  from write_certificate [OF assms(4) receivedD(1) [OF assms(6)]] obtain votes where
    votes: "distinct (map fst votes)" "has_reached_quorum (validator_count c) (length votes)"
    and each: "\<forall>(i, r)\<in>set votes. r_message r = m \<and>
       (\<exists>bs. (i, Replied bs) \<in> set cs \<and> record_from_slice J bs = Some r) \<and>
       (\<exists>pk. validators c i = Some pk \<and> verify_signature L (r_signature r) pk (Record_digest L r ns))" by blast
  then have votes': "\<forall>(i, r)\<in>set votes. \<exists>bs. (i, Replied bs) \<in> set cs"
    "\<forall>(i, r)\<in>set votes. \<exists>pk. validators c i = Some pk" by auto
  have "w_replies w0 = {}" using assms(2) by (simp add: booted_def)
  then have "\<forall>i\<in>fst ` set votes - bad. (ns, m) \<in> set (asked_of J i es)"
    using votes'(1) receivedD(2) [OF assms(6)] honest_write_reply(1) [OF assms(1,3,5)] by fastforce
  moreover have "card (fst ` set votes) = length votes" using distinct_card [OF votes(1)] by simp
  ultimately show ?thesis using votes(2) votes_index [OF assms(7) votes'(2)]
    by (intro exI [of _ "fst ` set votes"]) simp
qed

lemma sample_answer:
  assumes "round_of 0 sample_message 5000000 es" "sample_execution sample_world es w"
    and "([7], Message [1]) \<in> set (asked_of toy_json i es)" "i \<in> {..<3}"
  shows "\<exists>b r. handle_request toy_lib toy_json (in_memory toy_lib queue_fifo) 0 (w_nodes w i)
      (ReadMessage [7] (Message_digest toy_lib (Message [1]) [7])) = Some (w_nodes w i, Some b, None) \<and>
    available_vote toy_lib toy_json sample_client [7] (Message_digest toy_lib (Message [1]) [7]) i b = Some r \<and>
    unavailable_vote toy_lib toy_json sample_client i b = None"
proof -
  let ?D = "in_memory toy_lib queue_fifo" and ?k = "Message_digest toy_lib (Message [1]) [7]"
  have "?k \<in> asked_digests toy_lib toy_json i [7] es" using assms(3) by (force simp: asked_digests_def)
  from honest_available [OF toy_bls_correct queue_fifo_laws sample_booted assms(2) this sample_few [OF assms(1)], of 0]
  obtain r where r: "validator_read_message toy_lib ?D 0 (w_nodes w i) [7] ?k = Some (Available r)"
    "Message_digest toy_lib (r_message r) [7] = ?k" "authentic toy_lib (sk_to_pk toy_lib (10 + i)) [7] r" by blast
  obtain b where b: "message_response_to_vec toy_json (Available r) = Some b"
    "message_response_from_slice toy_json b = Some (Available r)"
    using codecD [OF json_faithfulD(4) [OF toy_json_faithful], of "Available r"] by blast
  have "validators sample_client i = Some (sk_to_pk toy_lib (10 + i))"
    using sample_known [of i] assms(4) by (auto simp: toy_lib_def)
  with r(2,3) b(2) have "available_vote toy_lib toy_json sample_client [7] ?k i b = Some r"
    by (simp add: available_vote_Some authentic_def)
  with r(1) b(1) vote_exclusive show ?thesis by fastforce
qed

text \<open>The sample run continued by a query that the quorum of the write answers.\<close>

lemma sample_read_run:
  "\<exists>es w cs cert fs w' msg' cs' cert'. round_of 0 sample_message 5000000 es \<and> sample_execution sample_world es w \<and>
    received w (\<lambda>_. 0) sample_message cs \<and>
    client_write Release toy_lib toy_json sample_client [7] (Message [1]) cs = Ok cert \<and>
    request_to_vec toy_json (ReadMessage [7] (Message_digest toy_lib (Message [1]) [7])) = Some msg' \<and>
    sample_execution w fs w' \<and> round_of 1 msg' 0 fs \<and>
    received w' (\<lambda>_. 1) msg' cs' \<and> (\<forall>i b. (i, 1, msg', b) \<notin> w_replies w) \<and>
    client_read_message Release toy_lib toy_json sample_client [7] (Message_digest toy_lib (Message [1]) [7]) cs' =
      Ok (CertAvailable cert')"
proof -
  let ?D = "in_memory toy_lib queue_fifo" and ?k = "Message_digest toy_lib (Message [1]) [7]"
  from sample_run obtain es w cs cert where
    run: "round_of 0 sample_message 5000000 es" "sample_execution sample_world es w"
    "received w (\<lambda>_. 0) sample_message cs"
    "client_write Release toy_lib toy_json sample_client [7] (Message [1]) cs = Ok cert"
    and zero: "\<forall>i rid msg b. (i, rid, msg, b) \<in> w_replies w \<longrightarrow> rid = 0" by (elim exE conjE)
  obtain msg' where msg': "request_to_vec toy_json (ReadMessage [7] ?k) = Some msg'" using toy_request by blast
  from write_quorum [OF toy_json_faithful sample_booted run(2,4) sample_msg run(3) sample_client_dense] obtain Q where
    Q: "Q \<subseteq> {..<3}" "has_reached_quorum 3 (card Q)" "\<forall>i\<in>Q. ([7], Message [1]) \<in> set (asked_of toy_json i es)"
    unfolding sample_client_count Diff_empty by blast
  have "\<forall>i\<in>Q. \<exists>b r. handle_request toy_lib toy_json ?D 0 (w_nodes w i) (ReadMessage [7] ?k) =
      Some (w_nodes w i, Some b, None) \<and>
      available_vote toy_lib toy_json sample_client [7] ?k i b = Some r \<and>
      unavailable_vote toy_lib toy_json sample_client i b = None"
    using sample_answer [OF run(1,2)] Q(1,3) by blast
  then obtain b r where br: "\<forall>i\<in>Q. handle_request toy_lib toy_json ?D 0 (w_nodes w i) (ReadMessage [7] ?k) =
      Some (w_nodes w i, Some (b i), None)"
    and votes: "\<forall>i\<in>Q. available_vote toy_lib toy_json sample_client [7] ?k i (b i) = Some (r i) \<and>
      unavailable_vote toy_lib toy_json sample_client i (b i) = None"
    unfolding bchoice_iff by blast
  have fin: "finite Q" using Q(1) finite_subset by blast
  from mixed_round [OF json_decode [OF toy_json_faithful msg'] fin br, where bad = "{}" and rid = 1] obtain fs w' where
    fs: "round_of 1 msg' 0 fs" "sample_execution w fs w'" "(\<lambda>i. (i, 1, msg', b i)) ` Q \<subseteq> w_replies w'" by fastforce
  obtain oq where oq: "distinct oq" "set oq = Q" using finite_distinct_list [OF fin] by blast
  have heard: "received w' (\<lambda>_. 1) msg' (map (\<lambda>i. (i, Replied (b i))) oq)"
    by (rule received_round [OF oq(1) _ fs(3)]) (simp add: oq(2))
  have present: "\<forall>i\<in>set oq. validators sample_client i \<noteq> None \<and> i < validator_count sample_client"
    using Q(1) sample_known oq(2) by auto
  have quorum: "has_reached_quorum (validator_count sample_client) (length oq)"
    using Q(2) distinct_card [OF oq(1)] oq(2) by simp
  have req: "request_to_vec toy_json (ReadMessage [7] ?k) \<noteq> None" "validator_count sample_client \<noteq> 0"
    using msg' by simp_all
  from read_message_unanimous(1) [OF toy_agg_total req oq(1) present quorum votes [folded oq(2)]] obtain cert' where
    ok: "client_read_message Release toy_lib toy_json sample_client [7] ?k
      (map (\<lambda>i. (i, Replied (b i))) oq) = Ok (CertAvailable cert')" by blast
  have new: "\<forall>i b. (i, 1, msg', b) \<notin> w_replies w" using zero by fastforce
  show ?thesis
    by (rule exI [of _ es], rule exI [of _ w], rule exI [of _ cs], rule exI [of _ cert], rule exI [of _ fs],
        rule exI [of _ w'], rule exI [of _ msg'], rule exI [of _ "map (\<lambda>i. (i, Replied (b i))) oq"],
        rule exI [of _ cert'])
      (intro conjI run fs(1,2) msg' heard new ok)
qed

text \<open>
  C3: a certified write is durable: after any continuation of the run, the honest validators of
  its quorum answer a query for the message with a record of it that verifies under their key, as
  long as fewer than 4096 different messages were written to the namespace.
\<close>

theorem certified_write_durable:
  assumes "bls_correct L" "fifo_laws F" "json_faithful J" "booted sk w0"
    and "execution L J (in_memory L F) bad w0 es w"
    and "client_write p L J c ns m cs = Ok cert" "request_to_vec J (Write ns m) = Some msg"
    and "received w rid msg cs" "dense c" "execution L J (in_memory L F) bad w fs w'"
    and "\<forall>i. i \<notin> bad \<longrightarrow> card (asked_digests L J i ns (es @ fs)) < 4096"
  shows "\<exists>Q\<subseteq>{..<validator_count c}. has_reached_quorum (validator_count c) (card Q) \<and>
    (\<forall>i\<in>Q - bad. \<forall>clock. \<exists>r.
       validator_read_message L (in_memory L F) clock (w_nodes w' i) ns (Message_digest L m ns) = Some (Available r) \<and>
       Message_digest L (r_message r) ns = Message_digest L m ns \<and> authentic L (sk_to_pk L (sk i)) ns r)"
proof -
  from write_quorum [OF assms(3-9)] obtain Q where
    Q: "Q \<subseteq> {..<validator_count c}" "has_reached_quorum (validator_count c) (card Q)"
    "\<forall>i\<in>Q - bad. (ns, m) \<in> set (asked_of J i es)" by blast
  have "Message_digest L m ns \<in> asked_digests L J i ns (es @ fs)" if "i \<in> Q - bad" for i
    using Q(3) that by (force simp: asked_digests_def)
  with honest_available [OF assms(1,2,4) execution_trans [OF assms(10,5)]] assms(11) have
    "\<forall>i\<in>Q - bad. \<forall>clock. \<exists>r.
       validator_read_message L (in_memory L F) clock (w_nodes w' i) ns (Message_digest L m ns) = Some (Available r) \<and>
       Message_digest L (r_message r) ns = Message_digest L m ns \<and> authentic L (sk_to_pk L (sk i)) ns r"
    by blast
  with Q(1,2) show ?thesis by blast
qed

theorem certified_write_durable_witness:
  "\<exists>es w i r. sample_execution sample_world es w \<and>
    validator_read_message toy_lib (in_memory toy_lib queue_fifo) 0 (w_nodes w i) [7]
      (Message_digest toy_lib (Message [1]) [7]) = Some (Available r) \<and>
    authentic toy_lib (sk_to_pk toy_lib (10 + i)) [7] r"
proof -
  from sample_run obtain es w cs cert where
    run: "round_of 0 sample_message 5000000 es" "sample_execution sample_world es w"
    "received w (\<lambda>_. 0) sample_message cs"
    "client_write Release toy_lib toy_json sample_client [7] (Message [1]) cs = Ok cert" by blast
  have few: "\<forall>i. i \<notin> {} \<longrightarrow> card (asked_digests toy_lib toy_json i [7] (es @ [])) < 4096"
    using sample_few [OF run(1)] by simp
  from certified_write_durable [OF toy_bls_correct queue_fifo_laws toy_json_faithful sample_booted run(2,4)
      sample_msg run(3) sample_client_dense execution.start few] obtain Q where
    Q: "has_reached_quorum 3 (card Q)" "\<forall>i\<in>Q. \<forall>clock. \<exists>r.
       validator_read_message toy_lib (in_memory toy_lib queue_fifo) clock (w_nodes w i) [7]
         (Message_digest toy_lib (Message [1]) [7]) = Some (Available r) \<and>
       Message_digest toy_lib (r_message r) [7] = Message_digest toy_lib (Message [1]) [7] \<and>
       authentic toy_lib (sk_to_pk toy_lib (10 + i)) [7] r" unfolding sample_client_count Diff_empty by blast
  from Q(1) have "Q \<noteq> {}" by (auto simp: has_reached_quorum_def)
  with Q(2) run(2) show ?thesis by blast
qed



text \<open>
  C9: nothing is made up: when \<^verbatim>\<open>read_message\<close> certifies a message as available, a quorum less the
  faulty validators were asked to write a message with this digest to the namespace.
\<close>

theorem available_was_written:
  assumes "fifo_laws F" "json_faithful J" "booted sk w0" "execution L J (in_memory L F) bad w0 es w"
    and "client_read_message p L J c ns k cs = Ok (CertAvailable cert)"
    and "request_to_vec J (ReadMessage ns k) = Some msg" "received w rid msg cs" "dense c"
  shows "quorum_threshold (validator_count c) \<le>
    card {i. i < validator_count c \<and> i \<notin> bad \<and> k \<in> asked_digests L J i ns es} +
      card (bad \<inter> {..<validator_count c})"
proof -
  let ?n = "validator_count c" and ?H = "{i. i < validator_count c \<and> i \<notin> bad \<and> k \<in> asked_digests L J i ns es}"
  from available_certificate [OF assms(5) receivedD(1) [OF assms(7)]] obtain votes where
    votes: "distinct (map fst votes)" "has_reached_quorum ?n (length votes)"
    "\<forall>(i, r)\<in>set votes. \<exists>bs. (i, Replied bs) \<in> set cs \<and> message_response_from_slice J bs = Some (Available r)"
    "\<forall>(i, r)\<in>set votes. \<exists>pk. validators c i = Some pk" by fastforce
  note index = votes_index [OF assms(8) votes(4)]
  have none: "w_replies w0 = {}" using assms(3) by (simp add: booted_def)
  have "k \<in> asked_digests L J i ns es" if "(i, r) \<in> set votes" "i \<notin> bad" for i r
  proof -
    from that(1) votes(3) obtain bs where
      bs: "(i, Replied bs) \<in> set cs" "message_response_from_slice J bs = Some (Available r)" by fastforce
    from honest_read_reply(1) [OF assms(1-3) execution.start assms(4,6) receivedD(2) [OF assms(7) bs(1)] _ that(2) bs(2)]
    show ?thesis by (simp add: none)
  qed
  then have "fst ` set votes \<subseteq> ?H \<union> (bad \<inter> {..<?n})" using index by fastforce
  then have "card (fst ` set votes) \<le> card (?H \<union> (bad \<inter> {..<?n}))" by (intro card_mono) auto
  also have "\<dots> \<le> card ?H + card (bad \<inter> {..<?n})" by (rule card_Un_le)
  finally show ?thesis
    using quorum_threshold_least [OF votes(2)] distinct_card [OF votes(1)] by simp
qed

theorem available_was_written_witness:
  "\<exists>es w. sample_execution sample_world es w \<and>
    2 \<le> card {i. i < 3 \<and> Message_digest toy_lib (Message [1]) [7] \<in> asked_digests toy_lib toy_json i [7] es}"
proof -
  from sample_read_run obtain es w cs cert fs w' msg' cs' cert' where
    run: "round_of 0 sample_message 5000000 es" "sample_execution sample_world es w"
    "received w (\<lambda>_. 0) sample_message cs"
    "client_write Release toy_lib toy_json sample_client [7] (Message [1]) cs = Ok cert"
    and rd: "request_to_vec toy_json (ReadMessage [7] (Message_digest toy_lib (Message [1]) [7])) = Some msg'"
    "sample_execution w fs w'" "round_of 1 msg' 0 fs" "received w' (\<lambda>_. 1) msg' cs'"
    and new: "\<forall>i b. (i, 1, msg', b) \<notin> w_replies w"
    and ok: "client_read_message Release toy_lib toy_json sample_client [7] (Message_digest toy_lib (Message [1]) [7]) cs' =
      Ok (CertAvailable cert')" by (elim exE conjE)
  note ex = execution_trans [OF rd(2) run(2)]
  from available_was_written [OF queue_fifo_laws toy_json_faithful sample_booted ex ok rd(1,4) sample_client_dense] ex
  show ?thesis by (auto simp: quorum_threshold_def)
qed

text \<open>Votes that only faulty validators can have given are few.\<close>

lemma faulty_votes:
  assumes "distinct (map fst votes)" "\<forall>(i, x)\<in>set votes. P (i, x) \<longrightarrow> i \<in> B" "finite B"
  shows "length (filter P votes) \<le> card B"
proof -
  have "distinct (map fst (filter P votes))" using assms(1) by (rule distinct_map_filter)
  then have "length (filter P votes) = card (fst ` set (filter P votes))" using distinct_card by fastforce
  also have "\<dots> \<le> card B" using assms(2,3) by (intro card_mono) auto
  finally show ?thesis .
qed

text \<open>
  When faulty validators and missing votes are fewer than half, the median of a quorum lies between
  the bounds of the honest votes.
\<close>

lemma honest_median:
  assumes "distinct (map fst votes)" "fst ` set votes \<subseteq> {..<n}" "has_reached_quorum n (length votes)" "n \<noteq> 0"
    and honest: "\<And>i t. (i, t) \<in> set votes \<Longrightarrow> i \<notin> bad \<Longrightarrow> lo \<le> t \<and> t \<le> hi" and "ts_nat hi < 2 ^ 127"
    and few: "n - quorum_threshold n + card (bad \<inter> {..<n}) \<le> (n - 1) div 2"
  shows "\<exists>t. median_timestamp p (vote_array n votes) = Some t \<and> lo \<le> t \<and> t \<le> hi"
proof (rule median_vote_array [OF assms(1,2,4) _ _ assms(6)])
  have faulty: "length (filter P votes) \<le> card (bad \<inter> {..<n})"
    if "\<And>i t. lo \<le> t \<Longrightarrow> t \<le> hi \<Longrightarrow> \<not> P (i, t)" for P
  proof (rule faulty_votes [OF assms(1)])
    show "\<forall>(i, t)\<in>set votes. P (i, t) \<longrightarrow> i \<in> bad \<inter> {..<n}"
    proof (clarify)
      fix i t assume v: "(i, t) \<in> set votes" and P: "P (i, t)"
      have "i \<in> bad" using honest [OF v] that [of t i] P by blast
      moreover have "i < n" using assms(2) v by force
      ultimately show "i \<in> bad \<inter> {..<n}" by simp
    qed
  qed simp
  have low: "length (filter (\<lambda>v. snd v < lo) votes) \<le> card (bad \<inter> {..<n})" by (rule faulty) auto
  have high: "length (filter (\<lambda>v. hi < snd v) votes) \<le> card (bad \<inter> {..<n})" by (rule faulty) auto
  show "n - length votes + length (filter (\<lambda>v. snd v < lo) votes) \<le> (n - 1) div 2"
    using low quorum_threshold_least [OF assms(3)] few by linarith
  show "length (filter (\<lambda>v. hi < snd v) votes) + n div 2 < n" using high assms(4) few by linarith
qed

lemma honest_certificate:
  assumes "distinct (map fst votes)" "has_reached_quorum n (length votes)"
    and "cr_timestamps cert = sort (vote_array n (stamps votes))" "fst ` set votes \<subseteq> {..<n}"
    and honest: "\<And>i r. (i, r) \<in> set votes \<Longrightarrow> i \<notin> bad \<Longrightarrow> lo \<le> r_timestamp r \<and> r_timestamp r \<le> hi"
    and "n \<noteq> 0" "ts_nat hi < 2 ^ 127" "n - quorum_threshold n + card (bad \<inter> {..<n}) \<le> (n - 1) div 2"
  shows "\<exists>t. certified_timestamp p cert = Some (t, cert) \<and> lo \<le> t \<and> t \<le> hi"
proof -
  have "\<exists>t. median_timestamp p (vote_array n (stamps votes)) = Some t \<and> lo \<le> t \<and> t \<le> hi"
  proof (rule honest_median [OF _ _ _ assms(6) _ assms(7,8)])
    show "lo \<le> t \<and> t \<le> hi" if "(i, t) \<in> set (stamps votes)" "i \<notin> bad" for i t
      using that honest by (auto simp: stamps_def)
  qed (use assms(1,2,4) in simp_all)
  then show ?thesis by (auto simp: certified_timestamp_def assms(3) sorted_sort_id)
qed

text \<open>
  C10: certified time: when the honest clocks ran between \<open>lo\<close> and \<open>hi\<close> and the faulty validators
  with those missing from a quorum are fewer than half of all, every certificate of \<^verbatim>\<open>write\<close> has a
  certified timestamp between \<open>lo\<close> and \<open>hi\<close>, whatever the faulty ones claim.
\<close>

theorem certified_time_bounds:
  assumes "json_faithful J" "booted sk w0" "execution L J D bad w0 es w"
    and "client_write p L J c ns m cs = Ok cert" "request_to_vec J (Write ns m) = Some msg"
    and "received w rid msg cs" "dense c" "validator_count c \<noteq> 0"
    and "\<forall>i rid msg clock. Deliver i rid msg clock \<in> set es \<longrightarrow> (\<exists>t. ts_now clock = Some t \<and> lo \<le> t \<and> t \<le> hi)"
    and "ts_nat hi < 2 ^ 127"
    and "validator_count c - quorum_threshold (validator_count c) + card (bad \<inter> {..<validator_count c}) \<le>
      (validator_count c - 1) div 2"
  shows "\<exists>t. certified_timestamp p cert = Some (t, cert) \<and> lo \<le> t \<and> t \<le> hi"
proof -
  let ?n = "validator_count c"
  from write_certificate [OF assms(4) receivedD(1) [OF assms(6)]] obtain votes where
    votes: "distinct (map fst votes)" "has_reached_quorum ?n (length votes)"
    "cr_timestamps cert = sort (vote_array ?n (stamps votes))"
    and each: "\<forall>(i, r)\<in>set votes. r_message r = m \<and>
       (\<exists>bs. (i, Replied bs) \<in> set cs \<and> record_from_slice J bs = Some r) \<and>
       (\<exists>pk. validators c i = Some pk \<and> verify_signature L (r_signature r) pk (Record_digest L r ns))" by blast
  have index: "fst ` set votes \<subseteq> {..<?n}" by (rule votes_index [OF assms(7)]) (use each in auto)
  have honest: "lo \<le> r_timestamp r \<and> r_timestamp r \<le> hi" if v: "(i, r) \<in> set votes" "i \<notin> bad" for i r
  proof -
    from each v(1) obtain bs where bs: "(i, Replied bs) \<in> set cs" "record_from_slice J bs = Some r" by blast
    have "(i, rid i, msg, bs) \<notin> w_replies w0" using assms(2) by (simp add: booted_def)
    from honest_write_reply(2) [OF assms(1,3,5) receivedD(2) [OF assms(6) bs(1)] this v(2)] assms(9) bs(2)
    show ?thesis by force
  qed
  show ?thesis by (rule honest_certificate [OF votes index honest assms(8,10,11)])
qed

theorem certified_time_bounds_witness:
  "\<exists>cs cert t. client_write Release toy_lib toy_json sample_client [7] (Message [1]) cs = Ok cert \<and>
    certified_timestamp Release cert = Some (t, cert) \<and> Timestamp 5 \<le> t \<and> t \<le> Timestamp 6"
proof -
  from sample_run obtain es w cs cert where
    run: "round_of 0 sample_message 5000000 es" "sample_execution sample_world es w"
    "received w (\<lambda>_. 0) sample_message cs"
    "client_write Release toy_lib toy_json sample_client [7] (Message [1]) cs = Ok cert" by blast
  have "clock = 5000000" if "Deliver i rid msg clock \<in> set es" for i rid msg clock
    using run(1) that by (fastforce simp: round_of_def)
  moreover have "ts_now 5000000 = Some (Timestamp 5)" by (simp add: ts_now_def)
  ultimately have clocks: "\<forall>i rid msg clock. Deliver i rid msg clock \<in> set es \<longrightarrow>
      (\<exists>t. ts_now clock = Some t \<and> Timestamp 5 \<le> t \<and> t \<le> Timestamp 6)" by auto
  from certified_time_bounds [OF toy_json_faithful sample_booted run(2,4) sample_msg run(3) sample_client_dense _ clocks]
  have "\<exists>t. certified_timestamp Release cert = Some (t, cert) \<and> Timestamp 5 \<le> t \<and> t \<le> Timestamp 6"
    by (simp add: ts_nat_def quorum_threshold_def)
  with run(4) show ?thesis by blast
qed

text \<open>
  C11: the time of a message that is read back: when the honest validators were asked to write it at
  times between \<open>lo\<close> and \<open>hi\<close>, and the faulty ones with those missing from a quorum are fewer than
  half of all, every certificate that it is available has a time between \<open>lo\<close> and \<open>hi\<close>, however much
  later it is read and whatever the faulty ones claim.
\<close>

theorem read_time_bounds:
  assumes "fifo_laws F" "json_faithful J" "booted sk w0" "execution L J (in_memory L F) bad w0 es w"
    and "client_read_message p L J c ns k cs = Ok (CertAvailable cert)"
    and "request_to_vec J (ReadMessage ns k) = Some msg" "received w rid msg cs" "dense c" "validator_count c \<noteq> 0"
    and "\<forall>i rid msg clock m. Deliver i rid msg clock \<in> set es \<longrightarrow> request_from_slice J msg = Some (Write ns m) \<longrightarrow>
      Message_digest L m ns = k \<longrightarrow> (\<exists>t. ts_now clock = Some t \<and> lo \<le> t \<and> t \<le> hi)"
    and "ts_nat hi < 2 ^ 127"
    and "validator_count c - quorum_threshold (validator_count c) + card (bad \<inter> {..<validator_count c}) \<le>
      (validator_count c - 1) div 2"
  shows "\<exists>t. certified_timestamp p cert = Some (t, cert) \<and> lo \<le> t \<and> t \<le> hi"
proof -
  let ?n = "validator_count c"
  from available_certificate [OF assms(5) receivedD(1) [OF assms(7)]] obtain votes where
    votes: "distinct (map fst votes)" "has_reached_quorum ?n (length votes)"
    "cr_timestamps cert = sort (vote_array ?n (stamps votes))"
    and each: "\<forall>(i, r)\<in>set votes. \<exists>bs. (i, Replied bs) \<in> set cs \<and> message_response_from_slice J bs = Some (Available r)"
      "\<forall>(i, r)\<in>set votes. \<exists>pk. validators c i = Some pk" by fastforce
  note index = votes_index [OF assms(8) each(2)]
  have honest: "lo \<le> r_timestamp r \<and> r_timestamp r \<le> hi" if v: "(i, r) \<in> set votes" "i \<notin> bad" for i r
  proof -
    from each(1) v(1) obtain bs where bs: "(i, Replied bs) \<in> set cs" "message_response_from_slice J bs = Some (Available r)" by blast
    note t = honest_read_time [OF assms(1-4,6) receivedD(2) [OF assms(7) bs(1)] v(2) bs(2)]
    from t(2) obtain rid' msg' clock where "Deliver i rid' msg' clock \<in> set es"
      "request_from_slice J msg' = Some (Write ns (r_message r))" "ts_now clock = Some (r_timestamp r)" by blast
    with assms(10) t(1) show ?thesis by fastforce
  qed
  show ?thesis by (rule honest_certificate [OF votes index honest assms(9,11,12)])
qed

theorem read_time_bounds_witness:
  "\<exists>cs cert t. client_read_message Release toy_lib toy_json sample_client [7] (Message_digest toy_lib (Message [1]) [7]) cs =
      Ok (CertAvailable cert) \<and> certified_timestamp Release cert = Some (t, cert) \<and> Timestamp 5 \<le> t \<and> t \<le> Timestamp 6"
proof -
  from sample_read_run obtain es w cs cert fs w' msg' cs' cert' where
    run: "round_of 0 sample_message 5000000 es" "sample_execution sample_world es w"
    and rd: "request_to_vec toy_json (ReadMessage [7] (Message_digest toy_lib (Message [1]) [7])) = Some msg'"
    "sample_execution w fs w'" "round_of 1 msg' 0 fs" "received w' (\<lambda>_. 1) msg' cs'"
    and ok: "client_read_message Release toy_lib toy_json sample_client [7] (Message_digest toy_lib (Message [1]) [7]) cs' =
      Ok (CertAvailable cert')" by (elim exE conjE)
  have query: "request_from_slice toy_json msg' = Some (ReadMessage [7] (Message_digest toy_lib (Message [1]) [7]))"
    by (rule json_decode [OF toy_json_faithful rd(1)])
  have clocks: "\<forall>i rid msg clock m. Deliver i rid msg clock \<in> set (es @ fs) \<longrightarrow> request_from_slice toy_json msg = Some (Write [7] m) \<longrightarrow>
      Message_digest toy_lib m [7] = Message_digest toy_lib (Message [1]) [7] \<longrightarrow>
      (\<exists>t. ts_now clock = Some t \<and> Timestamp 5 \<le> t \<and> t \<le> Timestamp 6)"
  proof (intro allI impI)
    fix i rid msg clock m
    assume e: "Deliver i rid msg clock \<in> set (es @ fs)" and w: "request_from_slice toy_json msg = Some (Write [7] m)"
    have "Deliver i rid msg clock \<notin> set fs" using rd(3) query w by (fastforce simp: round_of_def)
    then have "clock = 5000000" using e run(1) by (fastforce simp: round_of_def)
    then show "\<exists>t. ts_now clock = Some t \<and> Timestamp 5 \<le> t \<and> t \<le> Timestamp 6" by (simp add: ts_now_def)
  qed
  from read_time_bounds [OF queue_fifo_laws toy_json_faithful sample_booted execution_trans [OF rd(2) run(2)] ok rd(1,4)
      sample_client_dense _ clocks]
  have "\<exists>t. certified_timestamp Release cert' = Some (t, cert') \<and> Timestamp 5 \<le> t \<and> t \<le> Timestamp 6"
    by (simp add: ts_nat_def quorum_threshold_def)
  with ok show ?thesis by blast
qed

section \<open>How many faulty validators are too many\<close>

text \<open>
  The bound of the agreement cannot be weakened: if two quorums meet in faulty validators
  only, there is a run in which one client obtains a certificate for a message and the same client, with
  a query sent afterwards, a certificate that it is unavailable. Every honest validator follows the
  program and the network loses messages only.
\<close>

theorem quorums_too_small:
  fixes L :: "('sk, 'pk, 'sig, 'agg) lib" and w0 :: "('m InMemoryStore, 'sk) world"
  assumes "bls_correct L" "agg_unchecked_total L" "json_faithful J" "booted sk w0" "ts_now clock \<noteq> None"
    and "dense c" "validator_count c \<noteq> 0" "\<forall>i<validator_count c. validators c i = Some (sk_to_pk L (sk i))"
    and "A \<subseteq> {..<validator_count c}" "B \<subseteq> {..<validator_count c}" "A \<inter> B \<subseteq> bad"
    and "has_reached_quorum (validator_count c) (card A)" "has_reached_quorum (validator_count c) (card B)"
  shows "\<exists>es w fs w' msg msg' cs cs' cert cert'.
    execution L J (in_memory L F) bad w0 es w \<and> request_to_vec J (Write ns m) = Some msg \<and>
    received w (\<lambda>_. 0) msg cs \<and> client_write Release L J c ns m cs = Ok cert \<and>
    execution L J (in_memory L F) bad w fs w' \<and>
    request_to_vec J (ReadMessage ns (Message_digest L m ns)) = Some msg' \<and> received w' (\<lambda>_. 1) msg' cs' \<and>
    (\<forall>i b. (i, 1, msg', b) \<notin> w_replies w) \<and>
    client_read_message Release L J c ns (Message_digest L m ns) cs' = Ok (CertUnavailable cert')"
proof -
  let ?D = "in_memory L F" and ?n = "validator_count c" and ?k = "Message_digest L m ns"
  have fin: "finite B" using assms(10) finite_subset by blast
  obtain msg where msg: "request_to_vec J (Write ns m) = Some msg"
    using codecD [OF json_faithfulD(1) [OF assms(3)], of "Write ns m"] by blast
  obtain msg' where msg': "request_to_vec J (ReadMessage ns ?k) = Some msg'"
    using codecD [OF json_faithfulD(1) [OF assms(3)], of "ReadMessage ns ?k"] by blast
  from write_run [OF assms(1-5,7,8,9,12) msg, of F bad] obtain es w cs cert where
    es: "execution L J ?D bad w0 es w" and asked: "received w (\<lambda>_. 0) msg cs"
    and ok: "client_write Release L J c ns m cs = Ok cert"
    and nodes: "\<forall>i. i \<notin> A - bad \<longrightarrow> w_nodes w i = w_nodes w0 i"
    and zero: "\<forall>i rid msg b. (i, rid, msg, b) \<in> w_replies w \<longrightarrow> rid = 0" by (elim exE conjE)
  have "\<forall>i. \<exists>b u. handle_request L J ?D clock (w_nodes w0 i) (ReadMessage ns ?k) = Some (w_nodes w0 i, Some b, None) \<and>
      message_response_from_slice J b = Some (Unavailable u) \<and>
      verify_signature L (um_signature u) (sk_to_pk L (sk i)) (UnavailableMessage_digest L u)"
    using booted_read [OF assms(1,3,4,5)] by blast
  then obtain b' u where rd: "\<forall>i. handle_request L J ?D clock (w_nodes w0 i) (ReadMessage ns ?k) = Some (w_nodes w0 i, Some (b' i), None)"
    and u: "\<forall>i. message_response_from_slice J (b' i) = Some (Unavailable (u i)) \<and>
      verify_signature L (um_signature (u i)) (sk_to_pk L (sk i)) (UnavailableMessage_digest L (u i))"
    unfolding choice_iff by blast
  have "\<forall>i\<in>B. handle_request L J ?D clock (w_nodes w i) (ReadMessage ns ?k) = Some (w_nodes w0 i, Some (b' i), None)"
    using rd nodes assms(11) by (metis DiffD1 DiffD2 IntI subsetD)
  from mixed_round [OF json_decode [OF assms(3) msg'] fin this, where bad = bad and rid = 1] obtain fs w' where
    fs: "execution L J ?D bad w fs w'" and "(\<lambda>i. (i, 1, msg', b' i)) ` B \<subseteq> w_replies w'" by fastforce
  moreover obtain ob where ob: "distinct ob" "set ob = B" using finite_distinct_list [OF fin] by blast
  ultimately have heard: "received w' (\<lambda>_. 1) msg' (map (\<lambda>i. (i, Replied (b' i))) ob)" by (intro received_round) auto
  have present: "\<forall>k\<in>set ob. validators c k \<noteq> None \<and> k < ?n"
    and votes: "\<forall>k\<in>set ob. unavailable_vote L J c k (b' k) = Some (u k) \<and> available_vote L J c ns ?k k (b' k) = None"
    using assms(8,10) u ob(2) by (auto simp: unavailable_vote_Some available_vote_def)
  have quorum: "has_reached_quorum ?n (length ob)" using assms(13) distinct_card [OF ob(1)] ob(2) by simp
  have "request_to_vec J (ReadMessage ns ?k) \<noteq> None" using msg' by simp
  from read_message_unanimous(2) [OF assms(2) this assms(7) ob(1) present quorum votes] obtain cert' where
    no: "client_read_message Release L J c ns ?k (map (\<lambda>i. (i, Replied (b' i))) ob) = Ok (CertUnavailable cert')" by blast
  have fresh: "\<forall>i b. (i, 1, msg', b) \<notin> w_replies w" using zero by fastforce
  show ?thesis
    by (rule exI [of _ es], rule exI [of _ w], rule exI [of _ fs], rule exI [of _ w'], rule exI [of _ msg],
        rule exI [of _ msg'], rule exI [of _ cs], rule exI [of _ "map (\<lambda>i. (i, Replied (b' i))) ob"],
        rule exI [of _ cert], rule exI [of _ cert'])
      (intro conjI es fs msg msg' ok no asked heard fresh)
qed

text \<open>Four validators, all honest: two quorums of two need not meet.\<close>

definition four_client :: "nat Client" where
  "four_client = \<lparr>validators = [0 \<mapsto> 10, 1 \<mapsto> 11, 2 \<mapsto> 12, 3 \<mapsto> 13], validator_sockets = Map.empty\<rparr>"

theorem quorums_too_small_witness:
  "\<exists>cs cs' cert cert'. client_write Release toy_lib toy_json four_client [7] (Message [1]) cs = Ok cert \<and>
    client_read_message Release toy_lib toy_json four_client [7] (Message_digest toy_lib (Message [1]) [7]) cs' =
      Ok (CertUnavailable cert')"
proof -
  have dom: "dom (validators four_client) = {..<4}" by (auto simp: four_client_def)
  then have count: "validator_count four_client = 4" by (simp add: validator_count_def)
  have dense: "dense four_client" using dom count by (simp add: dense_def)
  have keys: "\<forall>i<validator_count four_client. validators four_client i = Some (sk_to_pk toy_lib (10 + i))"
  proof (intro allI impI)
    fix i assume "i < validator_count four_client"
    then have "i = 0 \<or> i = 1 \<or> i = 2 \<or> i = 3" unfolding count by linarith
    then show "validators four_client i = Some (sk_to_pk toy_lib (10 + i))"
      by (auto simp: four_client_def toy_lib_def)
  qed
  have "{0, 1} \<subseteq> {..<validator_count four_client}" "{2, 3} \<subseteq> {..<validator_count four_client}"
    "{0, 1} \<inter> {2, 3 :: nat} \<subseteq> {}" "has_reached_quorum (validator_count four_client) (card {0, 1 :: nat})"
    "has_reached_quorum (validator_count four_client) (card {2, 3 :: nat})" "validator_count four_client \<noteq> 0"
    "ts_now 5000000 \<noteq> None"
    by (auto simp: count has_reached_quorum_def ts_now_def)
  note facts = this
  from quorums_too_small [OF toy_bls_correct toy_agg_total toy_json_faithful sample_booted facts(7) dense facts(6) keys
      facts(1-5), of queue_fifo "[7]" "Message [1]"]
  show ?thesis by (elim exE conjE) blast
qed

end
