(* ===== verification/PollOrder.thy ===== *)
theory PollOrder
  imports PollLoop "HOL-Library.Sublist"
begin

text \<open>
  The event loop of the validator on arbitrary schedules: what it publishes is in order a part of
  what the served writes offered, it returns once no requests come, and publishes nothing before.
\<close>

section \<open>Order of publication\<close>

definition published_as :: "(bytes \<Rightarrow> string) \<Rightarrow> pub_item list \<Rightarrow> (string \<times> bytes) list" where
  "published_as lossy items = map (\<lambda>(ns, b). (lossy ns, b)) items"

lemma published_as_simps [simp]:
  "published_as lossy [] = []" "published_as lossy (xs @ ys) = published_as lossy xs @ published_as lossy ys"
  "published_as lossy ((ns, b) # xs) = (lossy ns, b) # published_as lossy xs"
  by (simp_all add: published_as_def)

lemma subseq_published: "subseq xs ys \<Longrightarrow> subseq (published_as lossy xs) (published_as lossy ys)"
  unfolding published_as_def by (rule subseq_map)

lemma enqueue_keeps:
  assumes "mpsc_laws Q" "length (mpsc_contents Q q) \<le> mpsc_capacity Q q"
  shows "subseq (mpsc_contents Q (enqueue Q q pub)) (mpsc_contents Q q @ (case pub of None \<Rightarrow> [] | Some i \<Rightarrow> [i]))"
    and "length (mpsc_contents Q (enqueue Q q pub)) \<le> mpsc_capacity Q (enqueue Q q pub)"
  unfolding enqueue_contents [OF assms] by (rule prefix_imp_subseq [OF take_is_prefix]) simp

text \<open>Polling the queue either takes its first item or ends the loop.\<close>

lemma poll_recv_cases:
  assumes "mpsc_laws Q"
  obtains (item) ns b items q' where "\<not> spurious" "mpsc_contents Q q = (ns, b) # items"
      "mpsc_poll_recv Q q spurious = (Ready (Some (ns, b)), q')" "mpsc_contents Q q' = items"
      "mpsc_capacity Q q' = mpsc_capacity Q q"
    | (pending) q' where "spurious \<or> mpsc_contents Q q = []" "mpsc_poll_recv Q q spurious = (Pending, q')"
proof (cases spurious)
  case True
  then show thesis
    using pending [of "snd (mpsc_poll_recv Q q True)"] mpsc_recv(4) [OF assms, of q]
    by (metis prod.collapse)
next
  case False
  note recv = mpsc_recv(1-3) [OF assms, of q]
  obtain res q' where r: "mpsc_poll_recv Q q False = (res, q')" by (cases "mpsc_poll_recv Q q False")
  show thesis
  proof (cases "mpsc_contents Q q")
    case Nil
    with recv r False show thesis by (intro pending [of q']) auto
  next
    case (Cons x items)
    obtain ns b where "x = (ns, b)" by (cases x)
    with Cons recv r False show thesis by (intro item [of ns b items q']) auto
  qed
qed

lemma poll_loop_order:
  assumes Q: "mpsc_laws Q" and "poll_loop L J D Q lossy ticks v q out = PollPending v' out'"
    and "length (mpsc_contents Q q) \<le> mpsc_capacity Q q"
  shows "\<exists>used rest resps pubs. ticks = used @ rest \<and> serve L J D used v = Some (v', resps, pubs) \<and>
    responses out' = responses out @ resps \<and>
    subseq (publications out') (publications out @ published_as lossy (mpsc_contents Q q @ pubs))"
  using assms(2,3)
proof (induction ticks arbitrary: v q out)
  case Nil
  then show ?case by simp
next
  case (Cons t ticks)
  show ?case
  proof (cases t)
    case (Idle spurious)
    show ?thesis
    proof (cases rule: poll_recv_cases [OF Q, of spurious q, case_names item pending])
      case (item ns b items q')
      with Cons.prems Idle have "poll_loop L J D Q lossy ticks v q' (out @ [Publish (lossy ns) b]) = PollPending v' out'"
        "length (mpsc_contents Q q') \<le> mpsc_capacity Q q'" by simp_all
      from Cons.IH [OF this] obtain used rest resps pubs where
        "ticks = used @ rest" "serve L J D used v = Some (v', resps, pubs)" "responses out' = responses out @ resps"
        "subseq (publications out') (publications out @ published_as lossy (mpsc_contents Q q @ pubs))"
        by (auto simp: item)
      then show ?thesis by - (rule exI [of _ "t # used"], auto simp: Idle)
    next
      case (pending q')
      with Cons.prems Idle have "v' = v" "out' = out" by simp_all
      then show ?thesis by - (rule exI [of _ "[]"], simp add: prefix_imp_subseq)
    qed
  next
    case (Incoming msg clock)
    show ?thesis
    proof (cases "request_from_slice J msg")
      case None
      with Cons.prems Incoming Cons.IH [of v q out] obtain used rest resps pubs where
        "ticks = used @ rest" "serve L J D used v = Some (v', resps, pubs)" "responses out' = responses out @ resps"
        "subseq (publications out') (publications out @ published_as lossy (mpsc_contents Q q @ pubs))" by auto
      then show ?thesis by - (rule exI [of _ "t # used"], auto simp: Incoming None)
    next
      case (Some req)
      with Cons.prems Incoming obtain w resp pub where
        h: "handle_request L J D clock v req = Some (w, resp, pub)"
        and run: "poll_loop L J D Q lossy ticks w (enqueue Q q pub) (out @ respond_effects resp) = PollPending v' out'"
        by (auto split: option.splits)
      let ?pub = "case pub of None \<Rightarrow> [] | Some i \<Rightarrow> [i]"
      from Cons.IH [OF run enqueue_keeps(2) [OF Q Cons.prems(2)]] obtain used rest resps pubs where
        ih: "ticks = used @ rest" "serve L J D used w = Some (v', resps, pubs)"
        "responses out' = responses (out @ respond_effects resp) @ resps"
        "subseq (publications out') (publications out @ published_as lossy (mpsc_contents Q (enqueue Q q pub) @ pubs))"
        by auto
      have "subseq (published_as lossy (mpsc_contents Q (enqueue Q q pub) @ pubs))
          (published_as lossy ((mpsc_contents Q q @ ?pub) @ pubs))"
        by (intro subseq_published list_emb_append_mono enqueue_keeps(1) [OF Q Cons.prems(2)]) simp
      then have "subseq (publications out') (publications out @ published_as lossy ((mpsc_contents Q q @ ?pub) @ pubs))"
        using ih(4) by (meson list_emb_append_mono subseq_order.order_refl subseq_order.order_trans)
      with ih(1-3) show ?thesis
        by - (rule exI [of _ "t # used"], cases pub, auto simp: Incoming Some h split: option.split)
    qed
  qed
qed

section \<open>Termination\<close>

text \<open>
  Whatever has come before, 513 idle iterations in a row are enough for the loop to return,
  because the queue holds 512 items at most.
\<close>

lemma poll_loop_returns:
  assumes Q: "mpsc_laws Q" and "clocks_ok ticks" "v_pub_addr v \<noteq> None"
    and "length (mpsc_contents Q q) \<le> mpsc_capacity Q q" "mpsc_capacity Q q < k"
  shows "\<exists>v' out'. poll_loop L J D Q lossy (ticks @ replicate k (Idle False)) v q out = PollPending v' out'"
  using assms(2-)
proof (induction ticks arbitrary: v q out)
  case Nil
  then have "length (mpsc_contents Q q) < k" by simp
  from poll_loop_drain [OF Q this, of L J D lossy "[]"] show ?case by simp
next
  case (Cons t ticks)
  show ?case
  proof (cases t)
    case (Idle spurious)
    show ?thesis
    proof (cases rule: poll_recv_cases [OF Q, of spurious q, case_names item pending])
      case (item ns b items q')
      with Cons.prems Idle have "length (mpsc_contents Q q') \<le> mpsc_capacity Q q'" "mpsc_capacity Q q' < k"
        "clocks_ok ticks" by simp_all
      with Cons.IH [of v q'] Cons.prems(2) item Idle show ?thesis by simp
    qed (simp add: Idle)
  next
    case (Incoming msg clock)
    show ?thesis
    proof (cases "request_from_slice J msg")
      case None
      with Cons Incoming show ?thesis by simp
    next
      case (Some req)
      have "0 \<le> clock" using Cons.prems(1) Incoming by simp
      from handle_request_total [OF this Cons.prems(2), of L J D req] obtain w resp pub where
        h: "handle_request L J D clock v req = Some (w, resp, pub)" by blast
      have "v_pub_addr w \<noteq> None" using Cons.prems(2) handle_request_frame(2) [OF h] by simp
      with Cons.IH [of w "enqueue Q q pub"] Cons.prems Incoming enqueue_keeps(2) [OF Q Cons.prems(3), of pub]
        enqueue_contents(2) [OF Q Cons.prems(3), of pub] h Some
      show ?thesis by simp
    qed
  qed
qed

end
