(* ===== verification/PollProperties.thy ===== *)
theory PollProperties
  imports PollOrder ValidatorProperties
begin

text \<open>
  Properties of the validator's event loop on arbitrary schedules of requests and idle iterations.
\<close>

text \<open>
  Whenever \<^verbatim>\<open>poll\<close> returns, it has answered the requests it consumed like the reference that
  serves them one after the other, and it has published, in order, a part of what their writes
  offered to subscribers: nothing is reordered, repeated or made up.
\<close>

theorem poll_order:
  assumes "mpsc_laws Q" "poll L J D Q lossy ticks v = PollPending v' out"
  shows "\<exists>used rest resps pubs. ticks = used @ rest \<and> serve L J D used v = Some (v', resps, pubs) \<and>
    responses out = resps \<and> subseq (publications out) (map (\<lambda>(ns, b). (lossy ns, b)) pubs)"
  using poll_loop_order [OF assms(1) assms(2) [unfolded poll_def]]
  by (fastforce simp: mpsc_new [OF assms(1)] published_as_def)

theorem poll_order_witness:
  "\<exists>v' out pubs. poll toy_lib toy_json (in_memory toy_lib queue_fifo) list_mpsc (\<lambda>_. ''t'')
      [Incoming sample_message 5000000, Idle False, Idle True] (validator_subscribe sample_validator [7]) =
      PollPending v' out \<and> publications out \<noteq> [] \<and>
    subseq (publications out) (map (\<lambda>(ns, b). (''t'', b)) (pubs :: pub_item list))"
proof -
  let ?D = "in_memory toy_lib queue_fifo" and ?v = "validator_subscribe sample_validator [7]"
  have "?v \<noteq> sample_validator" by (simp add: validator_subscribe_def sample_validator_def)
  then obtain v' b where h: "handle_request toy_lib toy_json ?D 5000000 ?v (Write [7] (Message [1])) =
      Some (v', Some b, Some ([7], b))"
    using sample_handle [of ?v ?D] by auto
  have p: "poll toy_lib toy_json ?D list_mpsc (\<lambda>_. ''t'') [Incoming sample_message 5000000, Idle False, Idle True] ?v =
      PollPending v' [Respond b, Publish ''t'' b]"
    using h by (simp add: poll_def sample_request list_mpsc_def enqueue_def respond_effects_def del: handle_request.simps)
  with poll_order [OF list_mpsc_laws p] show ?thesis by fastforce
qed

text \<open>
  C24: \<^verbatim>\<open>poll\<close> terminates: after any schedule of requests, malformed ones included, with clocks not
  before the epoch, 513 idle iterations make it return \<^verbatim>\<open>Poll::Pending\<close>, without a panic.
\<close>

theorem poll_terminates:
  assumes "mpsc_laws Q" "new_in_memory bind_rep bind_pub sk port = Ok v" "clocks_ok ticks"
  shows "\<exists>v' out. poll L J D Q lossy (ticks @ replicate 513 (Idle False)) v = PollPending v' out"
  unfolding poll_def
  by (rule poll_loop_returns [OF assms(1,3) new_in_memory_Ok(3) [OF assms(2)]]) (simp_all add: mpsc_new [OF assms(1)])

theorem poll_terminates_witness:
  "\<exists>v' out. poll toy_lib toy_json (in_memory toy_lib queue_fifo) list_mpsc (\<lambda>_. [])
     ([Incoming sample_message 5000000, Idle False, Incoming [1, 2, 3] 0] @ replicate 513 (Idle False))
     sample_validator = PollPending v' out"
  by (rule poll_terminates [OF list_mpsc_laws sample_validator_new]) simp

text \<open>
  While requests keep coming, \<^verbatim>\<open>poll\<close> neither returns nor publishes, however many writes it
  serves: subscribers wait for the load to end, and of the records of the burst they get the
  first 512 when it does.
\<close>

theorem poll_starves_subscribers:
  assumes "mpsc_laws Q" "list_all is_incoming reqs" "serve L J D reqs v = Some (v', resps, pubs)"
  shows "poll L J D Q lossy reqs v = PollRunning v' (map Respond resps) \<and>
    (\<exists>out. poll L J D Q lossy (reqs @ replicate 513 (Idle False)) v = PollPending v' out \<and>
      length (publications out) = min 512 (length pubs))"
proof -
  let ?q = "mpsc_channel Q 512"
  have room: "length (mpsc_contents Q ?q) \<le> mpsc_capacity Q ?q" by (simp add: mpsc_new [OF assms(1)])
  from poll_loop_burst [OF assms room, of lossy "[]" "[]"]
  have "poll L J D Q lossy reqs v = PollRunning v' (map Respond resps)" by (auto simp: poll_def)
  moreover from poll_loop_burst [OF assms room, of lossy "replicate 513 (Idle False)" "[]"] obtain q where
    q: "poll L J D Q lossy (reqs @ replicate 513 (Idle False)) v =
      poll_loop L J D Q lossy (replicate 513 (Idle False) @ []) v' q (map Respond resps)"
    "mpsc_contents Q q = take 512 pubs" by (auto simp: mpsc_new [OF assms(1)] poll_def)
  have "publications (map Respond rs @ map (\<lambda>(ns, b). Publish (lossy ns) b) items) = published_as lossy items" for rs items
  proof -
    have "publications (map Respond rs) = []" by (induction rs) auto
    moreover have "publications (map (\<lambda>(ns, b). Publish (lossy ns) b) items) = published_as lossy items"
      by (induction items) auto
    ultimately show ?thesis by simp
  qed
  moreover have "length (mpsc_contents Q q) < 513" by (simp add: q(2))
  ultimately show ?thesis
    using poll_loop_drain [OF assms(1), of q 513 L J D lossy "[]" v' "map Respond resps"] q
    by (simp add: published_as_def min.commute)
qed

theorem poll_starves_subscribers_witness:
  "\<exists>v' b. poll toy_lib toy_json (in_memory toy_lib queue_fifo) list_mpsc (\<lambda>_. [])
     [Incoming sample_message 5000000, Incoming [9] 0] (validator_subscribe sample_validator [7]) =
     PollRunning v' (map Respond [b])"
proof -
  let ?D = "in_memory toy_lib queue_fifo" and ?v = "validator_subscribe sample_validator [7]"
  have "\<exists>v' resps pubs. serve toy_lib toy_json ?D [Incoming sample_message 5000000, Incoming [9] 0] ?v =
      Some (v', resps, pubs) \<and> length resps = 1"
  proof -
    have "?v \<noteq> sample_validator" by (simp add: validator_subscribe_def sample_validator_def)
    then obtain v' b where h: "handle_request toy_lib toy_json ?D 5000000 ?v (Write [7] (Message [1])) =
        Some (v', Some b, Some ([7], b))"
      using sample_handle [of ?v ?D] by auto
    have "request_from_slice toy_json [9] = None" by (simp add: toy_json_def)
    with h show ?thesis by (simp add: sample_request del: handle_request.simps)
  qed
  then obtain v' resps pubs where s: "serve toy_lib toy_json ?D [Incoming sample_message 5000000, Incoming [9] 0] ?v =
      Some (v', resps, pubs)" "length resps = 1" by blast
  then obtain b where "resps = [b]" by (auto simp: length_Suc_conv)
  with poll_starves_subscribers [OF list_mpsc_laws _ s(1)] show ?thesis by (fastforce simp: is_incoming_def)
qed

end
