(* ===== verification/SubscriptionProperties.thy ===== *)
theory SubscriptionProperties
  imports ClientProperties PollOrder ValidatorProperties
begin

text \<open>
  A subscription from end to end: validators publish what they write, the client forwards the
  records and certifies them.
\<close>

text \<open>What a call of \<^verbatim>\<open>poll\<close> sends to the subscribers, and what arrives at the client's task.\<close>

fun outgoing :: "'v poll_result \<Rightarrow> bytes list" where
  "outgoing (PollPending v out) = map snd (publications out)"
| "outgoing _ = []"

fun payloads :: "sub_event list \<Rightarrow> bytes list" where
  "payloads [] = []"
| "payloads (Published payload # es) = payload # payloads es"
| "payloads (_ # es) = payloads es"

lemma published_payloads: "published J es = List.map_filter (record_from_slice J) (payloads es)"
  by (induction J es rule: published.induct) (auto simp: map_filter_simps split: option.split)

lemma map_filter_all:
  "\<forall>i\<in>set is. f (g i) = Some (h i) \<Longrightarrow> List.map_filter f (map g is) = map h is"
  by (induction "is") (simp_all add: map_filter_simps)

lemma length_concat_one: "\<forall>i\<in>set is. length (f i) = 1 \<Longrightarrow> length (concat (map f is)) = length is"
  by (induction "is") simp_all

text \<open>One write and two idle iterations: the record is answered, and published once.\<close>

lemma poll_publishes_write:
  assumes "mpsc_laws Q" "json_faithful J" "request_to_vec J (Write ns m) = Some msg"
    and "ts_now clock = Some t" "ns \<in> v_active_subscriptions v"
  shows "\<exists>b r. outgoing (poll L J D Q lossy [Incoming msg clock, Idle False, Idle False] v) = [b] \<and>
    record_from_slice J b = Some r \<and> r_message r = m \<and> r_timestamp r = t"
proof -
  obtain r v' where w: "validator_write L D clock v ns m = Some (r, v')" "r_message r = m" "r_timestamp r = t"
    using assms(4) by (simp add: validator_write_def Let_def)
  obtain b where b: "record_to_vec J r = Some b" "record_from_slice J b = Some r"
    using codecD [OF json_faithfulD(2) [OF assms(2)]] by blast
  have h: "handle_request L J D clock v (Write ns m) = Some (v', Some b, Some (ns, b))"
    using w(1) b(1) validator_write_frame(4) [OF w(1)] assms(5) by simp
  have req: "request_from_slice J msg = Some (Write ns m)"
    using codecD [OF json_faithfulD(1) [OF assms(2)], of "Write ns m"] assms(3) by auto
  let ?q0 = "mpsc_channel Q 512"
  note new = mpsc_new [OF assms(1)] and recv = mpsc_recv [OF assms(1)]
  obtain q1 where q1: "mpsc_try_send Q ?q0 (ns, b) = Some q1"
    using mpsc_send(1) [OF assms(1), of ?q0 "(ns, b)"] by (cases "mpsc_try_send Q ?q0 (ns, b)") (auto simp: new)
  have c1: "mpsc_contents Q q1 = [(ns, b)]" using mpsc_send(2) [OF assms(1) q1] by (simp add: new)
  obtain q2 where q2: "mpsc_poll_recv Q q1 False = (Ready (Some (ns, b)), q2)" "mpsc_contents Q q2 = []"
    using recv(1,3) [of q1] c1 by (cases "mpsc_poll_recv Q q1 False") auto
  obtain q3 where q3: "mpsc_poll_recv Q q2 False = (Pending, q3)"
    using recv(3) [of q2] q2(2) by (cases "mpsc_poll_recv Q q2 False") auto
  have "poll L J D Q lossy [Incoming msg clock, Idle False, Idle False] v =
      PollPending v' [Respond b, Publish (lossy ns) b]"
    using req h q1 q2(1) q3 by (simp add: poll_def enqueue_def respond_effects_def del: handle_request.simps)
  with b(2) w(2,3) show ?thesis by simp
qed

text \<open>The certificates made of the records of one message.\<close>

lemma from_records_nonempty:
  "rs \<noteq> [] \<Longrightarrow> \<exists>c. from_records_unchecked L rs = Some c \<and> cr_timestamps c = map r_timestamp rs \<and>
     (\<exists>r\<in>set rs. cr_message c = r_message r)"
  by (cases rs) auto

lemma certificates_same:
  assumes "\<forall>r\<in>set (seen @ rs). r_message r = m" "length (seen @ rs) \<le> n"
  shows "length (certificates L n ns seen rs) = length rs - (quorum_threshold n - Suc (length seen)) \<and>
    (\<forall>cert\<in>set (certificates L n ns seen rs).
       \<exists>k. cr_timestamps cert = map r_timestamp (take (Suc k) (seen @ rs)) \<and> cr_message cert = m)"
  using assms
proof (induction rs arbitrary: seen)
  case (Cons r rs)
  let ?group = "seen @ [r]"
  have "Record_message_digest L x ns = Record_message_digest L r ns" if "x \<in> set ?group" for x
  proof -
    have "r_message x = r_message r" using that Cons.prems(1) by auto
    then show ?thesis by (simp add: Record_message_digest_eq)
  qed
  then have group: "group_of L ns ?group (Record_message_digest L r ns) = ?group"
    unfolding group_of_def by (intro filter_True ballI)
  have "?group \<noteq> []" by simp
  from from_records_nonempty [OF this, of L] obtain cert x where cert: "from_records_unchecked L ?group = Some cert"
    "cr_timestamps cert = map r_timestamp ?group" and x: "x \<in> set ?group" "cr_message cert = r_message x"
    by (elim exE conjE bexE) (rule that)
  have m: "cr_message cert = m" using x Cons.prems(1) by auto
  have q: "has_reached_quorum n (length ?group) \<longleftrightarrow> quorum_threshold n \<le> length ?group"
    by (rule has_reached_quorum_iff) (use Cons.prems(2) in simp)
  have step: "certificates L n ns seen (r # rs) =
      (if quorum_threshold n \<le> length ?group then [cert] else []) @ certificates L n ns ?group rs"
    using cert(1) q by (simp only: certificates.simps Let_def group option.case)
  have IH: "length (certificates L n ns ?group rs) = length rs - (quorum_threshold n - Suc (length ?group)) \<and>
      (\<forall>cert\<in>set (certificates L n ns ?group rs).
         \<exists>k. cr_timestamps cert = map r_timestamp (take (Suc k) (seen @ r # rs)) \<and> cr_message cert = m)"
    using Cons.IH [of ?group] Cons.prems by simp
  have first: "\<exists>k. cr_timestamps cert = map r_timestamp (take (Suc k) (seen @ r # rs)) \<and> cr_message cert = m"
    by (rule exI [of _ "length seen"]) (simp add: cert(2) m)
  have "length (certificates L n ns seen (r # rs)) = length (r # rs) - (quorum_threshold n - Suc (length seen))"
    unfolding step length_append conjunct1 [OF IH] by auto
  moreover have "\<forall>cert\<in>set (certificates L n ns seen (r # rs)).
      \<exists>k. cr_timestamps cert = map r_timestamp (take (Suc k) (seen @ r # rs)) \<and> cr_message cert = m"
    using conjunct2 [OF IH] first unfolding step
    by (cases "quorum_threshold n \<le> length ?group") (simp_all del: take_append length_append)
  ultimately show ?case by blast
qed simp

lemma median_of_range:
  assumes "ts \<noteq> []" "\<forall>t\<in>set ts. lo \<le> t \<and> t \<le> hi" "ts_nat hi < 2 ^ 127"
  shows "\<exists>t. median_timestamp p ts = Some t \<and> lo \<le> t \<and> t \<le> hi"
proof -
  have above: "length (filter (\<lambda>t. hi < t) ts) + length ts div 2 < length ts"
    using assms(1,2) by (simp add: filter_False leD)
  have "filter (\<lambda>t. t < lo) ts = []" using assms(2) by (simp add: filter_False leD)
  then have below: "length (filter (\<lambda>t. t < lo) ts) \<le> (length ts - 1) div 2" by simp
  obtain t where t: "median_timestamp p ts = Some t" using median_timestamp_total [OF assms(1) above assms(3)] by blast
  with median_timestamp_le [OF t above] median_timestamp_ge [OF t assms(1) below above assms(3)] show ?thesis by blast
qed

text \<open>
  C4: a subscription from end to end: when validators 0 to n - 1, up to 512 and each with a
  subscriber, serve a write of a message, their publications arrive at a client in any order, and
  its consumer takes them all at whatever pace, \<^verbatim>\<open>subscribe_certified\<close> delivers certificates for the
  message, one for the quorum and one for every further record, whose certified timestamps lie in
  the range of the validators' clocks.
\<close>

theorem subscription_end_to_end:
  assumes "json_faithful J" "fifo_laws F" "mpsc_laws Q" "mpsc_laws Q'"
    and "validator_count c \<noteq> 0" "validator_count c \<le> 512" "distinct order" "set order = {..<validator_count c}"
    and "request_to_vec J (Write ns m) = Some msg"
    and "\<forall>i<validator_count c. ns \<in> v_active_subscriptions (v i) \<and>
      (\<exists>t. ts_now (clock i) = Some t \<and> lo \<le> t \<and> t \<le> hi)"
    and "payloads es = concat (map (\<lambda>i. outgoing
      (poll L J D Q lossy [Incoming msg (clock i), Idle False, Idle False] (v i))) order)"
    and "Dropped \<notin> set es" "mpsc_contents Q' (fs_queue (forward J Q' es)) = []"
    and "ts_nat hi < 2 ^ 127"
  shows "\<exists>certs. client_subscribe_certified L F c ns
      (map (\<lambda>r. (r, True)) (fs_received (forward J Q' es))) = (certs, False) \<and>
    length certs = Suc (validator_count c) - quorum_threshold (validator_count c) \<and>
    (\<forall>cert\<in>set certs. cr_message cert = m \<and>
       (\<exists>t cert'. certified_timestamp p cert = Some (t, cert') \<and> lo \<le> t \<and> t \<le> hi))"
proof -
  let ?n = "validator_count c" and ?poll = "\<lambda>i. poll L J D Q lossy [Incoming msg (clock i), Idle False, Idle False] (v i)"
  have "\<forall>i\<in>set order. \<exists>b r. outgoing (?poll i) = [b] \<and> record_from_slice J b = Some r \<and>
      r_message r = m \<and> lo \<le> r_timestamp r \<and> r_timestamp r \<le> hi"
    using poll_publishes_write [OF assms(3,1,9)] assms(8,10) by (metis lessThan_iff)
  then obtain b r where br: "\<forall>i\<in>set order. outgoing (?poll i) = [b i] \<and> record_from_slice J (b i) = Some (r i) \<and>
      r_message (r i) = m \<and> lo \<le> r_timestamp (r i) \<and> r_timestamp (r i) \<le> hi" by metis
  let ?rs = "map r order"
  have len: "length ?rs = ?n" using distinct_card [OF assms(7)] assms(8) by simp
  have out: "map (\<lambda>i. outgoing (?poll i)) order = map (\<lambda>i. [b i]) order" using br by simp
  have "payloads es = map b order" unfolding assms(11) out by (rule concat_map_singleton)
  then have pub: "published J es = ?rs" unfolding published_payloads using br by (simp add: map_filter_all)
  have received: "fs_received (forward J Q' es) = ?rs"
    using forward_complete [OF assms(4), of J es] assms(6,12,13) len by (simp add: pub)
  have same: "\<forall>x\<in>set ([] @ ?rs). r_message x = m" using br by simp
  have "(\<lambda>x. Record_message_digest L x ns) ` set ([] @ ?rs) \<subseteq> {Message_digest L m ns}"
    using same by (auto simp: Record_message_digest_eq)
  from card_mono [OF _ this] have "card ((\<lambda>x. Record_message_digest L x ns) ` set ([] @ ?rs)) \<le> 1024" by simp
  from certify_stream_exact [OF assms(2) groups_init(2) [OF assms(2)] this]
  have certs: "client_subscribe_certified L F c ns (map (\<lambda>r. (r, True)) ?rs) = (certificates L ?n ns [] ?rs, False)"
    by (simp add: client_subscribe_certified_def)
  have cs: "length (certificates L ?n ns [] ?rs) = ?n - (quorum_threshold ?n - 1)"
    "\<forall>cert\<in>set (certificates L ?n ns [] ?rs). \<exists>k. cr_timestamps cert = map r_timestamp (take (Suc k) ?rs) \<and> cr_message cert = m"
    using certificates_same [OF same, of ?n L ns] len by simp_all
  have "\<exists>t cert'. certified_timestamp p cert = Some (t, cert') \<and> lo \<le> t \<and> t \<le> hi"
    if "cert \<in> set (certificates L ?n ns [] ?rs)" for cert
  proof -
    from cs(2) that obtain k where k: "cr_timestamps cert = map r_timestamp (take (Suc k) ?rs)" by blast
    have "?rs \<noteq> []" using len assms(5) by auto
    then have "cr_timestamps cert \<noteq> []" unfolding k by simp
    moreover have "\<forall>t\<in>set (cr_timestamps cert). lo \<le> t \<and> t \<le> hi"
      unfolding k using br set_take_subset [of "Suc k" ?rs] by fastforce
    ultimately show ?thesis using median_of_range [OF _ _ assms(14)] by (auto simp: certified_timestamp_def Let_def)
  qed
  moreover have "?n - (quorum_threshold ?n - 1) = Suc ?n - quorum_threshold ?n"
    using assms(5) quorum_threshold_eq_0 [of ?n] by (cases "quorum_threshold ?n") simp_all
  ultimately show ?thesis unfolding received using certs cs by auto
qed

text \<open>A consumer that polls as often as there are records takes them all.\<close>

lemma polls_drain:
  assumes "mpsc_laws Q" "\<not> fs_closed s"
  shows "mpsc_contents Q (fs_queue (fold (forward_step J Q) (replicate k Polled) s)) =
    drop k (mpsc_contents Q (fs_queue s))"
  using assms(2)
proof (induction k arbitrary: s)
  case (Suc k)
  let ?s = "forward_step J Q Polled s"
  have "mpsc_contents Q (fs_queue ?s) = tl (mpsc_contents Q (fs_queue s))"
    using Suc.prems mpsc_recv(1) [OF assms(1), of "fs_queue s"]
    by (cases "mpsc_poll_recv Q (fs_queue s) False") (auto split: Poll.split option.split)
  moreover have "\<not> fs_closed ?s" using Suc.prems forward_step_poll(4) [OF assms(1) refl, of J s] by blast
  ultimately show ?case using Suc.IH [of ?s] by (simp add: drop_Suc)
qed simp

lemma forward_drained:
  assumes "mpsc_laws Q" "length bs \<le> 512" "length bs \<le> k"
  shows "mpsc_contents Q (fs_queue (forward J Q (map Published bs @ replicate k Polled))) = []"
proof -
  let ?es = "map Published bs"
  have pub: "length (published J ?es) \<le> length bs"
    by (induction bs) (auto split: option.split intro: le_SucI)
  then have "length (published J ?es) \<le> 512" using assms(2) by (rule order.trans)
  moreover have "Dropped \<notin> set ?es" by auto
  ultimately have "fs_received (forward J Q ?es) @ mpsc_contents Q (fs_queue (forward J Q ?es)) = published J ?es"
    and open': "\<not> fs_closed (forward J Q ?es)"
    using forward_complete [OF assms(1), of J ?es] by blast+
  then have "length (mpsc_contents Q (fs_queue (forward J Q ?es))) \<le> k"
    using pub assms(3) by (metis (no_types) dual_order.trans le_add2 length_append)
  moreover have "forward J Q (?es @ replicate k Polled) = fold (forward_step J Q) (replicate k Polled) (forward J Q ?es)"
    by (simp add: forward_def)
  ultimately show ?thesis using polls_drain [OF assms(1) open', of J k] by simp
qed

lemma payloads_published: "payloads (map Published bs @ replicate k Polled) = bs"
proof (induction bs)
  case Nil
  show ?case by (induction k) simp_all
qed simp

definition subscribed_node :: "nat \<Rightarrow> ((nat \<times> (B256 \<times> toy_sig Record) list) InMemoryStore, nat) Validator" where
  "subscribed_node i = sample_validator\<lparr>v_secret_key := 10 + i, v_active_subscriptions := {[7]}\<rparr>"

text \<open>Three validators; the records arrive in the order 2, 0, 1, then the consumer takes them.\<close>

theorem subscription_end_to_end_witness:
  "\<exists>es certs. client_subscribe_certified toy_lib queue_fifo sample_client [7]
      (map (\<lambda>r. (r, True)) (fs_received (forward toy_json list_mpsc es))) = (certs, False) \<and>
    length certs = 2 \<and> (\<forall>cert\<in>set certs. \<exists>t cert'. certified_timestamp Dev cert = Some (t, cert') \<and>
      Timestamp 5 \<le> t \<and> t \<le> Timestamp 6)"
proof -
  let ?poll = "\<lambda>i. poll toy_lib toy_json (in_memory toy_lib queue_fifo) list_mpsc (\<lambda>_. ''t'')
    [Incoming sample_message (5000000 + int i), Idle False, Idle False] (subscribed_node i)"
  let ?bs = "concat (map (\<lambda>i. outgoing (?poll i)) [2, 0, 1])" and ?es = "map Published (concat (map (\<lambda>i. outgoing
    (poll toy_lib toy_json (in_memory toy_lib queue_fifo) list_mpsc (\<lambda>_. ''t'')
    [Incoming sample_message (5000000 + int i), Idle False, Idle False] (subscribed_node i))) [2, 0, 1])) @ replicate 3 Polled"
  have msg: "request_to_vec toy_json (Write [7] (Message [1])) = Some sample_message"
    using toy_request [of "Write [7] (Message [1])"] by auto
  have now: "ts_now (5000000 + int i) = Some (Timestamp 5)" if "i < 3" for i
    using that by (simp add: ts_now_def div_add1_eq)
  have sub: "[7] \<in> v_active_subscriptions (subscribed_node i)" for i by (simp add: subscribed_node_def)
  have one: "length (outgoing (?poll i)) = 1" if "i < 3" for i
  proof -
    have "\<exists>b r. outgoing (?poll i) = [b] \<and> record_from_slice toy_json b = Some r \<and> r_message r = Message [1] \<and>
        r_timestamp r = Timestamp 5"
      by (rule poll_publishes_write [OF list_mpsc_laws toy_json_faithful msg now [OF that] sub])
    then show ?thesis by (elim exE conjE) simp
  qed
  have "\<forall>i\<in>set [2, 0, 1]. length (outgoing (?poll i)) = 1" by (rule ballI, rule one) auto
  from length_concat_one [OF this] have len: "length ?bs = 3" by simp
  have set: "set [2, 0, 1] = {..<validator_count sample_client}" by auto
  have nodes: "\<forall>i<validator_count sample_client. [7] \<in> v_active_subscriptions (subscribed_node i) \<and>
      (\<exists>t. ts_now (5000000 + int i) = Some t \<and> Timestamp 5 \<le> t \<and> t \<le> Timestamp 6)"
    using now sub by (simp add: less_eq_Timestamp_def)
  have dropped: "Dropped \<notin> set ?es" by auto
  have empty: "mpsc_contents list_mpsc (fs_queue (forward toy_json list_mpsc ?es)) = []"
    by (rule forward_drained [OF list_mpsc_laws]) (simp_all only: len)
  have "\<exists>certs. client_subscribe_certified toy_lib queue_fifo sample_client [7]
      (map (\<lambda>r. (r, True)) (fs_received (forward toy_json list_mpsc ?es))) = (certs, False) \<and>
    length certs = Suc (validator_count sample_client) - quorum_threshold (validator_count sample_client) \<and>
    (\<forall>cert\<in>set certs. cr_message cert = Message [1] \<and> (\<exists>t cert'.
       certified_timestamp Dev cert = Some (t, cert') \<and> Timestamp 5 \<le> t \<and> t \<le> Timestamp 6))"
    by (rule subscription_end_to_end [OF toy_json_faithful queue_fifo_laws list_mpsc_laws list_mpsc_laws _ _ _ set msg nodes
        payloads_published dropped empty]) (simp_all add: ts_nat_def)
  then show ?thesis unfolding sample_client_count
    by (elim exE conjE) (rule exI [of _ ?es], rule exI, intro conjI, assumption, simp add: quorum_threshold_def, blast)
qed

end
