(* ===== verification/Interfaces.thy ===== *)
theory Interfaces
  imports HttpApi ClientProperties ValidatorNode
begin

text \<open>
  The two traits, \<^verbatim>\<open>src/client/spec.rs\<close> and \<^verbatim>\<open>src/validator/spec.rs\<close>, as records of operations,
  with the implementations of \<^verbatim>\<open>Client\<close> and of \<^verbatim>\<open>Validator\<close>, and what the results of a client can be.
\<close>

section \<open>\<^verbatim>\<open>ValidatorSpec\<close>\<close>

text \<open>
  \<^verbatim>\<open>&mut self\<close> is returned; the wall clock is an argument, and \<open>None\<close> is a panic on a clock before
  the epoch.
\<close>

record ('self, 'sig) ValidatorSpec =
  vs_write :: "int \<Rightarrow> 'self \<Rightarrow> Namespace \<Rightarrow> Message \<Rightarrow> ('sig Record \<times> 'self) option"
  vs_read_range :: "'self \<Rightarrow> Namespace \<Rightarrow> Timestamp \<Rightarrow> Timestamp \<Rightarrow> 'sig Log"
  vs_read_message :: "int \<Rightarrow> 'self \<Rightarrow> Namespace \<Rightarrow> B256 \<Rightarrow> 'sig ReadMessageResponse option"
  vs_subscribe :: "'self \<Rightarrow> Namespace \<Rightarrow> 'self"

definition validator_spec ::
  "('sk, 'pk, 'sig, 'agg) lib \<Rightarrow> ('s, 'sig) DataStore \<Rightarrow> (('s, 'sk) Validator, 'sig) ValidatorSpec" where
  "validator_spec L D =
     \<lparr>vs_write = validator_write L D, vs_read_range = validator_read_range D,
      vs_read_message = validator_read_message L D, vs_subscribe = validator_subscribe\<rparr>"

text \<open>The event loop uses the state through the trait, but for the subscriptions and the address.\<close>

lemma handle_request_spec:
  "handle_request L J D clock this (Write ns m) =
     (case vs_write (validator_spec L D) clock this ns m of
        None \<Rightarrow> None
      | Some (record, this) \<Rightarrow>
          Some (this, record_to_vec J record,
            if ns \<in> v_active_subscriptions this then map_option (Pair ns) (record_to_vec J record) else None))"
  "handle_request L J D clock this (ReadRange ns a b) =
     Some (this, log_to_vec J (vs_read_range (validator_spec L D) this ns a b), None)"
  "handle_request L J D clock this (ReadMessage ns i) =
     map_option (\<lambda>response. (this, message_response_to_vec J response, None))
       (vs_read_message (validator_spec L D) clock this ns i)"
  by (auto simp: validator_spec_def split: option.split)

section \<open>\<^verbatim>\<open>ClientSpec\<close>\<close>

text \<open>
  What one call meets outside the client: the order in which the replies complete, the order in which
  the verification tasks finish, the completions of the further rounds, and what the publishers
  deliver, each record with whether the consumer still listens.
\<close>

record 'sig network_env =
  ne_completions :: "completion list"
  ne_order :: "nat \<Rightarrow> nat list"
  ne_rounds :: "nat \<Rightarrow> completion list"
  ne_publishers :: "sub_completion list"
  ne_stream :: "(SocketAddr \<rightharpoonup> nat) \<Rightarrow> ('sig Record \<times> bool) list"

record ('self, 'sig, 'agg) ClientSpec =
  cs_write :: "'sig network_env \<Rightarrow> 'self \<Rightarrow> Namespace \<Rightarrow> Message \<Rightarrow> (ClientError, 'agg CertifiedRecord) res"
  cs_read_certified :: "'sig network_env \<Rightarrow> 'self \<Rightarrow> Namespace \<Rightarrow> Timestamp \<Rightarrow> Timestamp \<Rightarrow>
    (ClientError, 'agg CertifiedLog) res"
  cs_read :: "'sig network_env \<Rightarrow> 'self \<Rightarrow> Namespace \<Rightarrow> Timestamp \<Rightarrow> Timestamp \<Rightarrow> (ClientError, 'sig Log) res"
  cs_read_message :: "'sig network_env \<Rightarrow> 'self \<Rightarrow> Namespace \<Rightarrow> B256 \<Rightarrow>
    (ClientError, 'agg CertifiedReadMessageResponse) res"
  cs_subscribe :: "'sig network_env \<Rightarrow> 'self \<Rightarrow> Namespace \<Rightarrow> (ClientError, 'sig Record list) res"
  cs_subscribe_certified :: "'sig network_env \<Rightarrow> 'self \<Rightarrow> Namespace \<Rightarrow>
    (ClientError, 'agg CertifiedRecord list \<times> bool) res"

definition client_spec ::
  "profile \<Rightarrow> ('sk, 'pk, 'sig, 'agg) lib \<Rightarrow> 'sig json \<Rightarrow> (B256, 'sig Record list, 'm) fifo \<Rightarrow>
     ('pk Client, 'sig, 'agg) ClientSpec" where
  "client_spec p L J F =
     \<lparr>cs_write = (\<lambda>N self namespace message. client_write p L J self namespace message (ne_completions N)),
      cs_read_certified = (\<lambda>N self namespace start end'.
        client_read_certified p L J self namespace start end' (ne_completions N) (ne_order N) (ne_rounds N)),
      cs_read = (\<lambda>N self namespace start end'.
        client_read L J self namespace start end' (ne_completions N) (ne_order N)),
      cs_read_message = (\<lambda>N self namespace msg_id.
        client_read_message p L J self namespace msg_id (ne_completions N)),
      cs_subscribe = (\<lambda>N self namespace.
        map_ok (\<lambda>publishers. map fst (ne_stream N publishers)) (client_subscribe J namespace (ne_publishers N))),
      cs_subscribe_certified = (\<lambda>N self namespace.
        map_ok (\<lambda>publishers. client_subscribe_certified L F self namespace (ne_stream N publishers))
          (client_subscribe J namespace (ne_publishers N)))\<rparr>"

section \<open>Results\<close>

text \<open>A certificate for a network of \<open>n\<close> validators: one time per validator, in order.\<close>

definition cert_times_ok :: "nat \<Rightarrow> Timestamp list \<Rightarrow> bool" where
  "cert_times_ok n ts \<longleftrightarrow> length ts = n \<and> sorted ts"

lemma client_write_typed:
  "client_write p L J c ns m cs = Ok cert \<Longrightarrow>
     cert_times_ok (validator_count c) (cr_timestamps cert) \<and> cr_message cert = m"
  by (auto dest!: client_write_Ok certify_Ok simp: cert_times_ok_def)

lemma read_message_typed:
  "client_read_message p L J c ns i cs = Ok (CertAvailable cr) \<Longrightarrow>
     cert_times_ok (validator_count c) (cr_timestamps cr)"
  "client_read_message p L J c ns i cs = Ok (CertUnavailable cu) \<Longrightarrow>
     cert_times_ok (validator_count c) (cu_timestamps cu) \<and> cu_msg_id cu = i"
  "client_read_message p L J c ns i cs = Err e \<Longrightarrow> \<exists>a u. e = ClientRead (ReadNoQuorum a u)"
  using client_read_message_result [of p L J c ns i cs]
  by (auto simp: read_outcome_def Let_def cert_times_ok_def split: if_splits option.splits)

lemma read_never_Err: "client_read L J c ns a b cs order \<noteq> Err e"
  by (simp add: client_read_def Let_def split: option.split)

lemma read_certified_typed:
  "client_read_certified p L J c ns a b cs order rounds \<noteq> Err e"
  "client_read_certified p L J c ns a b cs order rounds = Ok log \<Longrightarrow>
     \<forall>cr\<in>set (cl_records log). cert_times_ok (validator_count c) (cr_timestamps cr)"
proof -
  show "client_read_certified p L J c ns a b cs order rounds \<noteq> Err e"
    by (auto simp: client_read_certified_def read_never_Err split: res.split option.split)
  assume "client_read_certified p L J c ns a b cs order rounds = Ok log"
  then obtain rs where "certify_records p L J c ns rounds 0 rs [] = Some (cl_records log)"
    by (auto simp: client_read_certified_def split: res.splits option.splits)
  from certify_records_sound [OF this] read_message_typed(1)
  show "\<forall>cr\<in>set (cl_records log). cert_times_ok (validator_count c) (cr_timestamps cr)"
    by (auto) blast
qed

lemma subscribe_never_Err: "client_subscribe J ns cs \<noteq> Err e"
  by (simp add: client_subscribe_def split: option.split)



end
