(* ===== verification/Feed.thy ===== *)
theory Feed
  imports Common
begin

text \<open>
  The demonstration program \<^verbatim>\<open>examples/cr_feed.rs\<close>: it sends writes with random messages to the API
  server, follows the certified records of the namespace, and prints the average time from a
  write to its certificate for every batch. Its tasks share a map from messages to instants; they
  run interleaved, so the program is a step relation. An instant is a reading of the monotonic
  clock in nanoseconds; HTTP, the event source and the random generator are inputs, and the
  parser of \<^verbatim>\<open>serde_json\<close> is a parameter.
\<close>

section \<open>Data\<close>

record Args =
  num_txns :: u64
  api_server :: string
  logs_batch_size :: u64

definition default_args :: Args where
  "default_args = \<lparr>num_txns = 1000, api_server = ''http://localhost:8000'', logs_batch_size = 100\<rparr>"

record FeedWriteRequest =
  fr_namespace :: string
  fr_message :: string

text \<open>The map of instants, the durations of the current batch, and the averages printed.\<close>

record feed =
  f_timestamps :: "string \<rightharpoonup> nat"
  f_durations :: "nat list"
  f_printed :: "nat list"

section \<open>Writes\<close>

text \<open>The outcome of \<^verbatim>\<open>client.post(..).send()\<close>: a status code or a request error.\<close>

datatype http_outcome = Answered nat | RequestError

definition is_success :: "nat \<Rightarrow> bool" where
  "is_success status \<longleftrightarrow> 200 \<le> status \<and> status < 300"

definition write_url :: "string \<Rightarrow> string" where
  "write_url server = server @ ''/api/v1/write''"

text \<open>What \<^verbatim>\<open>send_write_request\<close> does when the response is there, at the instant \<open>now\<close>.\<close>

definition send_write_request :: "FeedWriteRequest \<Rightarrow> http_outcome \<Rightarrow> nat \<Rightarrow> feed \<Rightarrow> feed" where
  "send_write_request request outcome now st =
     (case outcome of
        Answered status \<Rightarrow>
          if is_success status
          then st\<lparr>f_timestamps := (f_timestamps st)(fr_message request \<mapsto> now)\<rparr>
          else st
      | RequestError \<Rightarrow> st)"

text \<open>\<^verbatim>\<open>generate_random_message\<close>, from the 32 numbers drawn in \<^verbatim>\<open>0..16\<close>.\<close>

definition hex_chars :: string where
  "hex_chars = ''0123456789abcdef''"

definition generate_random_message :: "nat list \<Rightarrow> string" where
  "generate_random_message draws = ''0x'' @ map (\<lambda>d. hex_chars ! d) draws"

definition draws_ok :: "nat list \<Rightarrow> bool" where
  "draws_ok draws \<longleftrightarrow> length draws = 32 \<and> (\<forall>d\<in>set draws. d < 16)"

definition random_request :: "nat list \<Rightarrow> FeedWriteRequest" where
  "random_request draws = \<lparr>fr_namespace = ''dato'', fr_message = generate_random_message draws\<rparr>"

section \<open>Events\<close>

text \<open>
  \<^verbatim>\<open>calculate_and_print_statistics\<close>: the average printed, rounded down to a nanosecond. \<open>None\<close> is a
  panic: the sum exceeds the range of \<^verbatim>\<open>Duration\<close>, or the count, cast to \<^verbatim>\<open>u32\<close>, is zero.
\<close>

definition calculate_and_print_statistics :: "nat list \<Rightarrow> nat option" where
  "calculate_and_print_statistics durations =
     (let count = length durations mod 2 ^ 32; sum = sum_list durations in
      if 2 ^ 64 * 1000000000 \<le> sum \<or> count = 0 then None else Some (sum div count))"

text \<open>
  The three times of the message that is logged: the last, the median and the first of the
  certificate, each with its own reading of the wall clock and of the elapsed time.
\<close>

definition logged_times ::
  "profile \<Rightarrow> (nat \<Rightarrow> int \<times> nat) \<Rightarrow> nat \<Rightarrow> Timestamp \<Rightarrow> Timestamp list \<Rightarrow> (nat \<times> nat \<times> nat) option" where
  "logged_times p clock start_time median timestamps =
     (let since = (\<lambda>k t. ts_duration_since p (fst (clock k :: int \<times> nat)) (snd (clock k) - start_time) t) in
      case since 0 (timestamps ! (length timestamps - 1)) of
        None \<Rightarrow> None
      | Some d0 \<Rightarrow>
          (case since 1 median of
             None \<Rightarrow> None
           | Some d1 \<Rightarrow>
               (case since 2 (timestamps ! 0) of None \<Rightarrow> None | Some d2 \<Rightarrow> Some (d0, d1, d2))))"

text \<open>
  A certified record arrives. \<open>enabled\<close> says whether the log level makes \<^verbatim>\<open>info!\<close> evaluate its
  arguments. The second component is \<open>False\<close> when the task panicked, the first what it left behind.
\<close>

definition on_record ::
  "profile \<Rightarrow> ('sk, 'pk, 'sig, 'agg) lib \<Rightarrow> bool \<Rightarrow> Args \<Rightarrow> (nat \<Rightarrow> int \<times> nat) \<Rightarrow>
     'agg CertifiedRecord \<Rightarrow> feed \<Rightarrow> feed \<times> bool" where
  "on_record p L enabled args clock record st =
     (case certified_timestamp p record of
        None \<Rightarrow> (st, False)
      | Some (median, record) \<Rightarrow>
          (let key = hex_encode_prefixed L (msg_bytes (cr_message record)) in
           case f_timestamps st key of
             None \<Rightarrow> (st, True)
           | Some start_time \<Rightarrow>
               (let st = st\<lparr>f_timestamps := (f_timestamps st)(key := None)\<rparr> in
                if enabled \<and> logged_times p clock start_time median (cr_timestamps record) = None then (st, False)
                else
                  (let duration = snd (clock 3) - start_time;
                       st = st\<lparr>f_durations := f_durations st @ [duration]\<rparr>
                   in if length (f_durations st) = unat (logs_batch_size args)
                      then (case calculate_and_print_statistics (f_durations st) of
                              None \<Rightarrow> (st, False)
                            | Some avg \<Rightarrow> (st\<lparr>f_durations := [], f_printed := f_printed st @ [avg]\<rparr>, True))
                      else (st, True)))))"

datatype source_event = Opened | MessageData string | SourceError

fun on_event ::
  "profile \<Rightarrow> ('sk, 'pk, 'sig, 'agg) lib \<Rightarrow> (string \<Rightarrow> 'agg CertifiedRecord option) \<Rightarrow> bool \<Rightarrow> Args \<Rightarrow>
     (nat \<Rightarrow> int \<times> nat) \<Rightarrow> source_event \<Rightarrow> feed \<Rightarrow> feed \<times> bool" where
  "on_event p L parse enabled args clock Opened st = (st, True)"
| "on_event p L parse enabled args clock (MessageData data) st =
     (case parse data of
        None \<Rightarrow> (st, False)
      | Some record \<Rightarrow> on_record p L enabled args clock record st)"
| "on_event p L parse enabled args clock SourceError st = (st, True)"

section \<open>The tasks\<close>

text \<open>
  The sending loop of \<^verbatim>\<open>main\<close> with its semaphore of 100 permits, the request tasks it has spawned,
  and the event task, which is dead after a panic.
\<close>

record feed_world =
  fw_feed :: feed
  fw_remaining :: nat
  fw_in_flight :: "FeedWriteRequest multiset"
  fw_dead :: bool

definition feed_init :: "Args \<Rightarrow> feed_world" where
  "feed_init args =
     \<lparr>fw_feed = \<lparr>f_timestamps = Map.empty, f_durations = [], f_printed = []\<rparr>,
      fw_remaining = unat (num_txns args), fw_in_flight = {#}, fw_dead = False\<rparr>"

inductive feed_step ::
  "profile \<Rightarrow> ('sk, 'pk, 'sig, 'agg) lib \<Rightarrow> (string \<Rightarrow> 'agg CertifiedRecord option) \<Rightarrow> bool \<Rightarrow> Args \<Rightarrow>
     feed_world \<Rightarrow> feed_world \<Rightarrow> bool"
  for p L parse enabled args where
  send: "fw_remaining w = Suc n \<Longrightarrow> size (fw_in_flight w) < 100 \<Longrightarrow> draws_ok draws \<Longrightarrow>
    feed_step p L parse enabled args w
      (w\<lparr>fw_remaining := n, fw_in_flight := add_mset (random_request draws) (fw_in_flight w)\<rparr>)"
| response: "request \<in># fw_in_flight w \<Longrightarrow>
    feed_step p L parse enabled args w
      (w\<lparr>fw_in_flight := fw_in_flight w - {#request#},
         fw_feed := send_write_request request outcome now (fw_feed w)\<rparr>)"
| event: "\<not> fw_dead w \<Longrightarrow> on_event p L parse enabled args clock e (fw_feed w) = (st, alive) \<Longrightarrow>
    feed_step p L parse enabled args w (w\<lparr>fw_feed := st, fw_dead := \<not> alive\<rparr>)"

inductive feed_reachable ::
  "profile \<Rightarrow> ('sk, 'pk, 'sig, 'agg) lib \<Rightarrow> (string \<Rightarrow> 'agg CertifiedRecord option) \<Rightarrow> bool \<Rightarrow> Args \<Rightarrow>
     feed_world \<Rightarrow> bool"
  for p L parse enabled args where
  init: "feed_reachable p L parse enabled args (feed_init args)"
| step: "feed_reachable p L parse enabled args w \<Longrightarrow> feed_step p L parse enabled args w w' \<Longrightarrow>
    feed_reachable p L parse enabled args w'"

section \<open>Accounting\<close>

text \<open>
  Every transaction is counted once: it is still to be sent, in flight, waiting for its
  certificate, in the current batch, or in a printed batch; a failed one drops out.
\<close>

definition feed_account :: "Args \<Rightarrow> feed \<Rightarrow> nat" where
  "feed_account args st =
     card (dom (f_timestamps st)) + length (f_durations st) + unat (logs_batch_size args) * length (f_printed st)"

definition feed_ok :: "Args \<Rightarrow> feed_world \<Rightarrow> bool" where
  "feed_ok args w \<longleftrightarrow> finite (dom (f_timestamps (fw_feed w))) \<and> size (fw_in_flight w) \<le> 100 \<and>
     (\<not> fw_dead w \<longrightarrow> 0 < unat (logs_batch_size args) \<longrightarrow>
        length (f_durations (fw_feed w)) < unat (logs_batch_size args)) \<and>
     feed_account args (fw_feed w) + size (fw_in_flight w) + fw_remaining w \<le> unat (num_txns args)"

text \<open>What an event can do to the shared state.\<close>

lemma on_record_cases:
  assumes "on_record p L enabled args clock record st = (st', alive)"
  obtains (kept) "st' = st"
    | (taken) k t where "f_timestamps st k = Some t" "f_timestamps st' = (f_timestamps st)(k := None)"
        "f_durations st' = f_durations st" "f_printed st' = f_printed st" "\<not> alive"
    | (counted) k t where "f_timestamps st k = Some t" "f_timestamps st' = (f_timestamps st)(k := None)"
        "f_durations st' = f_durations st @ [snd (clock 3) - t]" "f_printed st' = f_printed st"
        "alive \<Longrightarrow> length (f_durations st) + 1 \<noteq> unat (logs_batch_size args)"
    | (printed) k t avg where "f_timestamps st k = Some t" "f_timestamps st' = (f_timestamps st)(k := None)"
        "length (f_durations st) + 1 = unat (logs_batch_size args)" "f_durations st' = []"
        "f_printed st' = f_printed st @ [avg]"
proof (cases "certified_timestamp p record")
  case None
  with assms kept show thesis by (simp add: on_record_def)
next
  case (Some x)
  obtain median record' where x: "x = (median, record')" by (cases x)
  let ?k = "hex_encode_prefixed L (msg_bytes (cr_message record'))"
  show thesis
  proof (cases "f_timestamps st ?k")
    case None
    with assms Some x kept show thesis by (simp add: on_record_def)
  next
    case t: (Some t)
    show thesis
    proof (cases "enabled \<and> logged_times p clock t median (cr_timestamps record') = None")
      case True
      with assms Some x t show thesis by (intro taken [OF t]) (auto simp: on_record_def Let_def)
    next
      case logged: False
      show thesis
      proof (cases "length (f_durations st) + 1 = unat (logs_batch_size args)")
        case True
        show thesis
        proof (cases "calculate_and_print_statistics (f_durations st @ [snd (clock 3) - t])")
          case None
          with assms Some x t logged True show thesis by (intro counted [OF t]) (auto simp: on_record_def Let_def)
        next
          case (Some avg)
          with assms \<open>certified_timestamp p record = Some x\<close> x t logged True show thesis
            by (intro printed [OF t]) (auto simp: on_record_def Let_def)
        qed
      next
        case False
        with assms Some x t logged show thesis by (intro counted [OF t]) (auto simp: on_record_def Let_def)
      qed
    qed
  qed
qed

lemma card_dom_update_None:
  assumes "finite (dom m)" "m k = Some t"
  shows "card (dom (m(k := None))) + 1 = card (dom m)"
proof -
  have "k \<in> dom m" using assms(2) by auto
  then show ?thesis using assms(1) card_Suc_Diff1 [of "dom m" k] by simp
qed

lemma on_event_account:
  assumes "on_event p L parse enabled args clock e st = (st', alive)" "finite (dom (f_timestamps st))"
    and "0 < unat (logs_batch_size args) \<longrightarrow> length (f_durations st) < unat (logs_batch_size args)"
  shows "finite (dom (f_timestamps st'))" "feed_account args st' \<le> feed_account args st"
    "alive \<longrightarrow> 0 < unat (logs_batch_size args) \<longrightarrow> length (f_durations st') < unat (logs_batch_size args)"
proof -
  have "finite (dom (f_timestamps st')) \<and> feed_account args st' \<le> feed_account args st \<and>
    (alive \<longrightarrow> 0 < unat (logs_batch_size args) \<longrightarrow> length (f_durations st') < unat (logs_batch_size args))"
  proof (cases "\<exists>data record. e = MessageData data \<and> parse data = Some record")
    case False
    with assms show ?thesis by (cases e) (auto split: option.splits)
  next
    case True
    then obtain cr where "on_record p L enabled args clock cr st = (st', alive)" using assms(1) by auto
    then show ?thesis
    proof (cases rule: on_record_cases)
      case kept
      with assms(2,3) show ?thesis by simp
    next
      case (taken k t)
      with card_dom_update_None [OF assms(2) taken(1)] assms(2) show ?thesis by (simp add: feed_account_def)
    next
      case (counted k t)
      with card_dom_update_None [OF assms(2) counted(1)] assms(2,3) show ?thesis by (auto simp: feed_account_def)
    next
      case (printed k t avg)
      with card_dom_update_None [OF assms(2) printed(1)] assms(2) show ?thesis
        by (auto simp: feed_account_def algebra_simps)
    qed
  qed
  then show "finite (dom (f_timestamps st'))" "feed_account args st' \<le> feed_account args st"
    "alive \<longrightarrow> 0 < unat (logs_batch_size args) \<longrightarrow> length (f_durations st') < unat (logs_batch_size args)" by auto
qed

lemma send_write_request_account:
  assumes "finite (dom (f_timestamps st))"
  shows "finite (dom (f_timestamps (send_write_request request outcome now st)))"
    "feed_account args (send_write_request request outcome now st) \<le> feed_account args st + 1"
    "f_durations (send_write_request request outcome now st) = f_durations st"
  using assms by (auto simp: send_write_request_def feed_account_def card_insert_if split: http_outcome.split)

lemma feed_ok_step:
  assumes "feed_step p L parse enabled args w w'" "feed_ok args w"
  shows "feed_ok args w'"
  using assms
proof cases
  case (send n draws)
  with assms(2) show ?thesis by (simp add: feed_ok_def)
next
  case (response request outcome now)
  have "size (fw_in_flight w - {#request#}) + 1 = size (fw_in_flight w)"
    using response(2) by (metis Suc_eq_plus1 insert_DiffM size_add_mset)
  with response assms(2) send_write_request_account(1) [of "fw_feed w" request outcome now]
    send_write_request_account(2) [of "fw_feed w" args request outcome now] show ?thesis
    by (auto simp: feed_ok_def send_write_request_account(3))
next
  case (event clock e st alive)
  with assms(2) on_event_account [OF event(3)] show ?thesis by (auto simp: feed_ok_def)
qed

lemma feed_ok_reachable: "feed_reachable p L parse enabled args w \<Longrightarrow> feed_ok args w"
proof (induction rule: feed_reachable.induct)
  case init
  show ?case by (simp add: feed_ok_def feed_init_def feed_account_def)
next
  case (step w w')
  then show ?case using feed_ok_step by blast
qed

section \<open>Messages\<close>

text \<open>
  Decoding and encoding lower-case hex with the prefix give back the string: a property of
  \<^verbatim>\<open>alloy::hex\<close> on strings with an even number of digits.
\<close>

definition hex_canonical :: "('sk, 'pk, 'sig, 'agg) lib \<Rightarrow> bool" where
  "hex_canonical L \<longleftrightarrow>
     (\<forall>s. set s \<subseteq> set hex_chars \<longrightarrow> even (length s) \<longrightarrow>
        (\<exists>bs. hex_decode L (''0x'' @ s) = Some bs \<and> hex_encode_prefixed L bs = ''0x'' @ s))"

lemma random_message_hex:
  assumes "draws_ok draws" "hex_canonical L"
  shows "\<exists>bs. hex_decode L (generate_random_message draws) = Some bs \<and>
    hex_encode_prefixed L bs = generate_random_message draws"
proof -
  have "hex_chars ! d \<in> set hex_chars" if "d < 16" for d
    using that by (intro nth_mem) (simp add: hex_chars_def)
  then have "set (map (\<lambda>d. hex_chars ! d) draws) \<subseteq> set hex_chars" using assms(1) by (auto simp: draws_ok_def)
  moreover have "even (length (map (\<lambda>d. hex_chars ! d) draws))" using assms(1) by (simp add: draws_ok_def)
  ultimately show ?thesis using assms(2) unfolding hex_canonical_def generate_random_message_def by blast
qed

lemma hex_value_chars:
  assumes "c \<in> set hex_chars"
  shows "hex_value c < 16" "hex_digit (hex_value c) = c"
proof -
  have "\<forall>c\<in>set hex_chars. hex_value c < 16 \<and> hex_digit (hex_value c) = c" by code_simp
  with assms show "hex_value c < 16" "hex_digit (hex_value c) = c" by blast+
qed

lemma toy_hex_unhex:
  "set s \<subseteq> set hex_chars \<Longrightarrow> even (length s) \<Longrightarrow> \<exists>bs. toy_unhex s = Some bs \<and> toy_hex bs = s"
proof (induction s rule: toy_unhex.induct)
  case (3 c d s)
  then obtain bs where bs: "toy_unhex s = Some bs" "toy_hex bs = s" by auto
  let ?n = "16 * hex_value c + hex_value d"
  have v: "hex_value c < 16" "hex_value d < 16" "hex_digit (hex_value c) = c" "hex_digit (hex_value d) = d"
    using 3(2) hex_value_chars by auto
  then have "?n < 256" by (simp del: hex_value.simps)
  then have "unat (of_nat ?n :: 8 word) = ?n" by (simp only: unat_of_nat) simp
  with v bs show ?case by (simp del: hex_value.simps hex_digit.simps of_nat_add of_nat_mult)
qed simp_all

lemma toy_hex_canonical: "hex_canonical toy_lib"
  using toy_hex_unhex by (simp add: hex_canonical_def toy_lib_def)

section \<open>Properties\<close>

text \<open>
  C39: whatever the order of sends, responses and events, the demonstration never has more than 100
  requests in flight, its batch stays below the batch size while the event task lives, and every
  transaction is counted at most once: to be sent, in flight, waiting, in the batch or printed.
\<close>

theorem feed_invariant:
  assumes "feed_reachable p L parse enabled args w"
  shows "size (fw_in_flight w) \<le> 100 \<and> finite (dom (f_timestamps (fw_feed w))) \<and>
    (\<not> fw_dead w \<longrightarrow> 0 < unat (logs_batch_size args) \<longrightarrow>
       length (f_durations (fw_feed w)) < unat (logs_batch_size args)) \<and>
    fw_remaining w + size (fw_in_flight w) + card (dom (f_timestamps (fw_feed w))) +
      length (f_durations (fw_feed w)) + unat (logs_batch_size args) * length (f_printed (fw_feed w))
    \<le> unat (num_txns args)"
  using feed_ok_reachable [OF assms] by (simp add: feed_ok_def feed_account_def)

theorem feed_invariant_witness:
  "\<exists>w :: feed_world. fw_in_flight w = {#random_request (replicate 32 7)#} \<and>
     fw_remaining w + size (fw_in_flight w) + card (dom (f_timestamps (fw_feed w))) +
       length (f_durations (fw_feed w)) + 100 * length (f_printed (fw_feed w)) \<le> 1000"
proof -
  let ?w = "\<lparr>fw_feed = \<lparr>f_timestamps = Map.empty, f_durations = [], f_printed = []\<rparr>, fw_remaining = 999,
    fw_in_flight = {#random_request (replicate 32 7)#}, fw_dead = False\<rparr>"
  have "feed_step Dev toy_lib (\<lambda>_. None) True default_args (feed_init default_args) ?w"
  proof -
    have "fw_remaining (feed_init default_args) = Suc 999" by (simp add: feed_init_def default_args_def)
    moreover have "size (fw_in_flight (feed_init default_args)) < 100" by (simp add: feed_init_def)
    moreover have "draws_ok (replicate 32 7)" by (simp add: draws_ok_def)
    moreover have "?w = feed_init default_args\<lparr>fw_remaining := 999,
        fw_in_flight := add_mset (random_request (replicate 32 7)) (fw_in_flight (feed_init default_args))\<rparr>"
      by (simp add: feed_init_def)
    ultimately show ?thesis by (metis feed_step.send)
  qed
  note feed_reachable.step [OF feed_reachable.init this]
  from feed_invariant [OF this] have inv: "fw_in_flight ?w = {#random_request (replicate 32 7)#} \<and>
     fw_remaining ?w + size (fw_in_flight ?w) + card (dom (f_timestamps (fw_feed ?w))) +
       length (f_durations (fw_feed ?w)) + 100 * length (f_printed (fw_feed ?w)) \<le> 1000"
    by (simp add: default_args_def)
  show ?thesis by (rule exI [of _ ?w]) (rule inv)
qed

text \<open>
  The certificate of a random message, arriving after the response to its write, adds one
  duration to the batch, from the response to the event, and takes the message off the map. When it
  arrives before the response, it is dropped without a trace, and no duration is recorded for it.
\<close>

theorem feed_measures:
  assumes "draws_ok draws" "hex_canonical L" "hex_decode L (generate_random_message draws) = Some bs"
    and "parse data = Some record" "msg_bytes (cr_message record) = bs" "is_success status"
    and "certified_timestamp p record = Some (median, record')"
    and "enabled \<longrightarrow> logged_times p clock t0 median (cr_timestamps record') \<noteq> None"
    and "length (f_durations st) + 1 \<noteq> unat (logs_batch_size args)"
    and "f_timestamps st (generate_random_message draws) = None"
  shows "on_event p L parse enabled args clock (MessageData data)
       (send_write_request (random_request draws) (Answered status) t0 st) =
       (st\<lparr>f_durations := f_durations st @ [snd (clock 3) - t0]\<rparr>, True) \<and>
     on_event p L parse enabled args clock (MessageData data) st = (st, True)"
proof -
  have key: "hex_encode_prefixed L bs = generate_random_message draws"
    using random_message_hex [OF assms(1,2)] assms(3) by auto
  have "cr_message record' = cr_message record" using assms(7) by (auto simp: certified_timestamp_def Let_def)
  moreover have "(f_timestamps st)(generate_random_message draws := None) = f_timestamps st" using assms(10) by auto
  ultimately show ?thesis using assms(4-10) key
    by (auto simp: on_record_def Let_def send_write_request_def random_request_def)
qed

theorem feed_measures_witness:
  "\<exists>bs. fst (on_event Dev toy_lib
      (\<lambda>_. Some \<lparr>cr_timestamps = [Timestamp 3000], cr_message = Message bs, cr_quorum_signature = []\<rparr>)
      True default_args (\<lambda>k. (5000000000, 1000000000 + k)) (MessageData [])
      (send_write_request (random_request (replicate 32 7)) (Answered 200) 900000000
         \<lparr>f_timestamps = Map.empty, f_durations = [], f_printed = []\<rparr>)) =
     \<lparr>f_timestamps = Map.empty, f_durations = [100000003], f_printed = []\<rparr>"
proof -
  let ?draws = "replicate 32 (7 :: nat)" and ?st = "\<lparr>f_timestamps = Map.empty, f_durations = [], f_printed = []\<rparr>"
  let ?clock = "\<lambda>k. (5000000000 :: int, 1000000000 + k :: nat)"
  have ok: "draws_ok ?draws" by (simp add: draws_ok_def)
  obtain bs where bs: "hex_decode toy_lib (generate_random_message ?draws) = Some bs"
    using random_message_hex [OF ok toy_hex_canonical] by auto
  let ?r = "\<lparr>cr_timestamps = [Timestamp 3000], cr_message = Message bs, cr_quorum_signature = [] :: toy_sig list\<rparr>"
  have c: "certified_timestamp Dev ?r = Some (Timestamp 3000, ?r)"
    by (simp add: certified_timestamp_def median_timestamp_def)
  have "on_event Dev toy_lib (\<lambda>_. Some ?r) True default_args ?clock (MessageData [])
      (send_write_request (random_request ?draws) (Answered 200) 900000000 ?st) =
      (?st\<lparr>f_durations := f_durations ?st @ [snd (?clock 3) - 900000000]\<rparr>, True)"
    by (rule feed_measures [OF ok toy_hex_canonical bs _ _ _ c, THEN conjunct1])
      (simp_all add: is_success_def default_args_def logged_times_def ts_duration_since_def)
  then show ?thesis by (intro exI [of _ bs]) simp
qed

end
