(* ===== verification/ContractBalance.thy ===== *)
theory ContractBalance
  imports Contract
begin

text \<open>
  The ether held by the registry contract, and the transactions with the calls that happen inside
  them: \<^verbatim>\<open>withdrawAllStake\<close> sends the stake before it removes the validator, and whoever receives it
  may call the contract again before the withdrawal goes on.
\<close>

section \<open>Transactions with callbacks\<close>

type_synonym chain = "ValidatorRegistry \<times> nat"

text \<open>
  The part of \<^verbatim>\<open>withdrawAllStake\<close> up to the end of the transfer: the checks, clearing the stake, and
  sending it, which needs the ether to be there. The rest is \<^verbatim>\<open>removeValidator\<close>.
\<close>

definition withdraw_begin :: "address \<Rightarrow> chain \<Rightarrow> chain option" where
  "withdraw_begin sender ch =
     (let s = fst ch; v = sc_validators s sender; amount = unat (sol_stake v) in
      if \<not> sol_exists v then None
      else if snd ch < amount then None
      else Some (s\<lparr>sc_validators := (sc_validators s)(sender := v\<lparr>sol_stake := 0\<rparr>)\<rparr>, snd ch - amount))"

text \<open>
  One transaction, and a sequence of them, which may also happen inside a withdrawal. Anybody can
  force ether on the contract without calling it. A reverted call leaves nothing behind.
\<close>

inductive call :: "chain \<Rightarrow> chain \<Rightarrow> bool" and calls :: "chain \<Rightarrow> chain \<Rightarrow> bool" where
  register: "registerValidator a x key sock stake s = Some s' \<Longrightarrow> call (s, b) (s', b + unat x)"
| deposit: "depositStake a x s = Some s' \<Longrightarrow> call (s, b) (s', b + unat x)"
| withdraw: "withdraw_begin a (s, b) = Some ch \<Longrightarrow> calls ch (s', b') \<Longrightarrow> removeValidator a s' = Some s'' \<Longrightarrow>
    call (s, b) (s'', b')"
| forced: "call (s, b) (s, b + n)"
| none: "calls ch ch"
| more: "call ch ch' \<Longrightarrow> calls ch' ch'' \<Longrightarrow> calls ch ch''"

text \<open>Without callbacks a withdrawal is the transaction of the storage model.\<close>

lemma withdraw_plain:
  assumes "sol_exists (sc_validators s a)" "unat (sol_stake (sc_validators s a)) \<le> b"
  obtains s' where "withdrawAllStake a True s = Some s'"
    "call (s, b) (s', b - unat (sol_stake (sc_validators s a)))"
proof -
  let ?v = "sc_validators s a"
  let ?s = "s\<lparr>sc_validators := (sc_validators s)(a := ?v\<lparr>sol_stake := 0\<rparr>)\<rparr>"
  obtain s' where s': "removeValidator a ?s = Some s'" using assms(1) by (simp add: removeValidator_def Let_def)
  have "withdraw_begin a (s, b) = Some (?s, b - unat (sol_stake ?v))"
    using assms by (simp add: withdraw_begin_def Let_def)
  from call_calls.withdraw [OF this call_calls.none s'] have "call (s, b) (s', b - unat (sol_stake ?v))" .
  moreover have "withdrawAllStake a True s = Some s'" using assms(1) s' by (simp add: withdrawAllStake_def Let_def)
  ultimately show thesis using that by blast
qed

section \<open>The sum of the stakes\<close>

definition stakes :: "ValidatorRegistry \<Rightarrow> nat" where
  "stakes s = (\<Sum>a\<in>UNIV. unat (sol_stake (sc_validators s a)))"

text \<open>Changing the entry of one validator.\<close>

lemma stakes_update:
  assumes "sc_validators s' = (sc_validators s)(a := v)"
  shows "stakes s' + unat (sol_stake (sc_validators s a)) = stakes s + unat (sol_stake v)"
proof -
  have split: "stakes r = unat (sol_stake (sc_validators r a)) + (\<Sum>b\<in>UNIV - {a}. unat (sol_stake (sc_validators r b)))"
    for r unfolding stakes_def by (rule sum.remove) simp_all
  have "(\<Sum>b\<in>UNIV - {a}. unat (sol_stake (sc_validators s' b))) = (\<Sum>b\<in>UNIV - {a}. unat (sol_stake (sc_validators s b)))"
    by (rule sum.cong) (simp_all add: assms)
  then show ?thesis using split [of s] split [of s'] assms by simp
qed

lemma stake_le_stakes: "unat (sol_stake (sc_validators s a)) \<le> stakes s"
  unfolding stakes_def by (rule member_le_sum) simp_all

lemma stakes_new: "stakes (constructor m) = 0"
  by (simp add: stakes_def constructor_def no_validator_def)

lemma stakes_register:
  assumes "registerValidator a x key sock stake s = Some s'"
  shows "stakes s' \<le> stakes s + unat x"
proof -
  from assms have "x = stake" and "sc_validators s' = (sc_validators s)(a := \<lparr>sol_index = sc_validatorCount s,
      sol_blsPubKey = key, sol_stake = stake, sol_socket = sock, sol_exists = True\<rparr>)"
    by (auto simp: registerValidator_def split: if_splits)
  with stakes_update [OF this(2)] show ?thesis by simp
qed

lemma stakes_deposit:
  assumes "depositStake a x s = Some s'"
  shows "stakes s' = stakes s + unat x"
proof -
  let ?v = "sc_validators s a"
  from assms have no: "unat (sol_stake ?v) + unat x < 2 ^ 256"
    and s': "sc_validators s' = (sc_validators s)(a := ?v\<lparr>sol_stake := sol_stake ?v + x\<rparr>)"
    by (auto simp: depositStake_def Let_def split: if_splits)
  have "unat (sol_stake ?v + x) = unat (sol_stake ?v) + unat x" using no by (simp add: unat_word_ariths)
  with stakes_update [OF s'] show ?thesis by simp
qed

lemma stakes_withdraw_begin:
  assumes "withdraw_begin a (s, b) = Some (s', b')"
  shows "stakes s' + b = stakes s + b'" "b' \<le> b"
proof -
  let ?v = "sc_validators s a"
  from assms have b: "unat (sol_stake ?v) \<le> b" "b' = b - unat (sol_stake ?v)"
    and s': "sc_validators s' = (sc_validators s)(a := ?v\<lparr>sol_stake := 0\<rparr>)"
    by (auto simp: withdraw_begin_def Let_def split: if_splits)
  with stakes_update [OF s'] show "stakes s' + b = stakes s + b'" "b' \<le> b" by simp_all
qed

lemma stakes_remove:
  assumes "removeValidator a s = Some s'"
  shows "stakes s' \<le> stakes s"
proof -
  from assms have "sc_validators s' = (sc_validators s)(a := no_validator)"
    by (auto simp: removeValidator_def Let_def split: if_splits)
  from stakes_update [OF this] show ?thesis by (simp add: no_validator_def)
qed

section \<open>The invariant\<close>

text \<open>The stakes are covered and the storage is in order, whatever is called from inside a withdrawal.\<close>

definition chain_ok :: "chain \<Rightarrow> bool" where
  "chain_ok ch \<longleftrightarrow> stakes (fst ch) \<le> snd ch \<and> storage_ok (fst ch)"

lemma chain_ok_withdraw_begin:
  assumes "withdraw_begin a ch = Some ch'" "chain_ok ch"
  shows "chain_ok ch'"
proof -
  obtain s b s' b' where ch: "ch = (s, b)" "ch' = (s', b')" by (cases ch, cases ch') blast
  have "storage_ok s'"
    using assms ch by (auto simp: withdraw_begin_def chain_ok_def storage_ok_def Let_def split: if_splits)
  with stakes_withdraw_begin [of a s b s' b'] assms ch show ?thesis by (simp add: chain_ok_def)
qed

lemma chain_ok_calls:
  "call ch ch' \<Longrightarrow> chain_ok ch \<Longrightarrow> chain_ok ch'"
  "calls ch ch' \<Longrightarrow> chain_ok ch \<Longrightarrow> chain_ok ch'"
proof (induction rule: call_calls.inducts)
  case (register a x key sock stake s s' b)
  then show ?case using stakes_register [OF register(1)] storage_ok_register [OF _ register(1)] by (simp add: chain_ok_def)
next
  case (deposit a x s s' b)
  then show ?case using stakes_deposit [OF deposit(1)] storage_ok_deposit(1) [OF _ deposit(1)] by (simp add: chain_ok_def)
next
  case (withdraw a s b ch s' b' s'')
  then have "chain_ok (s', b')" using chain_ok_withdraw_begin by blast
  then show ?case
    using stakes_remove [OF withdraw(3)] storage_ok_remove(1) [OF _ withdraw(3)] by (simp add: chain_ok_def)
qed (simp_all add: chain_ok_def)

lemma chain_ok_new: "chain_ok (constructor m, 0)"
  using storage_ok_deployed [OF deployed.created] by (simp add: chain_ok_def stakes_new)

text \<open>
  C27: the registry contract is solvent: after any transactions, with any calls from inside
  withdrawals, the ether it holds covers the sum of all stakes, so every registered validator can
  withdraw its stake, which takes exactly that amount and removes the validator.
\<close>

theorem contract_solvent:
  assumes "calls (constructor m, 0) (s, b)"
  shows "stakes s \<le> b \<and> storage_ok s \<and>
    (\<forall>a. sol_exists (sc_validators s a) \<longrightarrow>
       (\<exists>s'. withdrawAllStake a True s = Some s' \<and> \<not> sol_exists (sc_validators s' a) \<and>
          call (s, b) (s', b - unat (sol_stake (sc_validators s a)))))"
proof -
  have ok: "stakes s \<le> b" "storage_ok s"
    using chain_ok_calls(2) [OF assms chain_ok_new] by (simp_all add: chain_ok_def)
  have "\<exists>s'. withdrawAllStake a True s = Some s' \<and> \<not> sol_exists (sc_validators s' a) \<and>
      call (s, b) (s', b - unat (sol_stake (sc_validators s a)))" if a: "sol_exists (sc_validators s a)" for a
  proof -
    obtain s' where s': "withdrawAllStake a True s = Some s'" "call (s, b) (s', b - unat (sol_stake (sc_validators s a)))"
      using withdraw_plain [OF a order.trans [OF stake_le_stakes ok(1)]] by blast
    then have "\<not> sol_exists (sc_validators s' a)"
      by (auto simp: withdrawAllStake_def removeValidator_def no_validator_def Let_def split: if_splits)
    with s' show ?thesis by blast
  qed
  with ok show ?thesis by blast
qed

text \<open>Two validators; the first one registers again from inside its withdrawal, and loses that stake.\<close>

definition two_registered :: ValidatorRegistry where
  "two_registered = the (registerValidator 2 7 [2] ''b'' 7 (the (registerValidator 1 5 [1] ''a'' 5 (constructor 0))))"

theorem contract_solvent_witness: "stakes two_registered \<le> 12 \<and> storage_ok two_registered"
proof -
  let ?one = "the (registerValidator 1 5 [1] ''a'' 5 (constructor 0))"
  have one: "registerValidator 1 5 [1] ''a'' 5 (constructor 0) = Some ?one"
    by (simp add: registerValidator_def constructor_def no_validator_def)
  have two: "registerValidator 2 7 [2] ''b'' 7 ?one = Some two_registered"
    unfolding two_registered_def by (simp add: registerValidator_def constructor_def no_validator_def)
  have "call (constructor 0, 0) (?one, 0 + unat (5 :: u256))" by (rule call_calls.register [OF one])
  moreover have "call (?one, 0 + unat (5 :: u256)) (two_registered, 0 + unat (5 :: u256) + unat (7 :: u256))"
    by (rule call_calls.register [OF two])
  ultimately have "calls (constructor 0, 0) (two_registered, 0 + unat (5 :: u256) + unat (7 :: u256))"
    by (rule call_calls.more [OF _ call_calls.more [OF _ call_calls.none]])
  from contract_solvent [OF this] show ?thesis by simp
qed

end
