(* ===== verification/Deployment.thy ===== *)
theory Deployment
  imports System ClientProperties RegistryProperties
begin

text \<open>
  A network from its configuration: the key generator writes the file that the client reads and that
  holds the secret keys the validators are started with.
\<close>

section \<open>A write that everybody answers\<close>

lemma json_request: "json_faithful J \<Longrightarrow> request_to_vec J req \<noteq> None"
  unfolding json_faithful_def codec_def by (metis option.distinct(1))

lemma answers_in_order:
  assumes "dense c" "client_ok c" "distinct order" "set order = {..<validator_count c}"
  shows "completion_order c (map (\<lambda>i. (i, f i)) order)"
proof -
  have "map fst (map (\<lambda>i. (i, f i)) order) = order" by (simp add: comp_def)
  then have "distinct (map fst (map (\<lambda>i. (i, f i)) order))" using assms(3) by simp
  then show ?thesis
    using assms by (simp add: completion_order_def dense_def client_ok_def image_image)
qed

lemma write_all_honest:
  assumes "bls_correct L" "agg_unchecked_total L" "json_faithful J"
    and "dense c" "client_ok c" "validator_count c \<noteq> 0" "validator_count c \<noteq> 4"
    and "distinct order" "set order = {..<validator_count c}"
    and "\<forall>i<validator_count c. validators c i = Some (sk_to_pk L (v_secret_key (v i))) \<and>
      (\<exists>t. ts_now (clock i) = Some t \<and> lo \<le> t \<and> t \<le> hi)"
    and "ts_nat hi < 2 ^ 127"
  shows "\<exists>cert t. client_write p L J c ns m
      (map (\<lambda>i. (i, answer L J D (clock i) (v i) (Write ns m))) order) = Ok cert \<and>
    cr_message cert = m \<and> certified_timestamp p cert = Some (t, cert) \<and> lo \<le> t \<and> t \<le> hi"
proof -
  let ?n = "validator_count c" and ?cs = "map (\<lambda>i. (i, answer L J D (clock i) (v i) (Write ns m))) order"
  let ?q = "quorum_threshold (validator_count c)"
  have "\<forall>i\<in>set order. validators c i = Some (sk_to_pk L (v_secret_key (v i))) \<and>
      (\<exists>t. ts_now (clock i) = Some t \<and> lo \<le> t \<and> t \<le> hi)" using assms(9,10) by simp
  from honest_write [OF assms(1,3) this, of ns m D] obtain r where
    votes: "select (write_vote L J c ns m) (replies ?cs) = map (\<lambda>i. (i, r i)) order"
    and range: "\<forall>i\<in>set order. lo \<le> r_timestamp (r i) \<and> r_timestamp (r i) \<le> hi" by blast
  let ?votes = "map (\<lambda>i. (i, r i)) (take ?q order)"
  have len: "length ?votes = ?q"
    using distinct_card [OF assms(8)] assms(9) quorum_threshold_le [of ?n] by simp
  have fst: "map fst ?votes = take ?q order" by (simp add: comp_def)
  then have dist: "distinct (map fst ?votes)" using assms(8) by simp
  have idx: "fst ` set ?votes \<subseteq> {..<?n}" using assms(9) set_take_subset [of ?q order] by (auto simp: image_image)
  have q: "has_reached_quorum ?n (length ?votes)" unfolding len by simp
  have rng: "\<forall>(i, r)\<in>set ?votes. lo \<le> r_timestamp r \<and> r_timestamp r \<le> hi"
    using range set_take_subset [of ?q order] by auto
  have "client_write p L J c ns m ?cs = write_spec p L J c ns m ?cs"
    by (rule client_write_eq_spec [OF json_request [OF assms(3)] assms(2,6)
        dense_known [OF assms(4,5) answers_in_order [OF assms(4,5,8,9)]]])
  also have "\<dots> = certify p L ?n m ?votes" using len by (simp add: write_spec_def votes take_map Let_def)
  finally show ?thesis using certify_range [OF assms(2) dist idx assms(6,7) q rng assms(11), of p m] by simp
qed

section \<open>From the key file to a certificate\<close>

text \<open>The options a validator of the file is started with: the key in the second column of its line.\<close>

definition run_line :: "string \<Rightarrow> 16 word \<Rightarrow> ValidatorCliOpts" where
  "run_line line port =
     \<lparr>cmd = Run \<lparr>run_port = port, run_secret_key = split_on (CHR '','') line ! 1, run_backend = InMemory\<rparr>\<rparr>"

lemma validator_of_line:
  assumes "hex_roundtrip L" "sk_bytes_roundtrip L" "hex_alphabet L"
    and "bind_rep (any_addr, port) = Inr a" "bind_pub (any_addr, 0) = Inr a'"
  shows "\<exists>v. validator_main L bind_rep bind_pub (run_line (key_row L i sk) port) = Ok (Some v) \<and>
    v_secret_key v = sk \<and> v_store v = with_capacity 4096"
  using assms
  by (simp add: validator_main_def run_line_def split_key_row hex_roundtrip_def sk_bytes_roundtrip_def
      new_in_memory_def Validator_new_def)

text \<open>
  C2: a network started from the file of the key generator works: every line starts a validator, the
  file starts a client, and when all validators answer, in whatever order, \<^verbatim>\<open>write\<close> returns a
  certificate whose time lies in the range of the validators' clocks.
\<close>

theorem deployment_end_to_end:
  fixes L :: "('sk, 'pk, 'sig, 'agg) lib" and D :: "('m InMemoryStore, 'sig) DataStore"
  assumes "bls_correct L" "agg_unchecked_total L" "json_faithful J"
    and "hex_roundtrip L" "sk_bytes_roundtrip L" "pk_bytes_roundtrip L" "hex_alphabet L"
    and "gen_keys L rng = Some content" "registry_path opts = Some path"
    and "files path = Inr (map Inr (file_lines content))"
    and "\<forall>i. \<exists>a as. lookup (host_name i) = Inr (a # as)" "\<forall>a. connect a = None" "bind (api_port opts) = None"
    and "\<forall>port. bind_rep (any_addr, port) = Inr (any_addr, port)" "bind_pub (any_addr, 0) = Inr pub"
    and "distinct order" "set order = {..<1000}"
    and "\<forall>i<1000. \<exists>t. ts_now (clock i) = Some t \<and> lo \<le> t \<and> t \<le> hi" "ts_nat hi < 2 ^ 127"
  shows "\<exists>c v. client_main L files node lookup connect bind opts = Ok c \<and>
    (\<forall>i<1000. validator_main L bind_rep bind_pub (run_line (file_lines content ! i) (port i)) = Ok (Some (v i))) \<and>
    (\<exists>cert t. client_write p L J c ns m
        (map (\<lambda>i. (i, answer L J D (clock i) (v i) (Write ns m))) order) = Ok cert \<and>
      cr_message cert = m \<and> certified_timestamp p cert = Some (t, cert) \<and> lo \<le> t \<and> t \<le> hi)"
proof -
  obtain sk where lines: "file_lines content = map (\<lambda>i. key_row L i (sk i)) [0..<1000]"
    and rd: "read_from_file L path (files path) =
      Ok \<lparr>fr_path = path, fr_validators = map (\<lambda>i. key_info L i (sk i)) [0..<1000]\<rparr>"
    using read_generated [OF assms(4,6-8)] assms(10) by metis
  from client_of_generated [where files = files and bind = bind and sk = sk and lookup = lookup and connect = connect, OF rd assms(9,11-13)] obtain c where
    c: "client_main L files node lookup connect bind opts = Ok c" "dense c" "validator_count c = 1000" "client_ok c"
      "\<forall>i<1000. validators c i = Some (sk_to_pk L (sk i))" by blast
  have "\<exists>v :: ('m InMemoryStore, 'sk) Validator.
      validator_main L bind_rep bind_pub (run_line (key_row L i (sk i)) (port i)) = Ok (Some v) \<and>
      v_secret_key v = sk i" for i
    using validator_of_line [OF assms(4,5,7), of bind_rep "port i" "(any_addr, port i)" bind_pub pub i "sk i"] assms(14,15)
    by blast
  then obtain v :: "nat \<Rightarrow> ('m InMemoryStore, 'sk) Validator" where v: "\<forall>i. validator_main L bind_rep bind_pub (run_line (key_row L i (sk i)) (port i)) = Ok (Some (v i)) \<and>
      v_secret_key (v i) = sk i" by metis
  have "file_lines content ! i = key_row L i (sk i)" if "i < 1000" for i
    using that unfolding lines by (simp del: upt_rec_numeral)
  with v have vs: "\<forall>i<1000. validator_main L bind_rep bind_pub (run_line (file_lines content ! i) (port i)) = Ok (Some (v i))"
    by simp
  have "\<forall>i<validator_count c. validators c i = Some (sk_to_pk L (v_secret_key (v i))) \<and>
      (\<exists>t. ts_now (clock i) = Some t \<and> lo \<le> t \<and> t \<le> hi)"
    using c(5) v assms(18) by (simp add: c(3))
  from write_all_honest [OF assms(1-3) c(2,4) _ _ assms(16) _ this assms(19)] assms(17)
  have "\<exists>cert t. client_write p L J c ns m (map (\<lambda>i. (i, answer L J D (clock i) (v i) (Write ns m))) order) = Ok cert \<and>
      cr_message cert = m \<and> certified_timestamp p cert = Some (t, cert) \<and> lo \<le> t \<and> t \<le> hi"
    by (simp add: c(3))
  with c(1) vs show ?thesis by blast
qed

abbreviation sample_file :: string where
  "sample_file \<equiv> the (gen_keys toy_lib (\<lambda>i. replicate i 0))"

theorem deployment_end_to_end_witness:
  "\<exists>c (v :: nat \<Rightarrow> ((nat \<times> (B256 \<times> toy_sig Record) list) InMemoryStore, nat) Validator) cert t.
    client_main toy_lib (\<lambda>_. Inr (map Inr (file_lines sample_file)))
      (\<lambda>_ _. instance_of MissingRegistry (constructor 0)) (\<lambda>_. Inr [(any_addr, 1)]) (\<lambda>_. None) (\<lambda>_. None)
      CliOpts_test = Ok c \<and>
    validator_main toy_lib Inr Inr (run_line (file_lines sample_file ! 7) 8222) = Ok (Some (v 7)) \<and>
    client_write Dev toy_lib toy_json c [7] (Message [1]) (map (\<lambda>i. (i, answer toy_lib toy_json
      (in_memory toy_lib queue_fifo) 5000000 (v i) (Write [7] (Message [1])))) (rev [0..<1000])) = Ok cert \<and>
    certified_timestamp Dev cert = Some (t, cert) \<and> Timestamp 5 \<le> t \<and> t \<le> Timestamp 5"
proof -
  have gen: "gen_keys toy_lib (\<lambda>i. replicate i 0) = Some sample_file"
    using toy_gen_keys unfolding gen_keys_def by auto
  have path: "registry_path CliOpts_test = Some ''registry.txt''" by (simp add: CliOpts_test_def)
  have order: "distinct (rev [0..<1000])" "set (rev [0..<1000]) = {..<1000}"
    by (simp_all only: distinct_rev distinct_upt set_rev set_upt atLeast0LessThan)
  have clock: "\<forall>i<1000. \<exists>t. ts_now ((\<lambda>i :: nat. 5000000) i) = Some t \<and> Timestamp 5 \<le> t \<and> t \<le> Timestamp 5"
    by (simp add: ts_now_def)
  have hi: "ts_nat (Timestamp 5) < 2 ^ 127" by (simp add: ts_nat_def)
  have "\<exists>c (v :: nat \<Rightarrow> ((nat \<times> (B256 \<times> toy_sig Record) list) InMemoryStore, nat) Validator).
    client_main toy_lib (\<lambda>_. Inr (map Inr (file_lines sample_file)))
      (\<lambda>_ _. instance_of MissingRegistry (constructor 0)) (\<lambda>_. Inr [(any_addr, 1)]) (\<lambda>_. None) (\<lambda>_. None)
      CliOpts_test = Ok c \<and>
    (\<forall>i<1000. validator_main toy_lib Inr Inr (run_line (file_lines sample_file ! i) 8222) = Ok (Some (v i))) \<and>
    (\<exists>cert t. client_write Dev toy_lib toy_json c [7] (Message [1]) (map (\<lambda>i. (i, answer toy_lib toy_json
        (in_memory toy_lib queue_fifo) 5000000 (v i) (Write [7] (Message [1])))) (rev [0..<1000])) = Ok cert \<and>
      cr_message cert = Message [1] \<and> certified_timestamp Dev cert = Some (t, cert) \<and> Timestamp 5 \<le> t \<and> t \<le> Timestamp 5)"
    by (rule deployment_end_to_end [OF toy_bls_correct toy_agg_total toy_json_faithful toy_hex_roundtrip toy_sk_roundtrip
        toy_pk_roundtrip toy_hex_alphabet gen path refl _ _ _ _ _ order clock hi]) simp_all
  moreover have "(7 :: nat) < 1000" by simp
  ultimately show ?thesis by blast
qed

end
