(* ===== verification/LogEndToEnd.thy ===== *)
theory LogEndToEnd
  imports Deployment ReadProperties
begin

text \<open>
  Reading back what was written, message by message and as a log, from validators that all answer.
\<close>

section \<open>Answers\<close>

lemma answer_read_range:
  assumes "json_faithful J"
  shows "\<exists>bs. answer L J D clock v (ReadRange ns a b) = Replied bs \<and>
    log_from_slice J bs = Some (validator_read_range D v ns a b)"
proof -
  obtain bs where bs: "log_to_vec J (validator_read_range D v ns a b) = Some bs"
      "log_from_slice J bs = Some (validator_read_range D v ns a b)"
    using codecD [OF json_faithfulD(3) [OF assms]] by blast
  then show ?thesis by (simp add: answer_eq [OF assms])
qed

text \<open>All validators of a client answer, in the order of \<open>order\<close>.\<close>

abbreviation everyone ::
  "('sk, 'pk, 'sig, 'agg) lib \<Rightarrow> 'sig json \<Rightarrow> ('s, 'sig) DataStore \<Rightarrow> (nat \<Rightarrow> int) \<Rightarrow>
     (nat \<Rightarrow> ('s, 'sk) Validator) \<Rightarrow> Request \<Rightarrow> nat list \<Rightarrow> completion list" where
  "everyone L J D clock v req order \<equiv> map (\<lambda>i. (i, answer L J D (clock i) (v i) req)) order"

lemma everyone_known:
  assumes "dense c" "client_ok c" "distinct order" "set order = {..<validator_count c}"
  shows "\<forall>(i, bs)\<in>set (replies (everyone L J D clock v req order)). validators c i \<noteq> None \<and> i < validator_count c"
  by (rule dense_known [OF assms(1,2) answers_in_order [OF assms]])

text \<open>Honest validators, known to the client by their keys, have served the write of a message.\<close>

definition all_wrote ::
  "('sk, 'pk, 'sig, 'agg) lib \<Rightarrow> (B256, 'sig Record, 'm) fifo \<Rightarrow> 'pk Client \<Rightarrow> (nat \<Rightarrow> int) \<Rightarrow>
     (nat \<Rightarrow> ('m InMemoryStore, 'sk) Validator) \<Rightarrow> Namespace \<Rightarrow> Message \<Rightarrow>
     (nat \<Rightarrow> ('m InMemoryStore, 'sk) Validator) \<Rightarrow> bool" where
  "all_wrote L F c clock v ns m v' \<longleftrightarrow>
     (\<forall>i<validator_count c. node_ok (store_ok L F) (store_content F) L (v i) \<and>
        validators c i = Some (sk_to_pk L (v_secret_key (v i))) \<and>
        (\<exists>r. validator_write L (in_memory L F) (clock i) (v i) ns m = Some (r, v' i)))"

lemma all_wrote_ok:
  assumes "bls_correct L" "all_wrote L F c clock v ns m v'"
  shows "\<forall>i<validator_count c. node_ok (store_ok L F) (store_content F) L (v' i) \<and>
    validators c i = Some (sk_to_pk L (v_secret_key (v' i)))"
  using assms mem.node_ok_write [OF _ assms(1)] validator_write_frame(1) unfolding all_wrote_def by metis

text \<open>The record of such a validator is in its range.\<close>

lemma all_wrote_record:
  assumes "bls_correct L" "all_wrote L F c clock v ns m v'" "i < validator_count c"
    and "ts_now (clock i) = Some t" "a \<le> t" "t \<le> b"
  shows "\<exists>r\<in>set (log_records (validator_read_range (in_memory L F) (v' i) ns a b)).
    r_message r = m \<and> r_timestamp r = t \<and> authentic L (sk_to_pk L (v_secret_key (v i))) ns r"
proof -
  obtain r where w: "validator_write L (in_memory L F) (clock i) (v i) ns m = Some (r, v' i)"
    and ok: "store_ok L F (v_store (v i))" using assms(2,3) by (auto simp: all_wrote_def node_ok_def)
  note w' = validator_write_authentic [OF assms(1) w]
  have "r \<in> set (log_records (validator_read_range (in_memory L F) (v' i) ns a b))"
    using mem.written_in_range [OF ok, of a r b ns] w'(3,4) assms(4-6) by (simp add: validator_read_range_def)
  with w' assms(4) show ?thesis by auto
qed

text \<open>What all have written, everyone certifies as available.\<close>

lemma read_message_all_written:
  assumes "bls_correct L" "agg_unchecked_total L" "json_faithful J"
    and "dense c" "client_ok c" "validator_count c \<noteq> 0"
    and "distinct order" "set order = {..<validator_count c}"
    and "all_wrote L F c clock v ns m v'"
  shows "\<exists>cert. client_read_message Release L J c ns (Message_digest L m ns)
      (everyone L J (in_memory L F) clock' v' (ReadMessage ns (Message_digest L m ns)) order) =
    Ok (CertAvailable cert) \<and> Message_digest L (cr_message cert) ns = Message_digest L m ns"
proof -
  let ?i = "Message_digest L m ns"
  let ?ans = "\<lambda>i. answer L J (in_memory L F) (clock' i) (v' i) (ReadMessage ns ?i)"
  have "\<forall>i\<in>set order. \<exists>bs r. ?ans i = Replied bs \<and>
      available_vote L J c ns ?i i bs = Some r \<and> unavailable_vote L J c i bs = None"
    using honest_read_message [OF assms(1,3)] assms(8,9) unfolding all_wrote_def by (metis lessThan_iff)
  then obtain bs r where br: "\<forall>i\<in>set order. ?ans i = Replied (bs i)"
    and votes: "\<forall>i\<in>set order. available_vote L J c ns ?i i (bs i) = Some (r i) \<and> unavailable_vote L J c i (bs i) = None"
    by metis
  have cs: "map (\<lambda>i. (i, ?ans i)) order = map (\<lambda>i. (i, Replied (bs i))) order" using br by simp
  have order: "completion_order c (map (\<lambda>i. (i, Replied (bs i))) order)" by (rule answers_in_order [OF assms(4,5,7,8)])
  have known: "\<forall>k\<in>set order. validators c k \<noteq> None \<and> k < validator_count c"
    using assms(4,8) unfolding dense_def by blast
  have "length order = validator_count c" using distinct_card [OF assms(7)] assms(8) by simp
  then have q: "has_reached_quorum (validator_count c) (length order)"
    using quorum_threshold_le by (simp add: has_reached_quorum_iff)
  from read_message_unanimous(1) [OF assms(2) json_request [OF assms(3)] assms(6,7) known q votes] obtain cert where
    ok: "client_read_message Release L J c ns ?i (map (\<lambda>i. (i, Replied (bs i))) order) = Ok (CertAvailable cert)" by blast
  have "distinct (map fst (map (\<lambda>i. (i, Replied (bs i))) order))" using order by (simp only: completion_order_def)
  from available_certificate [OF ok this] obtain k where
    "has_reached_quorum (validator_count c) k" "k \<noteq> 0 \<longrightarrow> Message_digest L (cr_message cert) ns = ?i"
    by (elim exE conjE) (rule that, assumption, simp)
  then have "Message_digest L (cr_message cert) ns = ?i"
    using assms(6) quorum_threshold_least [of "validator_count c" 0] quorum_threshold_eq_0 by (cases "k = 0") auto
  with ok show ?thesis unfolding cs by blast
qed

section \<open>Logs\<close>

text \<open>The log of honest validators is what all of them hold in the range.\<close>

lemma read_everyone:
  assumes "json_faithful J" "dense c" "client_ok c" "distinct order" "set order = {..<validator_count c}" "task_order tasks"
    and "\<forall>i<validator_count c. node_ok (store_ok L F) (store_content F) L (v i) \<and>
      validators c i = Some (sk_to_pk L (v_secret_key (v i)))"
  shows "\<exists>log. client_read L J c ns a b (everyone L J (in_memory L F) clock v (ReadRange ns a b) order) tasks = Ok log \<and>
    mset (log_records log) =
      mset (concat (map (\<lambda>i. log_records (validator_read_range (in_memory L F) (v i) ns a b)) order))"
proof -
  let ?log = "\<lambda>i. validator_read_range (in_memory L F) (v i) ns a b"
  have "\<forall>i. \<exists>bs. answer L J (in_memory L F) (clock i) (v i) (ReadRange ns a b) = Replied bs \<and>
      log_from_slice J bs = Some (?log i)"
    by (rule allI, rule answer_read_range [OF assms(1)])
  then obtain bs where bs: "\<forall>i. answer L J (in_memory L F) (clock i) (v i) (ReadRange ns a b) = Replied (bs i) \<and>
      log_from_slice J (bs i) = Some (?log i)" by (rule choice [THEN exE])
  then have cs: "replies (everyone L J (in_memory L F) clock v (ReadRange ns a b) order) = map (\<lambda>i. (i, bs i)) order"
    by (simp add: replies_map_Replied)
  have known: "\<forall>(i, x)\<in>set (replies (everyone L J (in_memory L F) clock v (ReadRange ns a b) order)). validators c i \<noteq> None"
    using everyone_known [OF assms(2-5)] by blast
  have verified: "\<forall>(i, x)\<in>set (replies (everyone L J (in_memory L F) clock v (ReadRange ns a b) order)). \<forall>l pk.
      log_from_slice J x = Some l \<longrightarrow> validators c i = Some pk \<longrightarrow>
      (\<forall>r\<in>set (log_records l). verify_signature L (r_signature r) pk (Record_digest L r ns))"
    unfolding cs using assms(5,7) bs mem.read_range_authentic(2) by (fastforce simp: authentic_def)
  from client_read_all [OF json_request [OF assms(1)] assms(6) known verified]
  show ?thesis unfolding cs by (simp add: comp_def bs)
qed

text \<open>Certifying the records of a log, when no round panics.\<close>

lemma certify_records_all:
  assumes "\<forall>k<length rs. client_read_message p L J c ns (Record_message_digest L (rs ! k) ns) (rounds (j + k)) \<noteq> Panic"
    and "\<forall>k<length rs. P (rs ! k) \<longrightarrow> (\<exists>cert.
      client_read_message p L J c ns (Record_message_digest L (rs ! k) ns) (rounds (j + k)) = Ok (CertAvailable cert) \<and> Q cert)"
  shows "\<exists>out. certify_records p L J c ns rounds j rs acc = Some (acc @ out) \<and>
    length (filter P rs) \<le> length (filter Q out)"
  using assms
proof (induction rs arbitrary: j acc)
  case (Cons r rs)
  let ?res = "client_read_message p L J c ns (Record_message_digest L r ns) (rounds j)"
  have rest: "\<exists>out. certify_records p L J c ns rounds (Suc j) rs acc' = Some (acc' @ out) \<and>
      length (filter P rs) \<le> length (filter Q out)" for acc'
  proof (rule Cons.IH; intro allI impI)
    fix k assume k: "k < length rs"
    show "client_read_message p L J c ns (Record_message_digest L (rs ! k) ns) (rounds (Suc j + k)) \<noteq> Panic"
      using Cons.prems(1) [rule_format, of "Suc k"] k by simp
    show "\<exists>cert. client_read_message p L J c ns (Record_message_digest L (rs ! k) ns) (rounds (Suc j + k)) =
        Ok (CertAvailable cert) \<and> Q cert" if "P (rs ! k)"
      using Cons.prems(2) [rule_format, of "Suc k"] k that by simp
  qed
  have "?res \<noteq> Panic" "P r \<longrightarrow> (\<exists>cert. ?res = Ok (CertAvailable cert) \<and> Q cert)"
    using Cons.prems(1) [rule_format, of 0] Cons.prems(2) [rule_format, of 0] by auto
  then show ?case
    using rest [of acc] rest [of "acc @ [x]" for x]
    by (cases ?res; cases "P r"; fastforce split: CertifiedReadMessageResponse.split)
qed simp

lemma log_all_written:
  assumes "bls_correct L" "json_faithful J" "dense c" "client_ok c"
    and "distinct order" "set order = {..<validator_count c}" "task_order tasks"
    and "all_wrote L F c clock v ns m v'" "\<forall>i<validator_count c. \<exists>t. ts_now (clock i) = Some t \<and> a \<le> t \<and> t \<le> b"
  shows "\<exists>log. client_read L J c ns a b (everyone L J (in_memory L F) clock' v' (ReadRange ns a b) order) tasks = Ok log \<and>
    sorted (map r_timestamp (log_records log)) \<and>
    (\<forall>i<validator_count c. \<exists>r\<in>set (log_records log). r_message r = m \<and> Some (r_timestamp r) = ts_now (clock i) \<and>
      authentic L (sk_to_pk L (v_secret_key (v i))) ns r) \<and>
    validator_count c \<le> length (filter (\<lambda>r. r_message r = m) (log_records log))"
proof -
  let ?n = "validator_count c" and ?ours = "\<lambda>r. r_message r = m"
  let ?range = "\<lambda>i. log_records (validator_read_range (in_memory L F) (v' i) ns a b)"
  let ?good = "\<lambda>i r. r_message r = m \<and> Some (r_timestamp r) = ts_now (clock i) \<and> authentic L (sk_to_pk L (v_secret_key (v i))) ns r"
  have held: "\<exists>r\<in>set (?range i). ?good i r" if "i < ?n" for i
    using all_wrote_record [OF assms(1,8) that, of _ a b] assms(9) that by fastforce
  from read_everyone [OF assms(2-7) all_wrote_ok [OF assms(1,8)], of ns a b clock'] obtain log where
    log: "client_read L J c ns a b (everyone L J (in_memory L F) clock' v' (ReadRange ns a b) order) tasks = Ok log"
    and all: "mset (log_records log) = mset (concat (map ?range order))" by blast
  have "1 \<le> length (filter ?ours (?range i))" if "i \<in> set order" for i
    using held [of i] that assms(6) by (cases "filter ?ours (?range i)") (auto simp: filter_empty_conv)
  then have "length order \<le> length (filter ?ours (concat (map ?range order)))" by (induction order) fastforce+
  also have "\<dots> = length (filter ?ours (log_records log))"
    using arg_cong [OF all, of "\<lambda>M. size (filter_mset ?ours M)"] by (simp flip: mset_filter)
  finally have "?n \<le> length (filter ?ours (log_records log))" using distinct_card [OF assms(5)] assms(6) by simp
  moreover have "\<exists>r\<in>set (log_records log). ?good i r" if i: "i < ?n" for i
  proof -
    obtain r where r: "r \<in> set (?range i)" "?good i r" using held [OF i] by blast
    have "r \<in># mset (log_records log)" unfolding all using r(1) i assms(6) by auto
    with r(2) show ?thesis by auto
  qed
  moreover have "sorted (map r_timestamp (log_records log))" by (simp add: client_read_Ok [OF log])
  ultimately show ?thesis using log by blast
qed

lemma certify_all_written:
  assumes "bls_correct L" "agg_unchecked_total L" "json_faithful J" "dense c" "client_ok c" "validator_count c \<noteq> 0"
    and "distinct order" "set order = {..<validator_count c}" "all_wrote L F c clock v ns m v'"
    and "\<forall>k<length rs. rounds k = everyone L J (in_memory L F) (clocks k) v'
      (ReadMessage ns (Record_message_digest L (rs ! k) ns)) order"
  shows "\<exists>out. certify_records Release L J c ns rounds 0 rs [] = Some out \<and>
    length (filter (\<lambda>r. r_message r = m) rs) \<le>
      length (filter (\<lambda>cert. Message_digest L (cr_message cert) ns = Message_digest L m ns) out)"
proof -
  have "\<forall>k<length rs. client_read_message Release L J c ns (Record_message_digest L (rs ! k) ns) (rounds (0 + k)) \<noteq> Panic"
    using assms(10) by (auto intro!: client_read_message_no_panic [OF assms(2) json_request [OF assms(3)] assms(6)
        everyone_known [OF assms(4,5,7,8)]])
  moreover have "\<forall>k<length rs. r_message (rs ! k) = m \<longrightarrow> (\<exists>cert.
      client_read_message Release L J c ns (Record_message_digest L (rs ! k) ns) (rounds (0 + k)) = Ok (CertAvailable cert) \<and>
      Message_digest L (cr_message cert) ns = Message_digest L m ns)"
    using assms(10) read_message_all_written [OF assms(1-9)] by (simp add: Record_message_digest_eq)
  ultimately have "\<exists>out. certify_records Release L J c ns rounds 0 rs [] = Some ([] @ out) \<and>
      length (filter (\<lambda>r. r_message r = m) rs) \<le>
        length (filter (\<lambda>cert. Message_digest L (cr_message cert) ns = Message_digest L m ns) out)"
    by (rule certify_records_all)
  then show ?thesis by simp
qed


definition sample_writer :: "nat \<Rightarrow> ((nat \<times> (B256 \<times> toy_sig Record) list) InMemoryStore, nat) Validator" where
  "sample_writer i =
     \<lparr>v_store = with_capacity 4096, v_secret_key = 10 + i, v_local_addr = Some (any_addr, 12450),
      v_active_subscriptions = {}, v_pub_addr = Some (any_addr, 9)\<rparr>"

lemma sample_wrote:
  "\<exists>v'. all_wrote toy_lib queue_fifo sample_client (\<lambda>_. 5000000) sample_writer [7] (Message [1]) v'"
proof -
  have new: "new_in_memory (\<lambda>_. Inr (any_addr, 12450)) (\<lambda>_. Inr (any_addr, 9)) (10 + i) 12450 =
      (Ok (sample_writer i) :: (unit, _) res)" for i
    by (simp add: new_in_memory_def Validator_new_def sample_writer_def)
  have ok: "node_ok (store_ok toy_lib queue_fifo) (store_content queue_fifo) toy_lib (sample_writer i)" for i
    by (rule new_in_memory_node_ok [OF queue_fifo_laws new])
  have "\<exists>r v'. validator_write toy_lib (in_memory toy_lib queue_fifo) 5000000 (sample_writer i) [7] (Message [1]) = Some (r, v')" for i
    by (simp add: validator_write_def ts_now_def Let_def)
  then obtain v' where "\<And>i. \<exists>r. validator_write toy_lib (in_memory toy_lib queue_fifo) 5000000 (sample_writer i) [7] (Message [1]) =
      Some (r, v' i)" by metis
  moreover have "validators sample_client i = Some (sk_to_pk toy_lib (v_secret_key (sample_writer i)))" if "i < 3" for i
    using that by (simp add: sample_known) (simp add: sample_writer_def toy_lib_def)
  ultimately have "all_wrote toy_lib queue_fifo sample_client (\<lambda>_. 5000000) sample_writer [7] (Message [1]) v'"
    unfolding all_wrote_def using ok by simp
  then show ?thesis by blast
qed


end
