(* ===== verification/PollNetwork.thy ===== *)
theory PollNetwork
  imports Network PollOrder
begin

text \<open>
  The network with the event loops of its validators: an event is one iteration of the loop of one
  validator, so that the loops run concurrently and every reply and publication is seen when it is
  made, not when \<^verbatim>\<open>poll\<close> returns. The runs are mapped to those of the theory \<open>Network\<close>, where a
  validator serves single requests.
\<close>

section \<open>One iteration\<close>

text \<open>
  What has been run of a call of \<^verbatim>\<open>poll\<close> determines how it goes on: the state of the validator, the
  channel and the effects.
\<close>

lemma poll_loop_continues:
  assumes "poll_loop L J D Q lossy ticks v q out = PollRunning v' out'"
  shows "\<exists>q'. \<forall>more. poll_loop L J D Q lossy (ticks @ more) v q out = poll_loop L J D Q lossy more v' q' out'"
  using assms
proof (induction L J D Q lossy ticks v q out rule: poll_loop.induct)
  case (3 L J D Q lossy spurious ticks v q out)
  show ?case
  proof (cases "\<exists>ns b q'. mpsc_poll_recv Q q spurious = (Ready (Some (ns, b)), q')")
    case True
    with "3" show ?thesis by fastforce
  next
    case False
    with "3.prems" show ?thesis by (auto split: prod.splits Poll.splits option.splits)
  qed
next
  case (2 L J D Q lossy msg clock ticks v q out)
  show ?case
  proof (cases "request_from_slice J msg")
    case None
    with "2" show ?thesis by simp
  next
    case (Some req)
    with "2.prems" obtain w resp pub where "handle_request L J D clock v req = Some (w, resp, pub)"
      by (auto split: option.splits)
    with "2" Some show ?thesis by simp
  qed
qed auto

lemma poll_loop_running:
  assumes "poll_loop L J D Q lossy ticks v q out = PollRunning v' out'"
  shows "\<exists>new pubs. out' = out @ new \<and> serve L J D ticks v = Some (v', responses new, pubs)"
  using assms
proof (induction ticks arbitrary: v q out)
  case (Cons t ticks)
  show ?case
  proof (cases t)
    case (Idle spurious)
    with Cons.prems obtain ns b q' where
      "poll_loop L J D Q lossy ticks v q' (out @ [Publish (lossy ns) b]) = PollRunning v' out'"
      by (auto split: prod.splits Poll.splits option.splits)
    from Cons.IH [OF this] show ?thesis by (auto simp: Idle)
  next
    case (Incoming msg clock)
    show ?thesis
    proof (cases "request_from_slice J msg")
      case None
      with Cons Incoming show ?thesis by auto
    next
      case (Some req)
      with Cons.prems Incoming obtain w resp pub where
        h: "handle_request L J D clock v req = Some (w, resp, pub)"
        and "poll_loop L J D Q lossy ticks w (enqueue Q q pub) (out @ respond_effects resp) = PollRunning v' out'"
        by (auto split: option.splits)
      from Cons.IH [OF this(2)] obtain new pubs where
        "out' = out @ respond_effects resp @ new" "serve L J D ticks w = Some (v', responses new, pubs)" by auto
      then show ?thesis using h Some by (auto simp: Incoming split: option.split)
    qed
  qed
qed simp

lemma poll_loop_last:
  assumes "poll_loop L J D Q lossy [t] v q out = PollPending v' out'"
  shows "v' = v" "out' = out" "\<exists>spurious. t = Idle spurious"
  using assms by (cases t; auto split: option.splits prod.splits Poll.splits)+

text \<open>So an iteration that goes on serves its request as a single one, and the last one does nothing.\<close>

lemma iteration:
  assumes "poll L J D Q lossy ticks v = PollRunning v1 out"
  shows "poll L J D Q lossy (ticks @ [t]) v = PollRunning v2 out' \<Longrightarrow>
      \<exists>new pubs. out' = out @ new \<and> serve L J D [t] v1 = Some (v2, responses new, pubs)"
    and "poll L J D Q lossy (ticks @ [t]) v = PollPending v2 out' \<Longrightarrow>
      v2 = v1 \<and> out' = out \<and> (\<exists>spurious. t = Idle spurious)"
proof -
  from poll_loop_continues [OF assms [unfolded poll_def]] obtain q where
    q: "poll L J D Q lossy (ticks @ [t]) v = poll_loop L J D Q lossy [t] v1 q out" unfolding poll_def by blast
  show "\<exists>new pubs. out' = out @ new \<and> serve L J D [t] v1 = Some (v2, responses new, pubs)"
    if "poll L J D Q lossy (ticks @ [t]) v = PollRunning v2 out'"
    using poll_loop_running [OF that [unfolded q]] .
  show "v2 = v1 \<and> out' = out \<and> (\<exists>spurious. t = Idle spurious)"
    if "poll L J D Q lossy (ticks @ [t]) v = PollPending v2 out'"
    using poll_loop_last [OF that [unfolded q]] by blast
qed

section \<open>Event loops side by side\<close>

text \<open>
  Of each validator, its state at the start of the current call of \<^verbatim>\<open>poll\<close> and the iterations since
  then, none if it is waiting to be polled; the replies as in \<open>world\<close>, and what each validator has
  published.
\<close>

record ('s, 'sk) loops =
  lw_calls :: "nat \<Rightarrow> ('s, 'sk) Validator \<times> tick list"
  lw_replies :: "(nat \<times> nat \<times> bytes \<times> bytes) set"
  lw_published :: "nat \<Rightarrow> (string \<times> bytes) list"

datatype loop_event =
    Iterate nat nat tick  \<comment> \<open>validator, identifier of the request if there is one, what it finds\<close>
  | Lie nat nat bytes bytes  \<comment> \<open>faulty validator, request identifier, request, reply\<close>

fun reply_of :: "nat \<Rightarrow> nat \<Rightarrow> tick \<Rightarrow> effect list \<Rightarrow> (nat \<times> nat \<times> bytes \<times> bytes) set" where
  "reply_of i rid (Incoming msg clock) effects = (\<lambda>b. (i, rid, msg, b)) ` set (responses effects)"
| "reply_of i rid (Idle spurious) effects = {}"

text \<open>
  The effects of an iteration are those that \<^verbatim>\<open>poll\<close> has after it and had not before. The responses
  among them go to the request of the iteration.
\<close>

inductive loop_step ::
  "('sk, 'pk, 'sig, 'agg) lib \<Rightarrow> 'sig json \<Rightarrow> ('s, 'sig) DataStore \<Rightarrow> (pub_item, 'q) mpsc \<Rightarrow> (bytes \<Rightarrow> string) \<Rightarrow>
     nat set \<Rightarrow> ('s, 'sk) loops \<Rightarrow> loop_event \<Rightarrow> ('s, 'sk) loops \<Rightarrow> bool"
  for L J D Q lossy bad where
  iterate: "i \<notin> bad \<Longrightarrow> lw_calls w i = (v, ticks) \<Longrightarrow> poll L J D Q lossy ticks v = PollRunning v1 out \<Longrightarrow>
    poll L J D Q lossy (ticks @ [t]) v = PollRunning v2 (out @ new) \<Longrightarrow>
    loop_step L J D Q lossy bad w (Iterate i rid t)
      (w\<lparr>lw_calls := (lw_calls w)(i := (v, ticks @ [t])),
         lw_replies := lw_replies w \<union> reply_of i rid t new,
         lw_published := (lw_published w)(i := lw_published w i @ publications new)\<rparr>)"
| return: "i \<notin> bad \<Longrightarrow> lw_calls w i = (v, ticks) \<Longrightarrow> poll L J D Q lossy ticks v = PollRunning v1 out \<Longrightarrow>
    poll L J D Q lossy (ticks @ [t]) v = PollPending v2 (out @ new) \<Longrightarrow>
    loop_step L J D Q lossy bad w (Iterate i rid t)
      (w\<lparr>lw_calls := (lw_calls w)(i := (v2, [])),
         lw_replies := lw_replies w \<union> reply_of i rid t new,
         lw_published := (lw_published w)(i := lw_published w i @ publications new)\<rparr>)"
| lie: "i \<in> bad \<Longrightarrow>
    loop_step L J D Q lossy bad w (Lie i rid msg b) (w\<lparr>lw_replies := insert (i, rid, msg, b) (lw_replies w)\<rparr>)"

inductive loop_run ::
  "('sk, 'pk, 'sig, 'agg) lib \<Rightarrow> 'sig json \<Rightarrow> ('s, 'sig) DataStore \<Rightarrow> (pub_item, 'q) mpsc \<Rightarrow> (bytes \<Rightarrow> string) \<Rightarrow>
     nat set \<Rightarrow> ('s, 'sk) loops \<Rightarrow> loop_event list \<Rightarrow> ('s, 'sk) loops \<Rightarrow> bool"
  for L J D Q lossy bad w where
  start: "loop_run L J D Q lossy bad w [] w"
| more: "loop_run L J D Q lossy bad w es w' \<Longrightarrow> loop_step L J D Q lossy bad w' e w'' \<Longrightarrow>
    loop_run L J D Q lossy bad w (es @ [e]) w''"

section \<open>Simulation by single requests\<close>

text \<open>The abstraction: the state a validator has reached inside \<^verbatim>\<open>poll\<close>, and the replies.\<close>

definition node_now ::
  "('sk, 'pk, 'sig, 'agg) lib \<Rightarrow> 'sig json \<Rightarrow> ('s, 'sig) DataStore \<Rightarrow> (pub_item, 'q) mpsc \<Rightarrow> (bytes \<Rightarrow> string) \<Rightarrow>
     ('s, 'sk) Validator \<times> tick list \<Rightarrow> ('s, 'sk) Validator" where
  "node_now L J D Q lossy call = (case call of (v, ticks) \<Rightarrow>
     (case poll L J D Q lossy ticks v of PollRunning v' out \<Rightarrow> v' | _ \<Rightarrow> v))"

definition requests_only ::
  "('sk, 'pk, 'sig, 'agg) lib \<Rightarrow> 'sig json \<Rightarrow> ('s, 'sig) DataStore \<Rightarrow> (pub_item, 'q) mpsc \<Rightarrow> (bytes \<Rightarrow> string) \<Rightarrow>
     ('s, 'sk) loops \<Rightarrow> ('s, 'sk) world" where
  "requests_only L J D Q lossy w =
     \<lparr>w_nodes = (\<lambda>i. node_now L J D Q lossy (lw_calls w i)), w_replies = lw_replies w\<rparr>"

fun served :: "loop_event \<Rightarrow> net_event list" where
  "served (Iterate i rid (Incoming msg clock)) = [Deliver i rid msg clock]"
| "served (Iterate i rid (Idle spurious)) = []"
| "served (Lie i rid msg b) = [Forge i rid msg b]"

lemma poll_nothing: "poll L J D Q lossy [] v = PollRunning v []"
  by (simp add: poll_def)

lemma execution_one: "net_step L J D bad w e w' \<Longrightarrow> execution L J D bad w [e] w'"
  using execution.step [OF execution.start] by fastforce

text \<open>An iteration that leaves the validator as it is and says nothing.\<close>

lemma requests_only_update:
  "requests_only L J D Q lossy (w\<lparr>lw_calls := (lw_calls w)(i := call), lw_replies := lw_replies w \<union> R, lw_published := P\<rparr>) =
   (requests_only L J D Q lossy w)\<lparr>w_nodes := (w_nodes (requests_only L J D Q lossy w))(i := node_now L J D Q lossy call),
      w_replies := w_replies (requests_only L J D Q lossy w) \<union> R\<rparr>"
  by (auto simp: requests_only_def fun_eq_iff)

lemma step_simulated:
  assumes "loop_step L J D Q lossy bad w e w'"
  shows "execution L J D bad (requests_only L J D Q lossy w) (served e) (requests_only L J D Q lossy w')"
  using assms
proof cases
  case (iterate i v ticks v1 out t v2 new rid)
  from iteration(1) [OF iterate(5,6)] obtain pubs where s: "serve L J D [t] v1 = Some (v2, responses new, pubs)" by auto
  have now: "w_nodes (requests_only L J D Q lossy w) i = v1"
    using iterate by (simp add: requests_only_def node_now_def)
  have now': "node_now L J D Q lossy (v, ticks @ [t]) = v2" using iterate by (simp add: node_now_def)
  show ?thesis
  proof (cases t)
    case (Incoming msg clock)
    show ?thesis unfolding iterate(1,2) requests_only_update now' unfolding Incoming served.simps reply_of.simps
      by (rule execution_one, rule net_step.deliver [OF iterate(3)]) (use s in \<open>simp only: now Incoming\<close>)
  next
    case (Idle spurious)
    with s have "v2 = v1" by simp
    then have "requests_only L J D Q lossy w' = requests_only L J D Q lossy w"
      unfolding iterate(2) requests_only_update now' by (simp add: now [symmetric] Idle)
    then show ?thesis by (simp add: iterate(1) Idle execution.start)
  qed
next
  case (return i v ticks v1 out t v2 new rid)
  from iteration(2) [OF return(5,6)] obtain spurious where r: "v2 = v1" "new = []" "t = Idle spurious" by auto
  have "w_nodes (requests_only L J D Q lossy w) i = v1"
    using return by (simp add: requests_only_def node_now_def)
  then have "requests_only L J D Q lossy w' = requests_only L J D Q lossy w"
    unfolding return(2) requests_only_update by (auto simp: node_now_def poll_nothing r)
  then show ?thesis by (simp add: return(1) r execution.start)
next
  case (lie i rid msg b)
  then show ?thesis using net_step.forge [of i bad L J D "requests_only L J D Q lossy w"]
    by (auto simp: requests_only_def intro!: execution_one)
qed

lemma run_simulated:
  assumes "loop_run L J D Q lossy bad w es w'"
  shows "execution L J D bad (requests_only L J D Q lossy w) (concat (map served es)) (requests_only L J D Q lossy w')"
  using assms
proof (induction rule: loop_run.induct)
  case start
  show ?case by (simp add: execution.start)
next
  case (more es w' e w'')
  from execution_trans [OF step_simulated [OF more(2)] more(3)] show ?case by simp
qed

section \<open>Publications\<close>

text \<open>The items queued for publication are among the responses to the writes.\<close>

lemma serve_append:
  "serve L J D (xs @ ys) v = (case serve L J D xs v of None \<Rightarrow> None
     | Some (v1, resps1, pubs1) \<Rightarrow> (case serve L J D ys v1 of None \<Rightarrow> None
         | Some (v2, resps2, pubs2) \<Rightarrow> Some (v2, resps1 @ resps2, pubs1 @ pubs2)))"
  by (induction L J D xs v rule: serve.induct) (auto split: option.split prod.split)

lemma serve_one_published:
  assumes "serve L J D [t] v = Some (v', resps, pubs)" "(ns, b) \<in> set pubs"
  shows "\<exists>msg clock m. t = Incoming msg clock \<and> request_from_slice J msg = Some (Write ns m) \<and> b \<in> set resps"
proof (cases t)
  case (Incoming msg clock)
  with assms obtain req resp where "request_from_slice J msg = Some req"
    "handle_request L J D clock v req = Some (v', resp, Some (ns, b))" "resps = (case resp of None \<Rightarrow> [] | Some b \<Rightarrow> [b])"
    by (auto split: option.splits prod.splits)
  then show ?thesis using Incoming by (cases req) (auto simp: Let_def split: option.splits prod.splits if_splits)
qed (use assms in simp)

lemma running_published:
  assumes "mpsc_laws Q" "poll L J D Q lossy ticks v = PollRunning v' out"
  shows "\<exists>pubs. serve L J D ticks v = Some (v', responses out, pubs) \<and>
    subseq (publications out) (published_as lossy pubs)"
proof -
  from poll_loop_running [OF assms(2) [unfolded poll_def]] obtain pubs where
    pubs: "serve L J D ticks v = Some (v', responses out, pubs)" by auto
  from poll_loop_continues [OF assms(2) [unfolded poll_def]] obtain q where
    "poll_loop L J D Q lossy (ticks @ [Idle True]) v (mpsc_channel Q 512) [] = poll_loop L J D Q lossy [Idle True] v' q out"
    by blast
  also have "\<dots> = PollPending v' out" using mpsc_recv(4) [OF assms(1), of q] by (auto split: prod.split)
  finally have "poll_loop L J D Q lossy (ticks @ [Idle True]) v (mpsc_channel Q 512) [] = PollPending v' out" .
  from poll_loop_order [OF assms(1) this] obtain used rest resps pubs' where
    used: "ticks @ [Idle True] = used @ rest" "serve L J D used v = Some (v', resps, pubs')"
    and sub: "subseq (publications out) (published_as lossy pubs')" by (auto simp: mpsc_new [OF assms(1)])
  have "serve L J D (used @ rest) v = Some (v', responses out, pubs)"
    unfolding used(1) [symmetric] serve_append using pubs by simp
  then obtain more where "pubs = pubs' @ more" using used(2) by (auto simp: serve_append split: option.splits)
  with sub have "subseq (publications out) (published_as lossy pubs)" by (simp add: list_emb_prefix)
  with pubs show ?thesis by blast
qed

lemma subseq_published_set:
  "subseq xs (published_as lossy pubs) \<Longrightarrow> set xs \<subseteq> (\<lambda>(ns, b). (lossy ns, b)) ` set pubs"
  unfolding published_as_def set_map [symmetric] by (auto dest: list_emb_set)

text \<open>What the writes of a validator were answered with.\<close>

definition written_replies :: "'sig json \<Rightarrow> ('s, 'sk) loops \<Rightarrow> nat \<Rightarrow> pub_item set" where
  "written_replies J w i =
     {(ns, b). \<exists>rid msg m. (i, rid, msg, b) \<in> lw_replies w \<and> request_from_slice J msg = Some (Write ns m)}"

definition published_ok ::
  "('sk, 'pk, 'sig, 'agg) lib \<Rightarrow> 'sig json \<Rightarrow> ('s, 'sig) DataStore \<Rightarrow> (bytes \<Rightarrow> string) \<Rightarrow> nat \<Rightarrow>
     ('s, 'sk) loops \<Rightarrow> bool" where
  "published_ok L J D lossy i w \<longleftrightarrow>
     set (lw_published w i) \<subseteq> (\<lambda>(ns, b). (lossy ns, b)) ` written_replies J w i \<and>
     (\<forall>v ticks v' resps pubs. lw_calls w i = (v, ticks) \<longrightarrow> serve L J D ticks v = Some (v', resps, pubs) \<longrightarrow>
        set pubs \<subseteq> written_replies J w i)"

lemma written_replies_mono: "lw_replies w \<subseteq> lw_replies w' \<Longrightarrow> written_replies J w i \<subseteq> written_replies J w' i"
  unfolding written_replies_def by blast

lemma loop_step_replies: "loop_step L J D Q lossy bad w e w' \<Longrightarrow> lw_replies w \<subseteq> lw_replies w'"
  by (erule loop_step.cases) auto

lemma published_ok_step:
  assumes Q: "mpsc_laws Q" and step: "loop_step L J D Q lossy bad w e w'" and ok: "published_ok L J D lossy i w"
  shows "published_ok L J D lossy i w'"
proof -
  note mono = written_replies_mono [OF loop_step_replies [OF step], of J i]
  let ?pub = "\<lambda>w. (\<lambda>(ns, b). (lossy ns, b)) ` written_replies J w i"
  have old: "set (lw_published w i) \<subseteq> ?pub w'" using ok mono unfolding published_ok_def by (meson image_mono order_trans)
  have same: ?thesis if "lw_calls w' i = lw_calls w i" "lw_published w' i = lw_published w i"
    using ok old order_trans [OF _ mono] unfolding published_ok_def that by blast
  from step show ?thesis
  proof cases
    case (iterate k v ticks v1 out t v2 new rid)
    show ?thesis
    proof (cases "k = i")
      case k: True
      from running_published [OF Q iterate(5)] obtain pubs1 where
        s1: "serve L J D ticks v = Some (v1, responses out, pubs1)" by blast
      from running_published [OF Q iterate(6)] obtain pubs where
        s: "serve L J D (ticks @ [t]) v = Some (v2, responses (out @ new), pubs)"
        and "subseq (publications (out @ new)) (published_as lossy pubs)" by blast
      note new = subseq_published_set [OF this(2)]
      obtain pubs2 where pubs: "pubs = pubs1 @ pubs2" and s2: "serve L J D [t] v1 = Some (v2, responses new, pubs2)"
        using s unfolding serve_append s1 by (auto simp del: serve.simps split: option.splits)
      have "set pubs1 \<subseteq> written_replies J w i" using ok s1 iterate(4) unfolding published_ok_def k by blast
      moreover have "set pubs2 \<subseteq> written_replies J w' i"
      proof
        fix x assume x: "x \<in> set pubs2"
        obtain ns b where "x = (ns, b)" by (cases x)
        with serve_one_published [OF s2] x obtain msg clock m where "t = Incoming msg clock"
          "request_from_slice J msg = Some (Write ns m)" "b \<in> set (responses new)" by blast
        then show "x \<in> written_replies J w' i" by (auto simp: written_replies_def iterate(2) k \<open>x = (ns, b)\<close>)
      qed
      ultimately have all: "set pubs \<subseteq> written_replies J w' i" using mono pubs by auto
      from new have "set (publications new) \<subseteq> (\<lambda>(ns, b). (lossy ns, b)) ` set pubs" by simp
      then have "set (publications new) \<subseteq> ?pub w'" by (rule order_trans [OF _ image_mono [OF all]])
      with old have "set (lw_published w' i) \<subseteq> ?pub w'" by (simp add: iterate(2) k)
      moreover have "lw_calls w' i = (v, ticks @ [t])" by (simp add: iterate(2) k)
      ultimately show ?thesis unfolding published_ok_def using s all by (metis option.inject prod.inject)
    qed (use same iterate(2) in simp)
  next
    case (return k v ticks v1 out t v2 new rid)
    have "new = []" using iteration(2) [OF return(5,6)] by simp
    then have pub: "lw_published w' i = lw_published w i" by (simp add: return(2))
    show ?thesis
    proof (cases "k = i")
      case True
      then have "lw_calls w' i = (v2, [])" by (simp add: return(2))
      then show ?thesis using old pub unfolding published_ok_def by simp
    qed (use same pub return(2) in simp)
  qed (use same in simp)
qed

text \<open>All validators have just been created by \<^verbatim>\<open>Validator::new_in_memory\<close>.\<close>

definition started :: "(nat \<Rightarrow> 'sk) \<Rightarrow> ('m InMemoryStore, 'sk) loops \<Rightarrow> bool" where
  "started sk w \<longleftrightarrow> lw_replies w = {} \<and>
     (\<forall>i. lw_published w i = [] \<and> snd (lw_calls w i) = [] \<and>
        (\<exists>bind_rep bind_pub port. new_in_memory bind_rep bind_pub (sk i) port = (Ok (fst (lw_calls w i)) :: (unit, _) res)))"

lemma started_booted: "started sk w \<Longrightarrow> booted sk (requests_only L J D Q lossy w)"
  by (auto simp: started_def booted_def requests_only_def node_now_def poll_nothing split: prod.split)
    (metis fst_conv snd_conv poll_result.simps(11) poll_nothing)

lemma published_ok_run:
  assumes "mpsc_laws Q" "started sk w" "loop_run L J D Q lossy bad w es w'"
  shows "published_ok L J D lossy i w'"
  using assms(3)
proof (induction rule: loop_run.induct)
  case start
  have "snd (lw_calls w i) = []" "lw_published w i = []" using assms(2) by (simp_all add: started_def)
  then show ?case by (cases "lw_calls w i") (simp add: published_ok_def)
next
  case (more es w' e w'')
  from published_ok_step [OF assms(1) more(2,3)] show ?case .
qed

end
