(* ===== verification/LoopProperties.thy ===== *)
theory LoopProperties
  imports PollNetwork ValidatorProperties
begin

text \<open>
  Properties of networks whose validators run their event loops concurrently.
\<close>

text \<open>A loop that runs can always go on: nothing that comes in makes it panic.\<close>

lemma loop_progress:
  assumes "poll L J D Q lossy (snd (lw_calls w i)) (fst (lw_calls w i)) = PollRunning v1 out" "i \<notin> bad"
    and "v_pub_addr v1 \<noteq> None" "clocks_ok [t]"
  shows "\<exists>w'. loop_step L J D Q lossy bad w (Iterate i rid t) w'"
proof -
  obtain v ticks where c: "lw_calls w i = (v, ticks)" by (cases "lw_calls w i")
  then have run: "poll L J D Q lossy ticks v = PollRunning v1 out" using assms(1) by simp
  from poll_loop_continues [OF this [unfolded poll_def]] obtain q where
    q: "poll L J D Q lossy (ticks @ [t]) v = poll_loop L J D Q lossy [t] v1 q out" unfolding poll_def by blast
  have "poll L J D Q lossy (ticks @ [t]) v \<noteq> PollPanic" unfolding q by (rule poll_loop_no_panic [OF assms(4,3)])
  then obtain v2 out' where "poll L J D Q lossy (ticks @ [t]) v = PollRunning v2 out' \<or>
      poll L J D Q lossy (ticks @ [t]) v = PollPending v2 out'" by (cases "poll L J D Q lossy (ticks @ [t]) v") auto
  moreover from this have "\<exists>new. out' = out @ new" using iteration [OF run] by blast
  ultimately show ?thesis using loop_step.intros(1,2) [OF assms(2) c run] by blast
qed

text \<open>Validators with one key; the second is subscribed to, written to, and publishes.\<close>

definition sample_loops :: "((nat \<times> (B256 \<times> toy_sig Record) list) InMemoryStore, nat) loops" where
  "sample_loops = \<lparr>lw_calls = (\<lambda>i. (sample_validator, [])), lw_replies = {}, lw_published = (\<lambda>i. [])\<rparr>"

abbreviation sample_topic :: "bytes \<Rightarrow> string" where
  "sample_topic \<equiv> (\<lambda>_. ''t'')"

abbreviation sample_loop_run where
  "sample_loop_run \<equiv> loop_run toy_lib toy_json (in_memory toy_lib queue_fifo) list_mpsc sample_topic {}"

lemma sample_started: "started (\<lambda>_. 3) sample_loops"
  unfolding started_def sample_loops_def using sample_validator_new by auto

abbreviation subscribe_message :: bytes where
  "subscribe_message \<equiv> the (request_to_vec toy_json (Subscribe [7]))"

lemma sample_loop_polls:
  "\<exists>v a b. poll toy_lib toy_json (in_memory toy_lib queue_fifo) list_mpsc sample_topic
      [Incoming subscribe_message 0] sample_validator = PollRunning (validator_subscribe sample_validator [7]) [Respond a] \<and>
    poll toy_lib toy_json (in_memory toy_lib queue_fifo) list_mpsc sample_topic
      [Incoming subscribe_message 0, Incoming sample_message 5000000] sample_validator = PollRunning v [Respond a, Respond b] \<and>
    poll toy_lib toy_json (in_memory toy_lib queue_fifo) list_mpsc sample_topic
      [Incoming subscribe_message 0, Incoming sample_message 5000000, Idle False] sample_validator =
        PollRunning v [Respond a, Respond b, Publish ''t'' b]"
proof -
  let ?D = "in_memory toy_lib queue_fifo" and ?v = "validator_subscribe sample_validator [7]"
  have sub: "request_from_slice toy_json subscribe_message = Some (Subscribe [7])"
    using codecD [OF json_faithfulD(1) [OF toy_json_faithful], of "Subscribe [7]"] by auto
  obtain a where a: "handle_request toy_lib toy_json ?D 0 sample_validator (Subscribe [7]) = Some (?v, Some a, None)"
    using codecD [OF json_faithfulD(5) [OF toy_json_faithful]]
    by (fastforce simp: Let_def sample_validator_def validator_subscribe_def)
  have "?v \<noteq> sample_validator" by (simp add: validator_subscribe_def sample_validator_def)
  then obtain v b where b: "handle_request toy_lib toy_json ?D 5000000 ?v (Write [7] (Message [1])) =
      Some (v, Some b, Some ([7], b))"
    using sample_handle [of ?v ?D] by auto
  show ?thesis
    by (rule exI [of _ v], rule exI [of _ a], rule exI [of _ b])
      (simp add: poll_def sub a b sample_request list_mpsc_def enqueue_def respond_effects_def del: handle_request.simps)
qed

lemma sample_loop_run_exists:
  "\<exists>w b. sample_loop_run sample_loops [Iterate 1 0 (Incoming subscribe_message 0),
      Iterate 1 1 (Incoming sample_message 5000000), Iterate 1 0 (Idle False)] w \<and>
    lw_published w 1 = [(''t'', b)] \<and> (1, 1, sample_message, b) \<in> lw_replies w"
proof -
  let ?D = "in_memory toy_lib queue_fifo" and ?v = "validator_subscribe sample_validator [7]"
  let ?t1 = "Incoming subscribe_message 0" and ?t2 = "Incoming sample_message 5000000"
  let ?step = "loop_step toy_lib toy_json ?D list_mpsc sample_topic {}"
  obtain v a b where p: "poll toy_lib toy_json ?D list_mpsc sample_topic [?t1] sample_validator = PollRunning ?v [Respond a]"
    "poll toy_lib toy_json ?D list_mpsc sample_topic [?t1, ?t2] sample_validator = PollRunning v [Respond a, Respond b]"
    "poll toy_lib toy_json ?D list_mpsc sample_topic [?t1, ?t2, Idle False] sample_validator =
      PollRunning v [Respond a, Respond b, Publish ''t'' b]"
    using sample_loop_polls by blast
  let ?w1 = "sample_loops\<lparr>lw_calls := (lw_calls sample_loops)(1 := (sample_validator, [] @ [?t1])),
    lw_replies := lw_replies sample_loops \<union> reply_of 1 0 ?t1 [Respond a],
    lw_published := (lw_published sample_loops)(1 := lw_published sample_loops 1 @ publications [Respond a])\<rparr>"
  have s1: "?step sample_loops (Iterate 1 0 ?t1) ?w1"
    by (rule loop_step.iterate [where out = "[]"]) (simp_all add: sample_loops_def poll_nothing p)
  let ?w2 = "?w1\<lparr>lw_calls := (lw_calls ?w1)(1 := (sample_validator, [?t1] @ [?t2])),
    lw_replies := lw_replies ?w1 \<union> reply_of 1 1 ?t2 [Respond b],
    lw_published := (lw_published ?w1)(1 := lw_published ?w1 1 @ publications [Respond b])\<rparr>"
  have s2: "?step ?w1 (Iterate 1 1 ?t2) ?w2"
    by (rule loop_step.iterate [where out = "[Respond a]"]) (simp_all add: p)
  let ?w3 = "?w2\<lparr>lw_calls := (lw_calls ?w2)(1 := (sample_validator, [?t1, ?t2] @ [Idle False])),
    lw_replies := lw_replies ?w2 \<union> reply_of 1 0 (Idle False) [Publish ''t'' b],
    lw_published := (lw_published ?w2)(1 := lw_published ?w2 1 @ publications [Publish ''t'' b])\<rparr>"
  have s3: "?step ?w2 (Iterate 1 0 (Idle False)) ?w3"
    by (rule loop_step.iterate [where out = "[Respond a, Respond b]"]) (simp_all add: p)
  have "sample_loop_run sample_loops ((([] @ [Iterate 1 0 ?t1]) @ [Iterate 1 1 ?t2]) @ [Iterate 1 0 (Idle False)]) ?w3"
    by (intro loop_run.more [OF _ s3] loop_run.more [OF _ s2] loop_run.more [OF _ s1] loop_run.start)
  then have "sample_loop_run sample_loops [Iterate 1 0 ?t1, Iterate 1 1 ?t2, Iterate 1 0 (Idle False)] ?w3" by simp
  moreover have "lw_published ?w3 1 = [(''t'', b)]" "(1, 1, sample_message, b) \<in> lw_replies ?w3"
    by (simp_all add: sample_loops_def)
  ultimately show ?thesis by blast
qed

text \<open>
  C8: the event loops refine the network of single requests: whatever the loops of the validators do,
  iteration by iteration and concurrently, the validators reach the states and send the replies they
  would if each served the same requests one at a time; so what holds of all runs of single requests
  holds of the event loops.
\<close>

theorem event_loops_refine:
  assumes "loop_run L J D Q lossy bad w es w'"
  shows "execution L J D bad (requests_only L J D Q lossy w) (concat (map served es)) (requests_only L J D Q lossy w')"
  by (rule run_simulated [OF assms])

theorem event_loops_refine_witness:
  "\<exists>w b. execution toy_lib toy_json (in_memory toy_lib queue_fifo) {}
      (requests_only toy_lib toy_json (in_memory toy_lib queue_fifo) list_mpsc sample_topic sample_loops)
      [Deliver 1 0 subscribe_message 0, Deliver 1 1 sample_message 5000000] w \<and> (1, 1, sample_message, b) \<in> w_replies w"
proof -
  obtain w b where "sample_loop_run sample_loops [Iterate 1 0 (Incoming subscribe_message 0),
      Iterate 1 1 (Incoming sample_message 5000000), Iterate 1 0 (Idle False)] w" "(1, 1, sample_message, b) \<in> lw_replies w"
    using sample_loop_run_exists by blast
  with event_loops_refine [OF this(1)] show ?thesis
    by (intro exI [of _ "requests_only toy_lib toy_json (in_memory toy_lib queue_fifo) list_mpsc sample_topic w"] exI [of _ b])
      (simp add: requests_only_def)
qed

text \<open>
  C17: what an honest validator publishes is a record it was asked to write: it was the answer to that
  write, it is for the topic of the namespace, and its signature verifies for it under the validator's key.
\<close>

theorem published_authentic:
  assumes "bls_correct L" "json_faithful J" "mpsc_laws Q" "started sk w"
    and "loop_run L J (in_memory L F) Q lossy bad w es w'" "i \<notin> bad" "(topic, b) \<in> set (lw_published w' i)"
  shows "\<exists>ns r rid msg. topic = lossy ns \<and> record_from_slice J b = Some r \<and>
    authentic L (sk_to_pk L (sk i)) ns r \<and> (ns, r_message r) \<in> set (asked_of J i (concat (map served es))) \<and>
    (i, rid, msg, b) \<in> lw_replies w' \<and> request_from_slice J msg = Some (Write ns (r_message r))"
proof -
  let ?abs = "requests_only L J (in_memory L F) Q lossy"
  from published_ok_run [OF assms(3-5), of i] assms(7) obtain ns rid msg m where
    ns: "topic = lossy ns" and reply: "(i, rid, msg, b) \<in> lw_replies w'" and req: "request_from_slice J msg = Some (Write ns m)"
    by (fastforce simp: published_ok_def written_replies_def)
  note run = run_simulated [OF assms(5)] and boot = started_booted [OF assms(4), of L J "in_memory L F" Q lossy]
  have "(i, rid, msg, b) \<in> w_replies (?abs w')" "(i, rid, msg, b) \<notin> w_replies (?abs w)"
    using reply boot by (simp_all add: requests_only_def booted_def)
  from reply_origin [OF run this assms(6)] obtain es1 clock es2 w1 v' resps pubs where
    es: "concat (map served es) = es1 @ Deliver i rid msg clock # es2"
    and run1: "execution L J (in_memory L F) bad (?abs w) es1 w1"
    and s: "serve L J (in_memory L F) [Incoming msg clock] (w_nodes w1 i) = Some (v', resps, pubs)" "b \<in> set resps" by blast
  from s req obtain r where r: "validator_write L (in_memory L F) clock (w_nodes w1 i) ns m = Some (r, v')"
    "record_to_vec J r = Some b" by (auto split: option.splits)
  have "v_secret_key (w_nodes w1 i) = sk i" using execution_store [OF run1 boot, of i] by blast
  with validator_write_authentic(1,2) [OF assms(1) r(1)] have "authentic L (sk_to_pk L (sk i)) ns r" "r_message r = m"
    by simp_all
  moreover have "record_from_slice J b = Some r" by (rule codec_decode [OF json_faithfulD(2) [OF assms(2)] r(2)])
  moreover have "(ns, m) \<in> set (asked_of J i (concat (map served es)))" unfolding es by (simp add: asked_of_def req)
  ultimately show ?thesis using ns reply req by blast
qed

theorem published_authentic_witness:
  "\<exists>b ns r. sample_topic ns = ''t'' \<and> record_from_slice toy_json b = Some r \<and> authentic toy_lib (sk_to_pk toy_lib 3) ns r"
proof -
  obtain w b where run: "sample_loop_run sample_loops [Iterate 1 0 (Incoming subscribe_message 0),
      Iterate 1 1 (Incoming sample_message 5000000), Iterate 1 0 (Idle False)] w" and "lw_published w 1 = [(''t'', b)]"
    using sample_loop_run_exists by blast
  then have "(''t'', b) \<in> set (lw_published w 1)" by simp
  from published_authentic [OF toy_bls_correct toy_json_faithful list_mpsc_laws sample_started run _ this] show ?thesis by blast
qed

end
