(* ===== verification/SubscriberRuns.thy ===== *)
theory SubscriberRuns
  imports LoopProperties SubscriptionProperties
begin

text \<open>
  A subscriber of a network of event loops: what reaches it was published by the loops, and under which
  conditions the certificates of \<^verbatim>\<open>subscribe_certified\<close> stand for different validators.
\<close>

section \<open>Publications and writes\<close>

fun asked_in :: "'sig json \<Rightarrow> tick \<Rightarrow> (Namespace \<times> Message) list" where
  "asked_in J (Incoming msg clock) = (case request_from_slice J msg of Some (Write ns m) \<Rightarrow> [(ns, m)] | _ \<Rightarrow> [])"
| "asked_in J (Idle spurious) = []"

lemma asked_served:
  "asked_of J i (served (Iterate i rid t)) = asked_in J t"
  "k \<noteq> i \<Longrightarrow> asked_of J i (served (Iterate k rid t)) = []"
  "asked_of J i (served (Lie k rid msg b)) = []"
  by (cases t; auto simp: asked_of_def split: option.split Request.split)+

text \<open>A record as it is published.\<close>

abbreviation item :: "'sig json \<Rightarrow> Namespace \<times> 'sig Record \<Rightarrow> pub_item" where
  "item J \<equiv> \<lambda>(ns, r). (ns, the (record_to_vec J r))"

lemma serve_writes:
  assumes "serve L J D ticks v = Some (v', resps, pubs)"
  shows "\<exists>ws. map (\<lambda>(ns, r). (ns, r_message r)) ws = concat (map (asked_in J) ticks) \<and> subseq pubs (map (item J) ws)"
  using assms
proof (induction ticks arbitrary: v resps pubs)
  case (Cons t ticks)
  show ?case
  proof (cases t)
    case (Incoming msg clock)
    show ?thesis
    proof (cases "request_from_slice J msg")
      case None
      with Cons Incoming show ?thesis by simp
    next
      case (Some req)
      with Cons.prems Incoming obtain w resp pub resps' pubs' where
        h: "handle_request L J D clock v req = Some (w, resp, pub)"
        and s: "serve L J D ticks w = Some (v', resps', pubs')"
        and pubs: "pubs = (case pub of None \<Rightarrow> pubs' | Some i \<Rightarrow> i # pubs')" by (auto split: option.splits)
      from Cons.IH [OF s] obtain ws where
        ws: "map (\<lambda>(ns, r). (ns, r_message r)) ws = concat (map (asked_in J) ticks)" "subseq pubs' (map (item J) ws)" by blast
      show ?thesis
      proof (cases req)
        case (Write ns m)
        with h obtain r where w: "validator_write L D clock v ns m = Some (r, w)"
          and pub: "pub = None \<or> (\<exists>b. record_to_vec J r = Some b \<and> pub = Some (ns, b))"
          by (auto split: option.splits if_splits)
        have "r_message r = m" using w by (auto simp: validator_write_def Let_def split: option.splits)
        then show ?thesis using ws pub pubs Write Some Incoming
          by (intro exI [of _ "(ns, r) # ws"]) (auto split: option.splits)
      qed (use h ws pubs Some Incoming in \<open>auto simp: Let_def split: option.splits\<close>)
    qed
  qed (use Cons in simp)
qed simp

lemma running_writes:
  assumes "mpsc_laws Q" "poll L J D Q lossy ticks v = PollRunning v' out"
  shows "\<exists>ws. map (\<lambda>(ns, r). (ns, r_message r)) ws = concat (map (asked_in J) ticks) \<and>
    subseq (publications out) (published_as lossy (map (item J) ws))"
proof -
  from running_published [OF assms] obtain pubs where
    s: "serve L J D ticks v = Some (v', responses out, pubs)" "subseq (publications out) (published_as lossy pubs)" by blast
  from serve_writes [OF s(1)] obtain ws where
    ws: "map (\<lambda>(ns, r). (ns, r_message r)) ws = concat (map (asked_in J) ticks)" "subseq pubs (map (item J) ws)" by blast
  have "subseq (publications out) (published_as lossy (map (item J) ws))"
    using s(2) subseq_published [OF ws(2)] by (rule subseq_order.order_trans)
  with ws(1) show ?thesis by blast
qed

text \<open>
  What a validator has published is a part, in order, of the records of the writes it was asked for:
  every write leads to one publication at most.
\<close>

definition accounted ::
  "('sk, 'pk, 'sig, 'agg) lib \<Rightarrow> 'sig json \<Rightarrow> ('s, 'sig) DataStore \<Rightarrow> (pub_item, 'q) mpsc \<Rightarrow> (bytes \<Rightarrow> string) \<Rightarrow>
     nat \<Rightarrow> loop_event list \<Rightarrow> ('s, 'sk) loops \<Rightarrow> bool" where
  "accounted L J D Q lossy i es w \<longleftrightarrow> (\<exists>old ws v ticks v' out.
     lw_calls w i = (v, ticks) \<and> poll L J D Q lossy ticks v = PollRunning v' out \<and>
     lw_published w i = old @ publications out \<and> subseq old (published_as lossy (map (item J) ws)) \<and>
     map (\<lambda>(ns, r). (ns, r_message r)) ws @ concat (map (asked_in J) ticks) = asked_of J i (concat (map served es)))"

lemma accounted_step:
  assumes Q: "mpsc_laws Q" and "loop_step L J D Q lossy bad w e w'" and ok: "accounted L J D Q lossy i es w"
  shows "accounted L J D Q lossy i (es @ [e]) w'"
proof -
  from ok obtain old ws v ticks v' out where
    call: "lw_calls w i = (v, ticks)" "poll L J D Q lossy ticks v = PollRunning v' out"
    and pub: "lw_published w i = old @ publications out" "subseq old (published_as lossy (map (item J) ws))"
    and asked: "map (\<lambda>(ns, r). (ns, r_message r)) ws @ concat (map (asked_in J) ticks) = asked_of J i (concat (map served es))"
    unfolding accounted_def by blast
  have same: ?thesis if "lw_calls w' i = lw_calls w i" "lw_published w' i = lw_published w i" "asked_of J i (served e) = []"
    unfolding accounted_def using call pub asked that by (intro exI [of _ old] exI [of _ ws] exI) auto
  from assms(2) show ?thesis
  proof cases
    case (iterate k v0 ticks0 v1 out1 t v2 new rid)
    show ?thesis
    proof (cases "k = i")
      case True
      with iterate call have eq: "v0 = v" "ticks0 = ticks" "out1 = out" by simp_all
      have "lw_calls w' i = (v, ticks @ [t])" "lw_published w' i = old @ publications (out @ new)"
        using True eq pub(1) by (simp_all add: iterate(2))
      moreover have "poll L J D Q lossy (ticks @ [t]) v = PollRunning v2 (out @ new)" using iterate(6) eq by simp
      moreover have "asked_of J i (concat (map served (es @ [e]))) = asked_of J i (concat (map served es)) @ asked_in J t"
        using True asked_served(1) [of J i rid t] by (simp add: iterate(1))
      ultimately show ?thesis unfolding accounted_def using pub(2) asked
        by (intro exI [of _ old] exI [of _ ws] exI [of _ v] exI [of _ "ticks @ [t]"] exI [of _ v2] exI [of _ "out @ new"]) auto
    qed (use same iterate in \<open>simp add: asked_served(2)\<close>)
  next
    case (return k v0 ticks0 v1 out1 t v2 new rid)
    from iteration(2) [OF return(5,6)] obtain spurious where r: "v2 = v1" "new = []" "t = Idle spurious" by auto
    show ?thesis
    proof (cases "k = i")
      case True
      with return call have eq: "v0 = v" "ticks0 = ticks" "out1 = out" by simp_all
      from running_writes [OF Q call(2)] obtain ws' where
        ws': "map (\<lambda>(ns, r). (ns, r_message r)) ws' = concat (map (asked_in J) ticks)"
        "subseq (publications out) (published_as lossy (map (item J) ws'))" by blast
      have "subseq (old @ publications out) (published_as lossy (map (item J) (ws @ ws')))"
        unfolding map_append published_as_simps by (rule list_emb_append_mono [OF pub(2) ws'(2)])
      moreover have "lw_calls w' i = (v2, [])" "lw_published w' i = (old @ publications out) @ publications []"
        using True eq pub(1) r by (simp_all add: return(2))
      moreover have "asked_of J i (concat (map served (es @ [e]))) = asked_of J i (concat (map served es))"
        using True asked_served(1) [of J i rid t] r(3) by (simp add: return(1))
      ultimately show ?thesis unfolding accounted_def using asked ws'(1) poll_nothing [of L J D Q lossy v2]
        by (intro exI [of _ "old @ publications out"] exI [of _ "ws @ ws'"] exI [of _ v2] exI [of _ "[]"] exI [of _ v2] exI [of _ "[]"])
          simp
    qed (use same return r in \<open>simp add: asked_served(2)\<close>)
  next
    case lie
    then show ?thesis using same by (simp add: asked_served(3))
  qed
qed

lemma published_accounted:
  assumes "mpsc_laws Q" "started sk w" "loop_run L J D Q lossy bad w es w'"
  shows "\<exists>ws. map (\<lambda>(ns, r). (ns, r_message r)) ws = asked_of J i (concat (map served es)) \<and>
    subseq (lw_published w' i) (published_as lossy (map (item J) ws))"
proof -
  from assms(3) have "accounted L J D Q lossy i es w'"
  proof (induction rule: loop_run.induct)
    case start
    have "snd (lw_calls w i) = []" "lw_published w i = []" using assms(2) by (simp_all add: started_def)
    then show ?case unfolding accounted_def
      by (intro exI [of _ "[]"] exI [of _ "fst (lw_calls w i)"]) (simp add: poll_nothing prod_eq_iff)
  next
    case (more es w' e w'')
    from accounted_step [OF assms(1) more(2,3)] show ?case .
  qed
  then obtain old ws v ticks v' out where
    run: "poll L J D Q lossy ticks v = PollRunning v' out"
    and pub: "lw_published w' i = old @ publications out" "subseq old (published_as lossy (map (item J) ws))"
    and asked: "map (\<lambda>(ns, r). (ns, r_message r)) ws @ concat (map (asked_in J) ticks) = asked_of J i (concat (map served es))"
    unfolding accounted_def by blast
  from running_writes [OF assms(1) run] obtain ws' where
    ws': "map (\<lambda>(ns, r). (ns, r_message r)) ws' = concat (map (asked_in J) ticks)"
    "subseq (publications out) (published_as lossy (map (item J) ws'))" by blast
  have "subseq (lw_published w' i) (published_as lossy (map (item J) (ws @ ws')))"
    unfolding pub(1) map_append published_as_simps by (rule list_emb_append_mono [OF pub(2) ws'(2)])
  with asked ws'(1) show ?thesis by (intro exI [of _ "ws @ ws'"]) simp
qed

section \<open>One vote of each validator\<close>

lemma subseq_map_split: "subseq xs (map f ys) \<Longrightarrow> \<exists>zs. subseq zs ys \<and> xs = map f zs"
proof (induction ys arbitrary: xs)
  case Nil
  then have "xs = []" by (simp add: list_emb_Nil2)
  then show ?case by simp
next
  case (Cons y ys)
  show ?case
  proof (cases "subseq xs (map f ys)")
    case True
    with Cons.IH obtain zs where "subseq zs ys" "xs = map f zs" by blast
    then show ?thesis by (intro exI [of _ zs]) auto
  next
    case False
    with Cons.prems obtain xs' where "xs = f y # xs'" "subseq xs' (map f ys)" by (cases xs) (auto split: if_splits)
    moreover from Cons.IH [OF this(2)] obtain zs where "subseq zs ys" "xs' = map f zs" by blast
    ultimately show ?thesis by (intro exI [of _ "y # zs"]) auto
  qed
qed

lemma distinct_subseq: "subseq xs ys \<Longrightarrow> distinct ys \<Longrightarrow> distinct xs"
proof (induction rule: list_emb.induct)
  case (list_emb_Cons2 x y xs ys)
  then show ?case by (auto dest: list_emb_set)
qed simp_all

lemma distinct_if_single:
  "(\<And>i. length (filter (\<lambda>z. fst z = i) zs) \<le> 1) \<Longrightarrow> distinct (map fst zs)"
proof (induction zs)
  case (Cons z zs)
  have "length (filter (\<lambda>z. fst z = i) zs) \<le> 1" for i using Cons.prems [of i] by (simp split: if_splits)
  then have "distinct (map fst zs)" by (rule Cons.IH)
  moreover have "filter (\<lambda>y. fst y = fst z) zs = []" using Cons.prems [of "fst z"] by simp
  ultimately show ?case by (auto simp: filter_empty_conv)
qed simp

text \<open>The records that a validator can have published for a namespace have different messages.\<close>

lemma one_publication:
  assumes J: "json_faithful J" and ws: "map (\<lambda>(ns, r). (ns, r_message r)) ws = reqs"
    and pub: "subseq pub (published_as lossy (map (item J) ws))"
    and topics: "\<forall>(ns', m)\<in>set reqs. lossy ns' = lossy ns \<longrightarrow> ns' = ns"
    and once: "distinct (map (\<lambda>(ns', m). Message_digest L m ns) (filter (\<lambda>(ns', m). ns' = ns) reqs))"
    and got: "subseq bs (map snd (filter (\<lambda>(t, b). t = lossy ns) pub))"
  shows "\<exists>rs. map (record_from_slice J) bs = map Some rs \<and> distinct (map (\<lambda>r. Record_message_digest L r ns) rs) \<and>
    (\<forall>r\<in>set rs. (ns, r_message r) \<in> set reqs)"
proof -
  let ?ours = "filter (\<lambda>(ns', r). ns' = ns) ws"
  have here: "lossy ns' = lossy ns \<longleftrightarrow> ns' = ns" if "(ns', r) \<in> set ws" for ns' r
    using topics that by (auto simp: ws [symmetric])
  have "filter (\<lambda>(t, b). t = lossy ns) (published_as lossy (map (item J) ws)) =
      map (\<lambda>(ns, b). (lossy ns, b)) (map (item J) (filter (\<lambda>(ns', r). lossy ns' = lossy ns) ws))"
    by (simp add: published_as_def filter_map comp_def case_prod_unfold)
  also have "filter (\<lambda>(ns', r). lossy ns' = lossy ns) ws = ?ours" by (rule filter_cong) (use here in auto)
  finally have "map snd (filter (\<lambda>(t, b). t = lossy ns) (published_as lossy (map (item J) ws))) =
      map (\<lambda>(ns, r). the (record_to_vec J r)) ?ours" by (simp add: comp_def case_prod_unfold)
  moreover have "subseq (map snd (filter (\<lambda>(t, b). t = lossy ns) pub))
      (map snd (filter (\<lambda>(t, b). t = lossy ns) (published_as lossy (map (item J) ws))))"
    by (intro subseq_map subseq_filter pub)
  ultimately have "subseq (map snd (filter (\<lambda>(t, b). t = lossy ns) pub)) (map (\<lambda>(ns, r). the (record_to_vec J r)) ?ours)"
    by (simp only:)
  with got have "subseq bs (map (\<lambda>(ns, r). the (record_to_vec J r)) ?ours)" by (rule subseq_order.order_trans)
  from subseq_map_split [OF this] obtain us where
    us: "subseq us ?ours" "bs = map (\<lambda>(ns, r). the (record_to_vec J r)) us" by blast
  have "record_from_slice J (the (record_to_vec J r)) = Some r" for r
    using codecD [OF json_faithfulD(2) [OF J], of r] by auto
  then have "map (record_from_slice J) bs = map Some (map snd us)" by (simp add: us(2) case_prod_unfold)
  moreover have "map (\<lambda>(ns', m). Message_digest L m ns) (filter (\<lambda>(ns', m). ns' = ns) reqs) =
      map (\<lambda>r. Record_message_digest L r ns) (map snd ?ours)"
    by (simp add: ws [symmetric] filter_map comp_def case_prod_unfold Record_message_digest_eq)
  then have "distinct (map (\<lambda>r. Record_message_digest L r ns) (map snd ?ours))" using once by simp
  then have "distinct (map (\<lambda>r. Record_message_digest L r ns) (map snd us))"
    by (rule distinct_subseq [OF subseq_map [OF subseq_map [OF us(1)]]])
  moreover have "(ns, r_message r) \<in> set reqs" if "r \<in> set (map snd us)" for r
  proof -
    from that obtain ns' where "(ns', r) \<in> set us" by auto
    from list_emb_set [OF us(1) this] have "(ns, r) \<in> set ws" by auto
    then show ?thesis unfolding ws [symmetric] by force
  qed
  ultimately show ?thesis by blast
qed

section \<open>Certificates of a subscription\<close>

text \<open>The messages that arrive from the publishers, in order.\<close>

fun payloads :: "sub_event list \<Rightarrow> bytes list" where
  "payloads [] = []"
| "payloads (Published p # es) = p # payloads es"
| "payloads (_ # es) = payloads es"

lemma published_decodable:
  "\<forall>p\<in>set (payloads es). record_from_slice J p \<noteq> None \<Longrightarrow>
     published J es = map (\<lambda>p. the (record_from_slice J p)) (payloads es)"
  by (induction es rule: payloads.induct) auto

text \<open>
  What the network delivers to a subscriber of \<open>ns\<close>: messages with the validator that sent them, of each
  honest one a part, in order, of what its loop has published for the topic. Messages may get
  lost, those of different validators come in any order, and the faulty ones send what they like.
\<close>

definition delivers ::
  "(bytes \<Rightarrow> string) \<Rightarrow> Namespace \<Rightarrow> nat set \<Rightarrow> ('s, 'sk) loops \<Rightarrow> (nat \<times> bytes) list \<Rightarrow> bool" where
  "delivers lossy ns bad w messages \<longleftrightarrow>
     (\<forall>i. i \<notin> bad \<longrightarrow> subseq (map snd (filter (\<lambda>z. fst z = i) messages))
       (map snd (filter (\<lambda>(t, b). t = lossy ns) (lw_published w i))))"

text \<open>
  The conditions of what follows: no other namespace that is written to has the same topic, and no
  validator is asked to write a message to the namespace twice.
\<close>

definition clean_topic :: "('sk, 'pk, 'sig, 'agg) lib \<Rightarrow> (bytes \<Rightarrow> string) \<Rightarrow> Namespace \<Rightarrow> (Namespace \<times> Message) list \<Rightarrow> bool" where
  "clean_topic L lossy ns reqs \<longleftrightarrow>
     (\<forall>(ns', m)\<in>set reqs. lossy ns' = lossy ns \<longrightarrow> ns' = ns) \<and>
     distinct (map (\<lambda>(ns', m). Message_digest L m ns) (filter (\<lambda>(ns', m). ns' = ns) reqs))"

lemma delivered_records:
  assumes "json_faithful J" "mpsc_laws Q" "started sk w0" "loop_run L J D Q lossy bad w0 es w"
    and "clean_topic L lossy ns (asked_of J i (concat (map served es)))"
    and "subseq bs (map snd (filter (\<lambda>(t, b). t = lossy ns) (lw_published w i)))"
  shows "\<exists>rs. map (record_from_slice J) bs = map Some rs \<and> distinct (map (\<lambda>r. Record_message_digest L r ns) rs) \<and>
    (\<forall>r\<in>set rs. (ns, r_message r) \<in> set (asked_of J i (concat (map served es))))"
proof -
  from published_accounted [OF assms(2-4)] obtain ws where
    ws: "map (\<lambda>(ns, r). (ns, r_message r)) ws = asked_of J i (concat (map served es))"
    "subseq (lw_published w i) (published_as lossy (map (item J) ws))" by blast
  show ?thesis
    by (rule one_publication [OF assms(1) ws _ _ assms(6)]) (use assms(5) in \<open>simp_all add: clean_topic_def\<close>)
qed

text \<open>Records of one message among those delivered come from different validators.\<close>

lemma same_message_voters:
  assumes "json_faithful J" "mpsc_laws Q" "started sk w0" "loop_run L J D Q lossy bad w0 es w"
    and clean: "\<And>i. i \<notin> bad \<Longrightarrow> clean_topic L lossy ns (asked_of J i (concat (map served es)))"
    and "delivers lossy ns bad w messages" "subseq zs messages" "\<forall>z\<in>set zs. fst z \<notin> bad"
    and k: "\<forall>z\<in>set zs. Record_message_digest L (the (record_from_slice J (snd z))) ns = k"
  shows "distinct (map fst zs)"
    and "\<forall>i\<in>fst ` set zs. \<exists>m. (ns, m) \<in> set (asked_of J i (concat (map served es))) \<and> Message_digest L m ns = k"
proof -
  have each: "\<exists>rs. map (record_from_slice J) (map snd (filter (\<lambda>z. fst z = i) zs)) = map Some rs \<and>
      distinct (map (\<lambda>r. Record_message_digest L r ns) rs) \<and>
      (\<forall>r\<in>set rs. (ns, r_message r) \<in> set (asked_of J i (concat (map served es))))" for i
  proof (cases "i \<in> bad")
    case True
    then have "filter (\<lambda>z. fst z = i) zs = []" using assms(8) by (auto simp: filter_empty_conv)
    then show ?thesis by simp
  next
    case False
    show ?thesis
    proof (rule delivered_records [OF assms(1-4) clean [OF False]])
      have "subseq (map snd (filter (\<lambda>z. fst z = i) zs)) (map snd (filter (\<lambda>z. fst z = i) messages))"
        by (intro subseq_map subseq_filter assms(7))
      then show "subseq (map snd (filter (\<lambda>z. fst z = i) zs)) (map snd (filter (\<lambda>(t, b). t = lossy ns) (lw_published w i)))"
        using assms(6) False unfolding delivers_def by (blast intro: subseq_order.order_trans)
    qed
  qed
  have digest: "Record_message_digest L r ns = k"
    if "map (record_from_slice J) (map snd (filter (\<lambda>z. fst z = i) zs)) = map Some rs" "r \<in> set rs" for i rs r
  proof -
    have "Some r \<in> set (map (record_from_slice J) (map snd (filter (\<lambda>z. fst z = i) zs)))" unfolding that(1) using that(2) by simp
    then obtain z where "z \<in> set zs" "record_from_slice J (snd z) = Some r" by auto
    then show ?thesis using k by force
  qed
  show "distinct (map fst zs)"
  proof (rule distinct_if_single)
    fix i
    from each [of i] obtain rs where
      rs: "map (record_from_slice J) (map snd (filter (\<lambda>z. fst z = i) zs)) = map Some rs"
      "distinct (map (\<lambda>r. Record_message_digest L r ns) rs)" by blast
    have "set (map (\<lambda>r. Record_message_digest L r ns) rs) \<subseteq> {k}" using digest [OF rs(1)] by auto
    from card_mono [OF _ this] distinct_card [OF rs(2)] have "length rs \<le> 1" by simp
    then show "length (filter (\<lambda>z. fst z = i) zs) \<le> 1" using arg_cong [OF rs(1), of length] by simp
  qed
  show "\<forall>i\<in>fst ` set zs. \<exists>m. (ns, m) \<in> set (asked_of J i (concat (map served es))) \<and> Message_digest L m ns = k"
  proof
    fix i assume "i \<in> fst ` set zs"
    then have "filter (\<lambda>z. fst z = i) zs \<noteq> []" by (auto simp: filter_empty_conv)
    moreover from each [of i] obtain rs where
      rs: "map (record_from_slice J) (map snd (filter (\<lambda>z. fst z = i) zs)) = map Some rs"
      "\<forall>r\<in>set rs. (ns, r_message r) \<in> set (asked_of J i (concat (map served es)))" by blast
    ultimately have "rs \<noteq> []" by auto
    then have "hd rs \<in> set rs" by simp
    with rs(2) digest [OF rs(1) this] show "\<exists>m. (ns, m) \<in> set (asked_of J i (concat (map served es))) \<and> Message_digest L m ns = k"
      by (auto simp: Record_message_digest_eq)
  qed
qed

text \<open>
  C5: a certificate of \<^verbatim>\<open>subscribe_certified\<close> over the records that a subscriber receives from running
  event loops stands for a quorum of different honest validators that were asked to write its message,
  unless a faulty validator has sent a record of this message; provided that no other namespace
  written to has the same topic and no validator is asked twice to write a message to the namespace.
\<close>

theorem subscription_sound:
  assumes "json_faithful J" "mpsc_laws Q" "mpsc_laws C" "fifo_laws M" "started sk w0"
    and "loop_run L J D Q lossy bad w0 es w"
    and "\<forall>i. i \<notin> bad \<longrightarrow> clean_topic L lossy ns (asked_of J i (concat (map served es)))"
    and "delivers lossy ns bad w messages" "\<forall>(i, b)\<in>set messages. record_from_slice J b \<noteq> None"
    and "payloads events = map snd messages" "map fst stream = fs_received (forward J C events)"
    and "cert \<in> set (fst (client_subscribe_certified L M c ns stream))"
  shows "(\<exists>(i, b)\<in>set messages. i \<in> bad \<and> (\<exists>r. record_from_slice J b = Some r \<and>
      Record_message_digest L r ns = Message_digest L (cr_message cert) ns)) \<or>
    (\<exists>S. S \<inter> bad = {} \<and> finite S \<and> has_reached_quorum (validator_count c) (card S) \<and>
      (\<forall>i\<in>S. \<exists>m. (ns, m) \<in> set (asked_of J i (concat (map served es))) \<and>
         Message_digest L m ns = Message_digest L (cr_message cert) ns))"
proof -
  let ?dec = "\<lambda>z. the (record_from_slice J (snd z))"
  from certify_stream_grounded [OF assms(4) groups_init(1) [OF assms(4)], of L "validator_count c" ns stream] assms(12)
  have "grounded L (validator_count c) ns (map fst stream) cert"
    by (auto simp: client_subscribe_certified_def)
  then obtain k rs where rs: "rs \<noteq> []" "sublist rs (group_of L ns (map fst stream) k)"
    "has_reached_quorum (validator_count c) (length rs)" "from_records_unchecked L rs = Some cert"
    unfolding grounded_def by blast
  have "published J events = map ?dec messages"
    using published_decodable [of events J] assms(9,10) by (fastforce simp: comp_def)
  moreover have "subseq (fs_received (forward J C events)) (published J events)"
    using forward_inv [OF assms(3), of J events] by (meson list_emb_prefix prefixI prefix_imp_subseq subseq_order.order_trans)
  moreover have "subseq rs (map fst stream)"
    using sublist_imp_subseq [OF rs(2)] unfolding group_of_def by (rule subseq_order.order_trans) simp
  ultimately have "subseq rs (map ?dec messages)" using assms(11) by (metis subseq_order.order_trans)
  from subseq_map_split [OF this] obtain zs where zs: "subseq zs messages" "rs = map ?dec zs" by blast
  have "set rs \<subseteq> set (group_of L ns (map fst stream) k)" using rs(2) by (rule set_mono_sublist)
  then have k: "\<forall>z\<in>set zs. Record_message_digest L (?dec z) ns = k" by (auto simp: zs(2) group_of_def)
  have "cr_message cert = r_message (hd rs)"
    using rs(1,4) by (cases rs) (auto simp: Let_def split: option.splits)
  moreover have "hd rs \<in> set rs" using rs(1) by simp
  ultimately have msg: "Message_digest L (cr_message cert) ns = k"
    using k by (auto simp: zs(2) Record_message_digest_eq)
  show ?thesis
  proof (cases "\<forall>z\<in>set zs. fst z \<notin> bad")
    case True
    have clean: "i \<notin> bad \<Longrightarrow> clean_topic L lossy ns (asked_of J i (concat (map served es)))" for i using assms(7) by blast
    note voters = same_message_voters [OF assms(1,2,5,6) clean assms(8) zs(1) True k]
    have "card (fst ` set zs) = length rs" using distinct_card [OF voters(1)] by (simp add: zs(2))
    then show ?thesis using True rs(3) voters(2) msg by (intro disjI2 exI [of _ "fst ` set zs"]) auto
  next
    case False
    then obtain i b where z: "(i, b) \<in> set zs" "i \<in> bad" by auto
    have "(i, b) \<in> set messages" using list_emb_set [OF zs(1) z(1)] by auto
    moreover from this assms(9) obtain r where "record_from_slice J b = Some r" by auto
    moreover from this k z(1) have "Record_message_digest L r ns = k" by force
    ultimately show ?thesis using z(2) msg by (intro disjI1 bexI [of _ "(i, b)"]) auto
  qed
qed

text \<open>A client of one validator, the one of the sample run.\<close>

definition one_client :: "nat Client" where
  "one_client = \<lparr>validators = [0 \<mapsto> 3], validator_sockets = [0 \<mapsto> ([127, 0, 0, 1], 1)]\<rparr>"

lemma one_client_certifies: "\<exists>cert. cert \<in> set (fst (client_subscribe_certified toy_lib queue_fifo one_client [7] [(r, True)]))"
proof -
  have "client_subscribe_certified toy_lib queue_fifo one_client [7] (map (\<lambda>r. (r, True)) [r]) =
      (certificates toy_lib (validator_count one_client) [7] [] [r], False)"
    unfolding client_subscribe_certified_def
    by (rule certify_stream_exact [OF queue_fifo_laws groups_init(2) [OF queue_fifo_laws]]) simp
  then show ?thesis
    by (simp add: one_client_def validator_count_def group_of_def has_reached_quorum_def)
qed

theorem subscription_sound_witness:
  "\<exists>r cert i m. cert \<in> set (fst (client_subscribe_certified toy_lib queue_fifo one_client [7] [(r, True)])) \<and>
    ([7], m) \<in> set (asked_of toy_json i [Deliver 1 0 subscribe_message 0, Deliver 1 1 sample_message 5000000]) \<and>
    Message_digest toy_lib m [7] = Message_digest toy_lib (cr_message cert) [7]"
proof -
  let ?es = "[Iterate 1 0 (Incoming subscribe_message 0), Iterate 1 1 (Incoming sample_message 5000000), Iterate 1 0 (Idle False)]"
  have es: "concat (map served ?es) = [Deliver 1 0 subscribe_message 0, Deliver 1 1 sample_message 5000000]" by simp
  obtain w b where run: "sample_loop_run sample_loops ?es w" and pub: "lw_published w 1 = [(''t'', b)]"
    using sample_loop_run_exists by blast
  have sub: "request_from_slice toy_json subscribe_message = Some (Subscribe [7])"
    using codecD [OF json_faithfulD(1) [OF toy_json_faithful], of "Subscribe [7]"] by auto
  have asked: "asked_of toy_json i (concat (map served ?es)) = (if i = 1 then [([7], Message [1])] else [])" for i
    by (simp add: asked_of_def sub sample_request)
  have clean: "clean_topic toy_lib sample_topic [7] (asked_of toy_json i (concat (map served ?es)))" for i
    unfolding asked by (simp add: clean_topic_def)
  have "subseq [b] (map snd (filter (\<lambda>(t, b). t = sample_topic [7]) (lw_published w 1)))" by (simp add: pub del: One_nat_def)
  from delivered_records [OF toy_json_faithful list_mpsc_laws sample_started run clean this] obtain r where
    r: "record_from_slice toy_json b = Some r" by auto
  obtain cert where cert: "cert \<in> set (fst (client_subscribe_certified toy_lib queue_fifo one_client [7] [(r, True)]))"
    using one_client_certifies by blast
  have "delivers sample_topic [7] {} w [(1, b)]" by (simp add: delivers_def pub del: One_nat_def)
  moreover have "map fst [(r, True)] = fs_received (forward toy_json list_mpsc [Published b, Polled])"
    using r by (simp add: forward_def forward_init_def list_mpsc_def)
  ultimately have "\<exists>S. has_reached_quorum (validator_count one_client) (card S) \<and>
      (\<forall>i\<in>S. \<exists>m. ([7], m) \<in> set (asked_of toy_json i (concat (map served ?es))) \<and>
         Message_digest toy_lib m [7] = Message_digest toy_lib (cr_message cert) [7])"
    using subscription_sound [OF toy_json_faithful list_mpsc_laws list_mpsc_laws queue_fifo_laws sample_started run _ _ _ _ _ cert,
        where messages = "[(1, b)]" and events = "[Published b, Polled]"] clean r by auto
  then obtain S where S: "has_reached_quorum (validator_count one_client) (card S)"
    "\<forall>i\<in>S. \<exists>m. ([7], m) \<in> set (asked_of toy_json i (concat (map served ?es))) \<and>
       Message_digest toy_lib m [7] = Message_digest toy_lib (cr_message cert) [7]" by blast
  from S(1) have "S \<noteq> {}" by (auto simp: one_client_def validator_count_def has_reached_quorum_def)
  with S(2) cert es show ?thesis by (metis all_not_in_conv)
qed

end
