(* ===== verification/Timing.thy ===== *)
theory Timing
  imports ClientProperties ClientRead
begin

text \<open>
  The timeouts of \<^verbatim>\<open>src/client/client.rs\<close>: when the futures of a call complete, and when the call
  returns. Times are nanoseconds since the call was made; the work of the client itself takes none.
\<close>

section \<open>Timeouts\<close>

definition from_millis :: "nat \<Rightarrow> nat" where
  "from_millis ms = ms * 1000000"

definition WRITE_TIMEOUT :: nat where
  "WRITE_TIMEOUT = from_millis 1000"

definition READ_TIMEOUT :: nat where
  "READ_TIMEOUT = from_millis 1000"

text \<open>What would become of a request without a timeout.\<close>

datatype fate = Answers nat bytes | Fails nat ReqError | Silent

fun delay :: "fate \<Rightarrow> nat" where
  "delay (Answers d bs) = d"
| "delay (Fails d e) = d"
| "delay Silent = 0"

text \<open>
  \<^verbatim>\<open>tokio::time::timeout(limit, socket.request(..))\<close>: the future of the request is polled first, so
  it wins when both are ready.
\<close>

fun with_timeout :: "nat \<Rightarrow> fate \<Rightarrow> nat \<times> reply" where
  "with_timeout limit (Answers d bs) = (if d \<le> limit then (d, Replied bs) else (limit, TimedOut))"
| "with_timeout limit (Fails d e) = (if d \<le> limit then (d, ReqFailed e) else (limit, TimedOut))"
| "with_timeout limit Silent = (limit, TimedOut)"

text \<open>
  \<^verbatim>\<open>FuturesUnordered\<close> yields the futures as they complete; those that complete at the same time come
  in any order. So an order of the validators fits their fates when the times do not decrease.
\<close>

definition completions_of :: "nat \<Rightarrow> (nat \<Rightarrow> fate) \<Rightarrow> nat list \<Rightarrow> completion list" where
  "completions_of limit fates order = map (\<lambda>i. (i, snd (with_timeout limit (fates i)))) order"

definition by_time :: "nat \<Rightarrow> (nat \<Rightarrow> fate) \<Rightarrow> nat list \<Rightarrow> bool" where
  "by_time limit fates order \<longleftrightarrow> distinct order \<and> sorted (map (\<lambda>i. fst (with_timeout limit (fates i))) order)"

text \<open>When a loop over timed values is left: with the value that stops it, or with the last one.\<close>

fun loop_end :: "('r \<Rightarrow> 'st \<Rightarrow> 'st step) \<Rightarrow> (nat \<times> 'r option) list \<Rightarrow> 'st \<Rightarrow> nat \<Rightarrow> nat" where
  "loop_end body [] st now = now"
| "loop_end body ((t, None) # rs) st now = t"
| "loop_end body ((t, Some r) # rs) st now =
     (case body r st of Next st' \<Rightarrow> loop_end body rs st' t | _ \<Rightarrow> t)"

definition timed_values :: "nat \<Rightarrow> (nat \<Rightarrow> fate) \<Rightarrow> nat list \<Rightarrow> (nat \<times> (nat \<times> bytes) option) list" where
  "timed_values limit fates order =
     map (\<lambda>i. case with_timeout limit (fates i) of (t, r) \<Rightarrow> (t, future_value (i, r))) order"

text \<open>When \<^verbatim>\<open>write\<close> and the loop of \<^verbatim>\<open>read_message\<close> are done.\<close>

definition write_returns ::
  "('sk, 'pk, 'sig, 'agg) lib \<Rightarrow> 'sig json \<Rightarrow> 'pk Client \<Rightarrow> Namespace \<Rightarrow> Message \<Rightarrow> (nat \<Rightarrow> fate) \<Rightarrow> nat list \<Rightarrow> nat" where
  "write_returns L J c ns m fates order =
     loop_end (write_step L J c ns m) (timed_values WRITE_TIMEOUT fates order) (write_init c) 0"

definition read_message_returns ::
  "('sk, 'pk, 'sig, 'agg) lib \<Rightarrow> 'sig json \<Rightarrow> 'pk Client \<Rightarrow> Namespace \<Rightarrow> B256 \<Rightarrow> (nat \<Rightarrow> fate) \<Rightarrow> nat list \<Rightarrow> nat" where
  "read_message_returns L J c ns msg_id fates order =
     loop_end (read_message_step L J c ns msg_id) (timed_values READ_TIMEOUT fates order) (read_init c) 0"

lemma loop_end_bound:
  assumes "\<forall>(t, r)\<in>set rs. t \<le> limit" "now \<le> limit"
  shows "loop_end body rs st now \<le> limit"
  using assms by (induction body rs st now rule: loop_end.induct) (auto split: step.split)

lemma with_timeout_bound: "fst (with_timeout limit f) \<le> limit"
  by (cases f) auto

lemma timed_values_bound: "\<forall>(t, r)\<in>set (timed_values limit fates order). t \<le> limit"
  using with_timeout_bound by (auto simp: timed_values_def split: prod.splits) (metis fst_conv)

text \<open>So no call takes longer than its timeout, whatever the validators do.\<close>

lemma write_returns_bound: "write_returns L J c ns m fates order \<le> WRITE_TIMEOUT"
  unfolding write_returns_def by (rule loop_end_bound [OF timed_values_bound]) simp

lemma read_message_returns_bound: "read_message_returns L J c ns i fates order \<le> READ_TIMEOUT"
  unfolding read_message_returns_def by (rule loop_end_bound [OF timed_values_bound]) simp

section \<open>Votes in time\<close>

definition fast_votes ::
  "('sk, 'pk, 'sig, 'agg) lib \<Rightarrow> 'sig json \<Rightarrow> 'pk Client \<Rightarrow> Namespace \<Rightarrow> Message \<Rightarrow> (nat \<Rightarrow> fate) \<Rightarrow> nat set" where
  "fast_votes L J c ns m fates =
     {i. \<exists>d bs. fates i = Answers d bs \<and> d \<le> WRITE_TIMEOUT \<and> write_vote L J c ns m i bs \<noteq> None}"

text \<open>
  Requests that fail do so only after the timeout, and no answer comes at the very moment of the
  timeout, when the order of the two is not determined.
\<close>

definition no_failure :: "nat \<Rightarrow> (nat \<Rightarrow> fate) \<Rightarrow> nat list \<Rightarrow> bool" where
  "no_failure limit fates order \<longleftrightarrow>
     (\<forall>i\<in>set order. (\<forall>d e. fates i = Fails d e \<longrightarrow> limit < d) \<and> (\<forall>d bs. fates i = Answers d bs \<longrightarrow> d \<noteq> limit))"

text \<open>The first request of an order: answered in time, or nothing comes in time any more.\<close>

lemma first_in_time:
  assumes "by_time limit fates (i # order)" "no_failure limit fates (i # order)"
  obtains (answer) d bs where "fates i = Answers d bs" "d < limit"
      "by_time limit fates order" "no_failure limit fates order"
    | (late) "with_timeout limit (fates i) = (limit, TimedOut)"
      "\<forall>j\<in>set (i # order). \<forall>d bs. fates j = Answers d bs \<longrightarrow> limit < d"
proof (cases "\<exists>d bs. fates i = Answers d bs \<and> d \<le> limit")
  case True
  then obtain d bs where "fates i = Answers d bs" "d < limit"
    using assms(2) by (fastforce simp: no_failure_def)
  then show thesis using answer assms by (simp add: by_time_def no_failure_def)
next
  case False
  then have i: "with_timeout limit (fates i) = (limit, TimedOut)"
    using assms(2) by (cases "fates i") (auto simp: no_failure_def)
  have "limit < d" if "j \<in> set (i # order)" "fates j = Answers d bs" for j d bs
  proof -
    have "limit \<le> fst (with_timeout limit (fates j))" using assms(1) that(1) i by (auto simp: by_time_def)
    moreover have "d \<noteq> limit" using assms(2) that unfolding no_failure_def by blast
    ultimately show ?thesis using that(2) by (simp split: if_splits)
  qed
  with i show thesis by (rule late [OF _ ballI [OF allI [OF allI [OF impI]]]]) blast
qed

lemma late_no_votes:
  "\<forall>j\<in>set order. \<forall>d bs. fates j = Answers d bs \<longrightarrow> WRITE_TIMEOUT < d \<Longrightarrow>
     filter (\<lambda>i. i \<in> fast_votes L J c ns m fates) order = []"
  by (fastforce simp: fast_votes_def filter_empty_conv)

lemma votes_by_time:
  assumes "by_time WRITE_TIMEOUT fates order" "no_failure WRITE_TIMEOUT fates order"
  shows "map fst (select (write_vote L J c ns m) (replies (completions_of WRITE_TIMEOUT fates order))) =
    filter (\<lambda>i. i \<in> fast_votes L J c ns m fates) order"
  using assms
proof (induction order)
  case Nil
  show ?case by (simp add: completions_of_def)
next
  case (Cons i order)
  from Cons.prems show ?case
  proof (cases rule: first_in_time)
    case (answer d bs)
    with Cons.IH show ?thesis by (auto simp: completions_of_def fast_votes_def split: option.split)
  next
    case late
    have "filter (\<lambda>i. i \<in> fast_votes L J c ns m fates) (i # order) = []" by (rule late_no_votes [OF late(2)])
    then show ?thesis using late(1) by (simp add: completions_of_def)
  qed
qed

text \<open>The loop is left with the vote that makes the quorum.\<close>

lemma write_loop_end:
  assumes agg: "agg_unchecked_total L"
    and "\<forall>i\<in>set order. validators c i \<noteq> None \<and> i < validator_count c"
    and "by_time WRITE_TIMEOUT fates order" "no_failure WRITE_TIMEOUT fates order"
    and "write_ghost L J c ns m h st"
    and "length (select (write_vote L J c ns m) h) < quorum_threshold (validator_count c)"
    and "quorum_threshold (validator_count c) \<le> length (select (write_vote L J c ns m) h) +
      length (filter (\<lambda>i. i \<in> fast_votes L J c ns m fates) order)"
  shows "loop_end (write_step L J c ns m) (timed_values WRITE_TIMEOUT fates order) st now =
    delay (fates (filter (\<lambda>i. i \<in> fast_votes L J c ns m fates) order !
      (quorum_threshold (validator_count c) - 1 - length (select (write_vote L J c ns m) h))))"
  using assms(2-)
proof (induction order arbitrary: h st now)
  case Nil
  then show ?case by simp
next
  case (Cons i order)
  let ?v = "write_vote L J c ns m" and ?q = "quorum_threshold (validator_count c)"
  let ?V = "fast_votes L J c ns m fates"
  have known: "validators c i \<noteq> None" "i < validator_count c"
    "\<forall>i\<in>set order. validators c i \<noteq> None \<and> i < validator_count c" using Cons.prems(1) by auto
  from Cons.prems(2,3) show ?case
  proof (cases rule: first_in_time)
    case (answer d bs)
    then have head: "timed_values WRITE_TIMEOUT fates (i # order) =
        (d, Some (i, bs)) # timed_values WRITE_TIMEOUT fates order" by (simp add: timed_values_def)
    show ?thesis
    proof (cases "?v i bs")
      case None
      then have "write_step L J c ns m (i, bs) st = Next st" "i \<notin> ?V"
        using write_step_cases(2) [OF None known(1)] answer by (auto simp: fast_votes_def)
      moreover from this have "write_ghost L J c ns m (h @ [(i, bs)]) st"
        by (intro write_ghost_step [OF Cons.prems(4)]) simp
      ultimately show ?thesis
        using Cons.IH [OF known(3) answer(3,4), of "h @ [(i, bs)]" st d] Cons.prems(5,6) None by (simp add: head)
    next
      case (Some x)
      then have V: "i \<in> ?V" using answer by (auto simp: fast_votes_def)
      from write_step_counts [OF agg Some known(2) Cons.prems(4,5)] obtain st' where
        step: "write_step L J c ns m (i, bs) st = (if ?q \<le> Suc (length (select ?v h)) then Stop st' else Next st')"
        and g: "write_ghost L J c ns m (h @ [(i, bs)]) st'" by blast
      show ?thesis
      proof (cases "?q \<le> Suc (length (select ?v h))")
        case True
        then have "?q - 1 - length (select ?v h) = 0" by simp
        with True show ?thesis using V answer(1) by (simp add: head step)
      next
        case False
        then have "?q - 1 - length (select ?v h) = Suc (?q - 1 - length (select ?v (h @ [(i, bs)])))"
          using Some by simp
        with False show ?thesis using Cons.IH [OF known(3) answer(3,4) g, of d] Cons.prems(6) V Some
          by (simp add: head step)
      qed
    qed
  next
    case late
    have "filter (\<lambda>i. i \<in> ?V) (i # order) = []" by (rule late_no_votes [OF late(2)])
    then show ?thesis using Cons.prems(5,6) by simp
  qed
qed

section \<open>When \<^verbatim>\<open>write\<close> returns\<close>

lemma Max_sorted_take:
  fixes f :: "nat \<Rightarrow> nat"
  assumes "sorted (map f xs)" "0 < k" "k \<le> length xs"
  shows "Max (f ` set (take k xs)) = f (xs ! (k - 1))"
proof (rule Max_eqI)
  show "y \<le> f (xs ! (k - 1))" if "y \<in> f ` set (take k xs)" for y
  proof -
    from that obtain j where "j < k" "y = f (xs ! j)" using assms(3) by (auto simp: in_set_conv_nth)
    then show ?thesis using sorted_nth_mono [OF assms(1), of j "k - 1"] assms(2,3) by simp
  qed
  show "f (xs ! (k - 1)) \<in> f ` set (take k xs)"
    using assms(2,3) by (intro imageI) (auto simp: in_set_conv_nth intro!: exI [of _ "k - 1"])
qed simp

lemma sorted_take_le:
  fixes f :: "nat \<Rightarrow> nat"
  assumes "sorted (map f xs)" "x \<in> set (take k xs)" "y \<in> set (drop k xs)"
  shows "f x \<le> f y"
proof -
  have "sorted (map f (take k xs) @ map f (drop k xs))" using assms(1) by (simp flip: map_append)
  then show ?thesis using assms(2,3) unfolding sorted_append by simp
qed

lemma fast_votes_by_time:
  assumes "by_time WRITE_TIMEOUT fates order"
  shows "sorted (map (\<lambda>i. delay (fates i)) (filter (\<lambda>i. i \<in> fast_votes L J c ns m fates) order))"
proof -
  let ?W = "filter (\<lambda>i. i \<in> fast_votes L J c ns m fates) order"
  have "sorted (map (\<lambda>i. fst (with_timeout WRITE_TIMEOUT (fates i))) ?W)"
    using assms unfolding by_time_def by (intro sorted_filter) simp
  moreover have "map (\<lambda>i. fst (with_timeout WRITE_TIMEOUT (fates i))) ?W = map (\<lambda>i. delay (fates i)) ?W"
    by (auto simp: fast_votes_def)
  ultimately show ?thesis by simp
qed

text \<open>
  C13: \<^verbatim>\<open>write\<close> is as fast as the quorum: when no request fails before the timeout, it succeeds exactly
  if a quorum of validators answer with valid signatures in time, however slow or silent the others
  are, and it returns when the last of the fastest quorum of them has answered; in any case it returns
  within the timeout.
\<close>

theorem write_in_time:
  assumes "agg_unchecked_total L" "request_to_vec J (Write ns m) \<noteq> None"
    and "dense c" "client_ok c" "validator_count c \<noteq> 0"
    and "set order = {..<validator_count c}" "by_time WRITE_TIMEOUT fates order" "no_failure WRITE_TIMEOUT fates order"
  shows "let q = quorum_threshold (validator_count c); V = fast_votes L J c ns m fates \<inter> {..<validator_count c};
      result = client_write Release L J c ns m (completions_of WRITE_TIMEOUT fates order);
      returns = write_returns L J c ns m fates order
    in returns \<le> WRITE_TIMEOUT \<and>
      (if card V < q then result = Err (ClientWrite (WriteNoQuorum (card V) (validator_count c)))
       else (\<exists>cert. result = Ok cert) \<and>
         (\<exists>used\<subseteq>V. card used = q \<and> (\<forall>i\<in>used. \<forall>j\<in>V - used. delay (fates i) \<le> delay (fates j)) \<and>
            returns = Max ((\<lambda>i. delay (fates i)) ` used)))"
proof -
  let ?n = "validator_count c" and ?V = "fast_votes L J c ns m fates \<inter> {..<validator_count c}"
  let ?q = "quorum_threshold ?n" and ?cs = "completions_of WRITE_TIMEOUT fates order"
  let ?W = "filter (\<lambda>i. i \<in> fast_votes L J c ns m fates) order"
  let ?returns = "write_returns L J c ns m fates order"
  have dist: "distinct ?W" using assms(7) by (simp add: by_time_def)
  have W: "set ?W = ?V" using assms(6) by auto
  then have len: "length ?W = card ?V" using distinct_card [OF dist] by simp
  have "map fst ?cs = order" by (simp add: completions_of_def comp_def)
  then have order: "completion_order c ?cs"
    using assms(3,4,6,7) by (simp add: completion_order_def by_time_def dense_def client_ok_def image_set)
  note known = dense_known [OF assms(3,4) order]
  have votes: "length (select (write_vote L J c ns m) (replies ?cs)) = card ?V"
    using arg_cong [OF votes_by_time [OF assms(7,8), of L J c ns m], of length] len by simp
  note bound = write_returns_bound [of L J c ns m fates order]
  show ?thesis
  proof (cases "card ?V < ?q")
    case True
    then show ?thesis using client_write_release(2) [OF assms(1,2,5) known] votes bound by simp
  next
    case False
    then have q: "?q \<le> length ?W" "0 < ?q" using len assms(5) by (simp_all add: not_less del: quorum_threshold_eq_0)
      (metis gr0I quorum_threshold_eq_0)
    have known': "\<forall>i\<in>set order. validators c i \<noteq> None \<and> i < ?n" using assms(3,6) by (auto simp: dense_def)
    have ret: "?returns = delay (fates (?W ! (?q - 1)))"
      using write_loop_end [OF assms(1) known' assms(7,8) write_ghost_init] q by (simp add: write_returns_def)
    let ?used = "set (take ?q ?W)"
    note sorted = fast_votes_by_time [OF assms(7), of L J c ns m]
    have "?used \<subseteq> ?V" using set_take_subset [of ?q ?W] W by simp
    moreover have "card ?used = ?q" using distinct_card [of "take ?q ?W"] dist q(1) by simp
    moreover have "?V - ?used \<subseteq> set (drop ?q ?W)" using W set_append [of "take ?q ?W" "drop ?q ?W"] by auto
    then have "\<forall>i\<in>?used. \<forall>j\<in>?V - ?used. delay (fates i) \<le> delay (fates j)"
      using sorted_take_le [OF sorted] by blast
    moreover have "?returns = Max ((\<lambda>i. delay (fates i)) ` ?used)"
      unfolding ret using Max_sorted_take [OF sorted q(2,1)] by simp
    moreover have "\<exists>cert. client_write Release L J c ns m ?cs = Ok cert"
      using client_write_release(1) [OF assms(1,2,5) known] votes q(1) len by simp
    ultimately show ?thesis using False bound by (simp only: Let_def if_False simp_thms) blast
  qed
qed

text \<open>The third validator is too slow; the call returns after 30 ms, with the second answer.\<close>

definition sample_fates :: "nat \<Rightarrow> fate" where
  "sample_fates i =
     (if i = 0 then Answers (from_millis 30) (pack_record (sample_record 0 (Timestamp 5)))
      else if i = 2 then Answers (from_millis 10) (pack_record (sample_record 2 (Timestamp 9)))
      else Answers (from_millis 1500) [])"

theorem write_in_time_witness:
  "(\<exists>cert. client_write Release toy_lib toy_json sample_client [7] (Message [1])
      (completions_of WRITE_TIMEOUT sample_fates [2, 0, 1]) = Ok cert) \<and>
   write_returns toy_lib toy_json sample_client [7] (Message [1]) sample_fates [2, 0, 1] \<le> WRITE_TIMEOUT"
proof -
  have "{0, 2} \<subseteq> fast_votes toy_lib toy_json sample_client [7] (Message [1]) sample_fates \<inter> {..<3}"
    by (auto simp: fast_votes_def sample_fates_def sample_vote WRITE_TIMEOUT_def from_millis_def)
  from card_mono [OF _ this] have "\<not> card (fast_votes toy_lib toy_json sample_client [7] (Message [1]) sample_fates \<inter> {..<3}) < 2"
    by simp
  moreover have "by_time WRITE_TIMEOUT sample_fates [2, 0, 1]" "no_failure WRITE_TIMEOUT sample_fates [2, 0, 1]"
    by (auto simp: by_time_def no_failure_def sample_fates_def WRITE_TIMEOUT_def from_millis_def)
  moreover have "set [2, 0, 1] = {..<3 :: nat}" by auto
  ultimately show ?thesis
    using write_in_time [OF toy_agg_total _ sample_client_dense sample_client_ok, of toy_json "[7]" "Message [1]" "[2, 0, 1]" sample_fates]
    by (simp add: Let_def quorum_threshold_def)
qed

end
