(* ===== verification/Spec2Isabelle.thy ===== *)
theory Spec2Isabelle
  imports System HttpApi DataProperties RegistryProperties ValidatorProperties ReadProperties
    NetworkProperties PollProperties SubscriptionProperties Interfaces Feed ContractBalance
    LogEndToEnd LoopProperties SubscriberRuns Timing
begin

text \<open>
  A verification development for DATO (\<^verbatim>\<open>chainbound/dato\<close>), a decentralised timestamping and
  data-availability service written in Rust. File names are relative to the repository root.

  \<^bold>\<open>The program.\<close> A set of validators, known to everybody through a registry, timestamps and
  stores messages. A client sends a message to all of them; each validator reads its clock,
  signs the digest of the message with its time, stores the record, answers, and publishes the
  record to its subscribers. The client verifies the answers, collects a quorum, aggregates the
  signatures, and takes the median of an array with one slot per validator (zero for the ones
  that did not vote) as the certified timestamp. The same is done when a message is read back,
  where a quorum may also certify that it is unavailable. Logs are read by merging what the
  validators return, and subscriptions by merging what they publish.

  \<^bold>\<open>Theories, bottom up, and the code they model.\<close>
  \<^item> \<open>Prelude\<close>: machine integers, the result type \<open>res\<close> (\<open>Ok\<close>, \<open>Err\<close>, \<open>Panic\<close>), the build
    profile that decides whether an overflow panics (\<open>Dev\<close>) or wraps (\<open>Release\<close>), and the loop
    over completed responses, \<open>run_loop\<close>, with the locales \<open>response_loop\<close> and \<open>breaking_loop\<close>
    that relate such a loop to the responses it has consumed.
  \<^item> \<open>Timestamps\<close>, \<open>Crypto\<close>, \<open>Common\<close>: \<^verbatim>\<open>src/common.rs\<close> and \<^verbatim>\<open>src/primitives/bls.rs\<close>; the
    timestamp on 128 bits and its median, signing with the domain prefix, aggregation, the serde
    encodings of signatures, records, logs, certificates, digests and error types.
  \<^item> \<open>Quorum\<close>: \<^verbatim>\<open>has_reached_quorum\<close> of \<^verbatim>\<open>src/client/client.rs\<close>, over the integers and at the
    width of \<^verbatim>\<open>usize\<close>, and the array of votes.
  \<^item> \<open>Wire\<close>: the requests and their encoding, \<^verbatim>\<open>src/primitives/mod.rs\<close>.
  \<^item> \<open>Fifo\<close>, \<open>Store\<close>: the bounded map of the program and \<^verbatim>\<open>src/validator/store.rs\<close>; the trait
    \<^verbatim>\<open>DataStore\<close> is the record \<open>DataStore\<close>, its contract the locale \<open>data_store\<close>, and \<open>mem\<close> its
    interpretation on the in-memory store.
  \<^item> \<open>ValidatorNode\<close>, \<open>Channel\<close>, \<open>PollLoop\<close>: \<^verbatim>\<open>src/validator/mod.rs\<close>; the operations of the
    validator (\<open>validator_write\<close> and so on), the handling of one request, and \<^verbatim>\<open>Future::poll\<close>,
    whose inputs are the events the loop finds (\<open>tick\<close>) and whose outputs are the responses and
    publications in order (\<open>effect\<close>).
  \<^item> \<open>ClientCore\<close>, \<open>ClientWrite\<close>, \<open>ClientRead\<close>, \<open>ClientSubscribe\<close>: \<^verbatim>\<open>src/client/client.rs\<close>. The
    network is an argument: the list of completed responses, in the order of completion, each a
    reply, a failed request or a timeout. Every operation has its loop body as a function on the
    local variables of the code (\<open>write_state\<close>, \<open>read_state\<close>, \<open>forward_state\<close>).
  \<^item> \<open>Timing\<close>: the two timeouts of the client. The fate of a request is an answer or a failure after
    some time, or nothing; \<open>with_timeout\<close> turns it into a completion with its time, \<open>by_time\<close> says
    that the completions come in the order of their times.
  \<^item> \<open>HttpApi\<close>: \<^verbatim>\<open>src/client/api.rs\<close>, its handlers and the start of the server with its routes.
  \<^item> \<open>Registry\<close>, \<open>Contract\<close>, \<open>Bootstrap\<close>: \<^verbatim>\<open>src/registry/\<close>, \<^verbatim>\<open>bin/gen_keys.rs\<close>, the storage of
    \<^verbatim>\<open>smart-contracts/src/Registry.sol\<close> as a transition relation (\<open>transaction\<close>, \<open>deployed\<close>), and
    the start of \<^verbatim>\<open>bin/client.rs\<close> and \<^verbatim>\<open>bin/validator.rs\<close>. The trait \<^verbatim>\<open>Registry\<close> is the locale
    \<open>registry\<close>, interpreted on both implementations (\<open>fs\<close>, \<open>contract\<close>).
  \<^item> \<open>ContractBalance\<close>: the ether the contract holds, and transactions in which the receiver of a
    withdrawal calls the contract again (\<open>call\<close>, \<open>calls\<close>).
  \<^item> \<open>Interfaces\<close>: the traits \<^verbatim>\<open>ClientSpec\<close> and \<^verbatim>\<open>ValidatorSpec\<close> (\<^verbatim>\<open>src/client/spec.rs\<close>,
    \<^verbatim>\<open>src/validator/spec.rs\<close>) as records of operations with their implementations, and what each
    operation of a client can return.
  \<^item> \<open>System\<close>: clients and validators together; \<open>answer\<close> is what a client receives of a
    validator when the network delivers.
  \<^item> \<open>Network\<close>: runs of any number of clients and validators, of which the ones in \<open>bad\<close> are
    faulty. The state is the validators and the set of all replies ever sent; an event delivers a
    request to a validator at some clock time, or lets a faulty validator send any bytes. Requests
    and replies may be lost, repeated and reordered, but a reply comes from the validator it names
    (\<^verbatim>\<open>msg\<close> answers on the connection of the request). \<open>execution\<close> is a run,
    \<open>received\<close> says that a client's completions are replies of it. The clients keep no state
    between calls, so they need no part in the state.
  \<^item> \<open>PollOrder\<close>: what \<^verbatim>\<open>poll\<close> does with an arbitrary schedule of requests and idle iterations.
  \<^item> \<open>PollNetwork\<close>: the network with the event loops of its validators in place of single requests.
    A validator is the state its call of \<^verbatim>\<open>poll\<close> started with and the iterations since; an event is
    one iteration of one validator, so the loops run concurrently, and what a loop has published is
    part of the state. \<open>requests_only\<close> maps these states to those of \<open>Network\<close>.
  \<^item> \<open>SubscriberRuns\<close>: a subscriber of such a network; \<open>delivers\<close> is what reaches it of the
    publications, \<open>clean_topic\<close> under which conditions its certificates mean what they say.
  \<^item> \<open>Deployment\<close>, \<open>LogEndToEnd\<close>: a network started from the file of the key generator, and reading
    back the log of validators that all answer.
  \<^item> \<open>Feed\<close>: \<^verbatim>\<open>examples/cr_feed.rs\<close>, whose tasks share a map of instants, as a step relation
    (\<open>feed_step\<close>) with its reachable states.
  \<^item> \<open>DataProperties\<close>, \<open>ValidatorProperties\<close>, \<open>PollProperties\<close>, \<open>ClientProperties\<close>,
    \<open>ReadProperties\<close>, \<open>RegistryProperties\<close>, \<open>NetworkProperties\<close>,
    \<open>LoopProperties\<close>, \<open>SubscriptionProperties\<close> and this theory: the properties C1 to C40 with
    their witnesses (some stand in \<open>Interfaces\<close>, \<open>Feed\<close>, \<open>Timing\<close>, \<open>ContractBalance\<close>,
    \<open>Deployment\<close>, \<open>LogEndToEnd\<close> and \<open>SubscriberRuns\<close>), and further theorems of the same kind without a number.

  \<^bold>\<open>Third-party code\<close> is a parameter. \<open>L\<close> (record \<open>lib\<close>) is \<^verbatim>\<open>blst\<close>, the hash of \<^verbatim>\<open>alloy\<close> and
  hex coding; \<open>J\<close> (\<open>json\<close>) is \<^verbatim>\<open>serde_json\<close>; \<open>F\<close> (\<open>fifo\<close>) is \<^verbatim>\<open>hashmore::FIFOMap\<close>; \<open>C\<close> (\<open>mpsc\<close>)
  is the bounded channel of \<^verbatim>\<open>tokio\<close>; name resolution, connecting, the clock, the random bytes
  and the Ethereum node are function or value arguments. What a theorem relies on is a named
  hypothesis: \<open>bls_correct\<close> (a signature made verifies), \<open>agg_unchecked_total\<close> (adding to an
  aggregate without a group check does not fail), \<open>json_faithful\<close> (decoding inverts encoding),
  \<open>fifo_laws\<close>, \<open>mpsc_laws\<close>, \<open>hex_roundtrip\<close>, \<open>hex_alphabet\<close>, \<open>sk_bytes_roundtrip\<close> and the like. The concrete instances \<open>toy_lib\<close>,
  \<open>toy_json\<close>, \<open>queue_fifo\<close> and \<open>list_mpsc\<close> satisfy them and carry the witnesses. Unforgeability
  is nowhere assumed: the soundness theorems say which signatures were verified.

  \<^bold>\<open>What the lemmas show.\<close>
  \<^item> Functional correctness: \<open>write\<close> and \<open>subscribe_certified\<close> against specifications written as
    functions of all replies (\<open>write_spec\<close>, \<open>certificates\<close>); the certificates of \<^verbatim>\<open>write\<close>,
    \<^verbatim>\<open>read_message\<close> and \<^verbatim>\<open>read_certified\<close> are backed by quorums of different validators; \<^verbatim>\<open>read\<close>
    returns the union of the verified logs; \<^verbatim>\<open>poll\<close> answers like the sequence of its requests.
  \<^item> Consistency: quorums intersect and the certified time lies between votes, except for four
    validators; honest networks are served end to end, from the key file on; what was written can be
    read, also as a log, and what is published reaches a subscriber with a certificate.
  \<^item> Refinement: the event loops of all validators, run concurrently, reach the states and send the
    replies of a network in which each serves single requests, so the theorems on such runs hold of
    the loops; what a loop publishes is a record it was asked to write, one publication per write,
    and when no message is written twice, certificates of a subscription stand for a quorum.
  \<^item> Time: no call exceeds its timeout, and \<^verbatim>\<open>write\<close> takes as long as the fastest quorum.
  \<^item> The contract: its ether covers the stakes whatever is called from inside a withdrawal.
  \<^item> Faulty validators: a certified write stays readable at the honest part of its quorum, two
    certificates do not contradict each other, nothing unwritten is certified, and the certified
    time stays within the honest clocks, also when the message is read back later, each under an
    explicit bound on the faulty validators; the bound for the agreement is shown to be sharp. A
    record is only kept until 4096 further messages are in its namespace, so these theorems count
    the messages the validator was asked to write.
  \<^item> Robustness: the validator never panics, a release client does not when indices are dense.
  \<^item> Boundaries of the design: each place where the code does less than its comments say has a
    theorem with the smallest configuration that shows it.

  \<^bold>\<open>Bounds.\<close> The channel of \<^verbatim>\<open>poll\<close> and the stream of \<^verbatim>\<open>subscribe\<close> hold 512 items, a namespace of
  the store 4096 records, the map of \<^verbatim>\<open>subscribe_certified\<close> 1024 messages; these are the
  constants of the code. There is no fuel: every loop recurses on the list of its events, so a
  loop ends when its events do. \<open>poll_terminates\<close> uses 513 idle iterations, one per place of the
  channel and one more, after any schedule. \<open>poll_burst\<close> supplies enough idle iterations to drain a full
  channel (one per queued record and one more), after which \<open>poll\<close> returns \<^verbatim>\<open>Pending\<close>.

  \<^bold>\<open>Not modelled.\<close> Sockets, framing and TLS; tracing; the parsing of the command line and of HTTP
  requests by \<^verbatim>\<open>clap\<close> and \<^verbatim>\<open>axum\<close>; the events and the cost of gas of the contract; the time the
  client itself needs, for instance to verify signatures; the scheduling of background tasks beyond the order of their events; the pauses and
  log texts of the example program; tests, demo and book. The bounds on indices are explicit: a registry index is a
  64-bit word, the validator count a natural number that the theorems bound where it matters.

  \<^bold>\<open>Plan.\<close> What could follow: the time of \<^verbatim>\<open>read\<close> with its
  verification tasks, and the command-line entry points with their exit codes.
\<close>

section \<open>Properties across the components\<close>

text \<open>
  C1: end to end: when a client knows honest validators 0 to n - 1 by their keys and all of
  them answer, in whatever order, \<^verbatim>\<open>write\<close> returns a certificate for the message, and its
  certified timestamp lies within the range of the validators' clocks, for every n but 0 and 4.
\<close>

theorem write_end_to_end:
  assumes "bls_correct L" "agg_unchecked_total L" "json_faithful J"
    and "dense c" "client_ok c" "validator_count c \<noteq> 0" "validator_count c \<noteq> 4"
    and "distinct order" "set order = {..<validator_count c}"
    and "\<forall>i<validator_count c. validators c i = Some (sk_to_pk L (v_secret_key (v i))) \<and>
      (\<exists>t. ts_now (clock i) = Some t \<and> lo \<le> t \<and> t \<le> hi)"
    and "ts_nat hi < 2 ^ 127"
  shows "\<exists>cert t. client_write p L J c ns m
      (map (\<lambda>i. (i, answer L J D (clock i) (v i) (Write ns m))) order) = Ok cert \<and>
    cr_message cert = m \<and> certified_timestamp p cert = Some (t, cert) \<and> lo \<le> t \<and> t \<le> hi"
  by (rule write_all_honest [OF assms])

text \<open>Three validators with the keys of the sample client.\<close>

theorem write_end_to_end_witness:
  "\<exists>cert t. client_write Dev toy_lib toy_json sample_client [7] (Message [1])
      (map (\<lambda>i. (i, answer toy_lib toy_json (in_memory toy_lib queue_fifo) (5000000 + int i) (sample_node i)
        (Write [7] (Message [1])))) [2, 0, 1]) = Ok cert \<and>
    cr_message cert = Message [1] \<and> certified_timestamp Dev cert = Some (t, cert) \<and>
    Timestamp 5 \<le> t \<and> t \<le> Timestamp 6"
proof (rule write_end_to_end [OF toy_bls_correct toy_agg_total toy_json_faithful sample_client_dense sample_client_ok])
  show "set [2, 0, 1] = {..<validator_count sample_client}" by auto
  have "ts_now (5000000 + int i) = Some (Timestamp 5)" if "i < 3" for i
    using that by (simp add: ts_now_def div_add1_eq)
  then show "\<forall>i<validator_count sample_client. validators sample_client i =
      Some (sk_to_pk toy_lib (v_secret_key (sample_node i))) \<and>
      (\<exists>t. ts_now (5000000 + int i) = Some t \<and> Timestamp 5 \<le> t \<and> t \<le> Timestamp 6)"
    by (simp add: sample_known) (simp add: sample_node_def toy_lib_def)
qed (simp_all add: ts_nat_def)

text \<open>
  C15: read after write: when validators 0 to n - 1 with an in-memory store have served a write of
  a message and then all answer a query for it, in whatever order, a release build of
  \<^verbatim>\<open>read_message\<close> returns it certified as available.
\<close>

theorem read_after_write:
  assumes "bls_correct L" "agg_unchecked_total L" "json_faithful J"
    and "dense c" "client_ok c" "validator_count c \<noteq> 0"
    and "distinct order" "set order = {..<validator_count c}"
    and "\<forall>i<validator_count c. node_ok (store_ok L F) (store_content F) L (v i) \<and>
      validators c i = Some (sk_to_pk L (v_secret_key (v i))) \<and>
      (\<exists>r. validator_write L (in_memory L F) (clock i) (v i) ns m = Some (r, v' i))"
  shows "\<exists>cert. client_read_message Release L J c ns (Message_digest L m ns)
      (map (\<lambda>i. (i, answer L J (in_memory L F) (clock' i) (v' i) (ReadMessage ns (Message_digest L m ns)))) order) =
    Ok (CertAvailable cert) \<and> Message_digest L (cr_message cert) ns = Message_digest L m ns"
  by (rule read_message_all_written [OF assms(1-8), where v = v and clock = clock]) (use assms(9) in \<open>simp add: all_wrote_def\<close>)

lemma sample_node_ok:
  "node_ok (store_ok toy_lib queue_fifo) (store_content queue_fifo) toy_lib (sample_node i)"
  using sample_validator_ok by (simp add: node_ok_def sample_node_def sample_validator_def)

theorem read_after_write_witness:
  "\<exists>v' cert. client_read_message Release toy_lib toy_json sample_client [7] (Message_digest toy_lib (Message [1]) [7])
      (map (\<lambda>i. (i, answer toy_lib toy_json (in_memory toy_lib queue_fifo) 0 (v' i)
        (ReadMessage [7] (Message_digest toy_lib (Message [1]) [7])))) [2, 0, 1]) = Ok (CertAvailable cert) \<and>
    Message_digest toy_lib (cr_message cert) [7] = Message_digest toy_lib (Message [1]) [7]"
proof -
  have "\<exists>r v'. validator_write toy_lib (in_memory toy_lib queue_fifo) 5000000 (sample_node i) [7] (Message [1]) = Some (r, v')" for i
    by (simp add: validator_write_def ts_now_def Let_def)
  then obtain v' where v': "\<And>i. \<exists>r. validator_write toy_lib (in_memory toy_lib queue_fifo) 5000000 (sample_node i) [7] (Message [1]) =
      Some (r, v' i)" by metis
  have "validators sample_client i = Some (sk_to_pk toy_lib (v_secret_key (sample_node i)))" if "i < 3" for i
    using that by (simp add: sample_known) (simp add: sample_node_def toy_lib_def)
  then have nodes: "\<forall>i<validator_count sample_client. node_ok (store_ok toy_lib queue_fifo) (store_content queue_fifo) toy_lib (sample_node i) \<and>
      validators sample_client i = Some (sk_to_pk toy_lib (v_secret_key (sample_node i))) \<and>
      (\<exists>r. validator_write toy_lib (in_memory toy_lib queue_fifo) 5000000 (sample_node i) [7] (Message [1]) = Some (r, v' i))"
    using sample_node_ok v' by simp
  have "set [2, 0, 1] = {..<validator_count sample_client}" by auto
  from read_after_write [OF toy_bls_correct toy_agg_total toy_json_faithful sample_client_dense sample_client_ok _ _ this nodes]
  show ?thesis by (intro exI [of _ v']) simp
qed

text \<open>The storage after two registrations and a withdrawal, as a client reads it.\<close>

lemma withdrawn_storage:
  assumes "a \<noteq> b" "b \<noteq> 0" "key' \<noteq> key" "key \<noteq> []" "key' \<noteq> []"
    and "registerValidator a stake key' sock' stake (constructor minimum) = Some s1"
    and "registerValidator b stake key sock stake s1 = Some s2"
    and "withdrawAllStake a True s2 = Some s3"
  shows "getValidatorCount s3 = 2" "getValidatorByIndex s3 0 = None"
    "getValidatorByIndex s3 1 = Some \<lparr>sol_index = 1, sol_blsPubKey = key, sol_stake = stake,
       sol_socket = sock, sol_exists = True\<rparr>"
proof -
  have s1: "s1 = (constructor minimum)\<lparr>
      sc_validators := (\<lambda>_. no_validator)(a := \<lparr>sol_index = 0, sol_blsPubKey = key', sol_stake = stake,
        sol_socket = sock', sol_exists = True\<rparr>),
      sc_indexToPubKey := (\<lambda>_. [])(0 := key'), sc_blsPubKeyToValidator := (\<lambda>_. 0)(key' := a),
      sc_validatorAddresses := [a], sc_validatorCount := 1\<rparr>"
    using assms(6) by (auto simp: registerValidator_def constructor_def split: if_splits)
  have s2: "sc_validators s2 = (sc_validators s1)(b := \<lparr>sol_index = 1, sol_blsPubKey = key, sol_stake = stake,
        sol_socket = sock, sol_exists = True\<rparr>)"
      "sc_indexToPubKey s2 = (\<lambda>_. [])(0 := key', 1 := key)"
      "sc_blsPubKeyToValidator s2 = (\<lambda>_. 0)(key' := a, key := b)" "sc_validatorCount s2 = 2"
    using assms(7) by (auto simp: registerValidator_def s1 split: if_splits)
  have va: "sc_validators s2 a = \<lparr>sol_index = 0, sol_blsPubKey = key', sol_stake = stake,
      sol_socket = sock', sol_exists = True\<rparr>"
    using assms(1) by (simp add: s2 s1)
  have s3: "sc_validators s3 = (sc_validators s2)(a := no_validator)"
      "sc_indexToPubKey s3 = (sc_indexToPubKey s2)(0 := [])"
      "sc_blsPubKeyToValidator s3 = (sc_blsPubKeyToValidator s2)(key' := 0)" "sc_validatorCount s3 = 2"
    using assms(8) by (auto simp: withdrawAllStake_def removeValidator_def Let_def va s2(4))
  have zero: "\<not> sol_exists (sc_validators s3 0)"
    using assms(2) by (simp add: s3 s2 s1 no_validator_def)
  show "getValidatorCount s3 = 2" by (simp add: getValidatorCount_def s3)
  show "getValidatorByIndex s3 0 = None"
    using assms(4,5) zero by (simp add: getValidatorByIndex_def s3(2,3) s2(2,3) Let_def)
  show "getValidatorByIndex s3 1 = Some \<lparr>sol_index = 1, sol_blsPubKey = key, sol_stake = stake,
       sol_socket = sock, sol_exists = True\<rparr>"
    using assms(1,3) by (simp add: getValidatorByIndex_def s3(1-3) s2(1-3) Let_def)
qed



section \<open>The API server\<close>



end
